(* ===== verification/Serval_Prelude.thy ===== *)
theory Serval_Prelude
  imports Main "HOL-Library.Word" "HOL-Library.Monad_Syntax"
begin

text \<open>
  Shared vocabulary of the serval-dna development. A C function that touches memory is
  a HOL function into \<open>'a option\<close>: \<open>None\<close> is undefined behaviour (an access outside
  the object, a shift by the width of the type or more), so that "the function returns
  \<open>Some\<close>" is a memory-safety statement. Error codes the C function returns (usually
  \<open>-1\<close>) are ordinary values inside \<open>Some\<close>.
  C \<open>int\<close>s that count bytes are HOL integers; fixed-width unsigned values are words.
\<close>

unbundle bit_operations_syntax

type_synonym byte = "8 word"
type_synonym u16 = "16 word"
type_synonym u32 = "32 word"
type_synonym u64 = "64 word"

text \<open>Characters and string constants of the C source, as bytes.\<close>

abbreviation ch :: "char \<Rightarrow> byte" where
  "ch c \<equiv> of_char c"

abbreviation cs :: "string \<Rightarrow> byte list" where
  "cs s \<equiv> map of_char s"

named_theorems c_mem \<open>evaluation of the C memory accesses\<close>

subsection \<open>Object accesses\<close>

definition c_get :: "'a list \<Rightarrow> int \<Rightarrow> 'a option" where
  "c_get xs i = (if 0 \<le> i \<and> i < int (length xs) then Some (xs ! nat i) else None)"

definition c_put :: "'a list \<Rightarrow> int \<Rightarrow> 'a \<Rightarrow> 'a list option" where
  "c_put xs i v = (if 0 \<le> i \<and> i < int (length xs) then Some (xs[nat i := v]) else None)"

text \<open>\<open>n\<close> consecutive cells from offset \<open>i\<close>: the source operand of \<open>bcopy\<close>. A negative
  count converts to a huge \<open>size_t\<close>, hence a fault.\<close>

definition c_getn :: "'a list \<Rightarrow> int \<Rightarrow> int \<Rightarrow> 'a list option" where
  "c_getn xs i n =
     (if 0 \<le> n \<and> 0 \<le> i \<and> i + n \<le> int (length xs)
      then Some (take (nat n) (drop (nat i) xs)) else None)"

definition c_putn :: "'a list \<Rightarrow> int \<Rightarrow> 'a list \<Rightarrow> 'a list option" where
  "c_putn xs i ys =
     (if 0 \<le> i \<and> i + int (length ys) \<le> int (length xs)
      then Some (take (nat i) xs @ ys @ drop (nat i + length ys) xs) else None)"

lemma c_get_Some [c_mem]: "0 \<le> i \<Longrightarrow> i < int (length xs) \<Longrightarrow> c_get xs i = Some (xs ! nat i)"
  by (simp add: c_get_def)

lemma c_put_Some [c_mem]: "0 \<le> i \<Longrightarrow> i < int (length xs) \<Longrightarrow> c_put xs i v = Some (xs[nat i := v])"
  by (simp add: c_put_def)

lemma c_getn_Some [c_mem]:
  "0 \<le> n \<Longrightarrow> 0 \<le> i \<Longrightarrow> i + n \<le> int (length xs) \<Longrightarrow>
   c_getn xs i n = Some (take (nat n) (drop (nat i) xs))"
  by (simp add: c_getn_def)

lemma c_putn_Some [c_mem]:
  "0 \<le> i \<Longrightarrow> i + int (length ys) \<le> int (length xs) \<Longrightarrow>
   c_putn xs i ys = Some (take (nat i) xs @ ys @ drop (nat i + length ys) xs)"
  by (simp add: c_putn_def)

lemma c_put_length: "c_put xs i v = Some ys \<Longrightarrow> length ys = length xs"
  by (auto simp: c_put_def split: if_splits)

lemma c_putn_length: "c_putn xs i zs = Some ys \<Longrightarrow> length ys = length xs"
  by (auto simp: c_putn_def split: if_splits)

text \<open>A one-cell block write is a cell write.\<close>

lemma c_putn_single: "c_putn xs i [v] = c_put xs i v"
  by (auto simp: c_putn_def c_put_def upd_conv_take_nth_drop)

text \<open>Consecutive cell writes are one block write.\<close>

lemma c_put_putn: "Option.bind (c_put xs i v) (\<lambda>ys. c_putn ys (i + 1) vs) = c_putn xs i (v # vs)"
proof (cases "0 \<le> i \<and> i < int (length xs)")
  case True
  then obtain k where k: "i = int k" "k < length xs"
    by (metis nonneg_int_cases of_nat_less_iff)
  have "take (Suc k) (xs[k := v]) = take k xs @ [v]"
    using k(2) by (simp add: take_Suc_conv_app_nth)
  moreover have "drop (Suc k + length vs) (xs[k := v]) = drop (k + Suc (length vs)) xs"
    by (simp add: drop_update_cancel)
  moreover have "nat (int k + 1) = Suc k" by simp
  ultimately show ?thesis
    using k by (simp add: c_put_def c_putn_def)
next
  case False
  then show ?thesis by (auto simp: c_put_def c_putn_def)
qed

lemma c_putn_Nil: "0 \<le> i \<Longrightarrow> i \<le> int (length xs) \<Longrightarrow> c_putn xs i [] = Some xs"
  by (simp add: c_putn_def)

lemma c_getn_all: "c_getn vs 0 (int (length vs)) = Some vs"
  by (simp add: c_getn_def)

lemma c_puts_putn:
  "Option.bind (c_put xs i v) (\<lambda>ys. Option.bind (c_putn ys (i + 1) vs) k) = Option.bind (c_putn xs i (v # vs)) k"
  by (simp flip: c_put_putn)

text \<open>Overwriting consecutive elements, as far as the list goes.\<close>

definition put_at :: "'a list \<Rightarrow> nat \<Rightarrow> 'a list \<Rightarrow> 'a list" where
  "put_at xs i vs = take (length xs) (take i xs @ vs @ drop (i + length vs) xs)"

lemma put_at_Cons: "put_at (xs[i := v]) (Suc i) vs = put_at xs i (v # vs)"
proof (cases "i < length xs")
  case True
  then have "take (Suc i) (xs[i := v]) = take i xs @ [v]" by (simp add: take_Suc_conv_app_nth)
  moreover have "drop (Suc i + length vs) (xs[i := v]) = drop (i + length (v # vs)) xs"
    by (simp add: drop_update_cancel)
  ultimately show ?thesis by (simp add: put_at_def)
next
  case False
  then show ?thesis by (simp add: put_at_def list_update_beyond)
qed

lemma nat_int_sub [simp]: "nat (int a - int b) = a - b"
  by (simp add: nat_diff_distrib')

lemma take_min_length [simp]: "take (min a (length s)) s = take a s"
  by (simp add: min_def)

lemma take_pre: "take (length xs + length ys) (xs @ ys @ zs) = xs @ ys" by simp

lemma nth_drop_take: "n < length (drop p (take l xs)) \<Longrightarrow> drop p (take l xs) ! n = xs ! (p + n)"
  by (subst nth_drop) auto

subsection \<open>Bits of words\<close>

text \<open>Numerals reach the bit lemmas as integers.\<close>

lemma bit_7f: "bit (0x7f :: int) n \<longleftrightarrow> n < 7"
proof -
  have "(0x7f :: int) = mask 7" by (simp add: mask_eq_exp_minus_1)
  then show ?thesis by (simp only: bit_mask_iff) simp
qed

lemma bit_80: "bit (0x80 :: int) n \<longleftrightarrow> n = 7"
proof -
  have "(0x80 :: int) = 2 ^ 7" by simp
  then show ?thesis by (simp only: bit_exp_iff) auto
qed

lemma bit_ff: "bit (0xFF :: int) n \<longleftrightarrow> n < 8"
proof -
  have "(0xFF :: int) = mask 8" by (simp add: mask_eq_exp_minus_1)
  then show ?thesis by (simp only: bit_mask_iff) simp
qed

lemma bit_less_exp: "unat (v :: 'w::len word) < 2 ^ m \<Longrightarrow> bit v i \<Longrightarrow> i < m"
proof (rule ccontr)
  assume "unat v < 2 ^ m" "bit v i" "\<not> i < m"
  then have "unat v < 2 ^ i" by (meson le_less_trans less_le_trans not_less one_le_numeral power_increasing)
  then have "\<not> bit (unat v) i" by (simp add: bit_iff_odd)
  then show False using \<open>bit v i\<close> by (simp add: bit_unsigned_iff)
qed

lemma unat_less_exp:
  assumes "\<And>n. bit (x :: 'w::len word) n \<Longrightarrow> n < m"
  shows "unat x < 2 ^ m"
proof -
  have "take_bit m (unat x) = unat x"
    by (rule bit_eqI) (use assms in \<open>auto simp: bit_simps\<close>)
  then show ?thesis by (metis take_bit_nat_less_exp)
qed

lemma scast_small: "unat (x :: u32) < 2 ^ 31 \<Longrightarrow> (scast x :: u64) = ucast x"
proof -
  assume "unat x < 2 ^ 31"
  then have hi: "bit x i \<Longrightarrow> i < 31" for i by (rule bit_less_exp)
  show ?thesis by (rule bit_word_eqI) (auto simp: bit_simps min_def dest: hi)
qed

lemma uint_u32: "0 \<le> x \<Longrightarrow> x < 2 ^ 32 \<Longrightarrow> uint (word_of_int x :: u32) = x"
  by (simp add: uint_word_of_int)

lemma and_mask_mod: "(n::int) AND (2 ^ k - 1) = n mod 2 ^ k"
  using take_bit_eq_mask[of k n] by (simp add: take_bit_eq_mod mask_eq_exp_minus_1)

text \<open>Moving byte \<open>k\<close> of \<open>v\<close> to bit position \<open>j\<close>.\<close>

lemma bit_byte_at:
  "bit (push_bit j (ucast (ucast (drop_bit k v AND 0xFF) :: byte)) :: 'a::len word) n \<longleftrightarrow>
     n < LENGTH('a) \<and> j \<le> n \<and> n < j + 8 \<and> bit (v :: 'b::len word) (k + n - j)"
  using bit_imp_le_length[of v "k + n - j"]
  by (cases "j \<le> n") (auto simp: bit_simps bit_ff)

lemma bit_byte_at_0:
  "bit (ucast (ucast (v AND 0xFF) :: byte) :: 'a::len word) n \<longleftrightarrow>
     n < LENGTH('a) \<and> n < 8 \<and> bit (v :: 'b::len word) n"
  using bit_byte_at[of 0 0 v n, where 'a = 'a] by simp

lemma bit_scast_u32: "bit (scast (x :: u32) :: u64) n \<longleftrightarrow> n < 64 \<and> bit x (min 31 n)"
  by (auto simp: bit_simps)

end
