(* ===== verification/Byte_Stream.thy ===== *)
theory Byte_Stream
  imports Serval_Prelude
begin

text \<open>
  Interfaces between a buffer and the code that writes to it or reads from it. A byte sink
  accepts bytes until it is full, a byte source hands them back in order. The packed
  integers of \<open>overlay_buffer.c\<close> (seven bits per byte, least significant group first, the
  top bit set on every byte but the last) are proved correct once here, for any sink and any
  source, as do-while loops that satisfy the equation of the C code.
\<close>

text \<open>The byte each round of the packed writers emits: \<open>(v&0x7f) | (v>0x7f?0x80:0)\<close>.\<close>

definition packed_byte :: "'a::len word \<Rightarrow> byte" where
  "packed_byte v = ucast ((v AND 0x7f) OR (if v > 0x7f then 0x80 else 0))"

lemma unat_drop_bit7: "unat (drop_bit 7 (v :: 'a::len word)) = unat v div 128"
  by (subst unat_drop_bit_eq) (simp add: drop_bit_eq_div)

lemma drop_bit7_less: "drop_bit 7 (v :: 'a::len word) \<noteq> 0 \<Longrightarrow> unat (drop_bit 7 v) < unat v"
proof -
  assume "drop_bit 7 v \<noteq> 0"
  then have "unat (drop_bit 7 v) \<noteq> 0" by (simp only: unat_eq_0 not_False_eq_True)
  then show ?thesis by (simp add: unat_drop_bit7)
qed

function packed_encode :: "'w::len word \<Rightarrow> byte list" where
  "packed_encode v = packed_byte v #
     (if drop_bit 7 v \<noteq> 0 then packed_encode (drop_bit 7 v) else [])"
  by pat_completeness auto
termination
  by (relation "measure unat") (auto intro: drop_bit7_less)

declare packed_encode.simps [simp del]

lemma gt_7f_iff: "v > 0x7f \<longleftrightarrow> drop_bit 7 (v :: 'w::len word) \<noteq> 0" if "LENGTH('w) \<ge> 8"
proof -
  have "unat (0x7f :: 'w word) = 127"
    using power_increasing[OF that, of "2::nat"] by (simp add: unat_numeral take_bit_nat_eq_self)
  then have "v > 0x7f \<longleftrightarrow> unat v div 128 \<noteq> 0" by (simp add: word_less_nat_alt) arith
  also have "\<dots> \<longleftrightarrow> drop_bit 7 v \<noteq> 0" unfolding unat_drop_bit7[symmetric] by (simp only: unat_eq_0)
  finally show ?thesis .
qed

lemma bit_packed_byte:
  assumes "LENGTH('w) \<ge> 8"
  shows "bit (packed_byte (v :: 'w::len word)) n \<longleftrightarrow>
    (n < 7 \<and> bit v n) \<or> (n = 7 \<and> drop_bit 7 v \<noteq> 0)"
  using assms gt_7f_iff[OF assms, of v]
  by (auto simp: packed_byte_def bit_simps bit_7f bit_80 dest: bit_imp_le_length)

lemma packed_continues:
  assumes "LENGTH('w) \<ge> 8"
  shows "(uint (packed_byte (v :: 'w::len word)) AND 0x80 \<noteq> 0) \<longleftrightarrow> drop_bit 7 v \<noteq> 0"
  using and_exp_eq_0_iff_not_bit[of "uint (packed_byte v)" 7] bit_packed_byte[OF assms, of v 7]
  by (simp add: bit_uint_iff)

lemma packed_payload:
  assumes "LENGTH('w) \<ge> 32" "unat (v :: 'w::len word) < 2 ^ (k - shift)" "k \<le> 32"
  shows "ucast (push_bit shift (word_of_int (uint (packed_byte v)) AND 0x7f) :: u32)
     = push_bit shift (v AND 0x7f)"
proof (rule bit_word_eqI)
  fix n
  have hi: "bit v i \<Longrightarrow> i < k - shift" for i
    using bit_less_exp[OF assms(2)] .
  show "bit (ucast (push_bit shift (word_of_int (uint (packed_byte v)) AND 0x7f) :: u32) :: 'w word) n
     = bit (push_bit shift (v AND 0x7f)) n"
    using assms(1,3) bit_packed_byte[of v "n - shift"] hi[of "n - shift"]
    by (auto simp: bit_simps bit_7f bit_uint_iff)
qed

lemma packed_split:
  "push_bit shift (v AND 0x7f) OR push_bit (shift + 7) (drop_bit 7 v) = push_bit shift (v :: 'w::len word)"
proof (rule bit_word_eqI)
  fix n
  show "bit (push_bit shift (v AND 0x7f) OR push_bit (shift + 7) (drop_bit 7 v)) n = bit (push_bit shift v) n"
    by (cases "n < shift + 7") (auto simp: bit_simps bit_7f)
qed

subsection \<open>Sinks and the packed writer\<close>

locale byte_sink =
  fixes put :: "'s \<Rightarrow> byte \<Rightarrow> (int \<times> 's) option"
    and sink_inv :: "'s \<Rightarrow> bool"
    and written :: "'s \<Rightarrow> byte list"
    and room :: "'s \<Rightarrow> int \<Rightarrow> bool"
  assumes put_room: "sink_inv s \<Longrightarrow> room s 1 \<Longrightarrow>
      \<exists>s'. put s v = Some (0, s') \<and> sink_inv s' \<and> written s' = written s @ [v] \<and>
           (\<forall>n. room s' n = room s (1 + n))"
    and put_full: "sink_inv s \<Longrightarrow> \<not> room s 1 \<Longrightarrow> put s v = Some (-1, s)"
    and room_mono: "room s n \<Longrightarrow> m \<le> n \<Longrightarrow> room s m"

locale packed_writer = byte_sink +
  fixes emit :: "'a \<Rightarrow> 'w::len word \<Rightarrow> (int \<times> 'a) option"
  assumes emit_loop: "emit s v = do {
     (r, s) \<leftarrow> put s (packed_byte v);
     if r \<noteq> 0 then Some (-1, s)
     else if drop_bit 7 v \<noteq> 0 then emit s (drop_bit 7 v)
     else Some (0, s)
   }"
begin

lemma emit_encodes:
  assumes "sink_inv s" "room s (int (length (packed_encode v)))"
  shows "\<exists>s'. emit s v = Some (0, s') \<and> sink_inv s' \<and> written s' = written s @ packed_encode v"
  using assms
proof (induction v arbitrary: s rule: packed_encode.induct)
  case (1 v)
  have "room s 1"
    using room_mono[OF "1.prems"(2), of 1] by (simp add: packed_encode.simps[of v])
  then obtain t where t: "put s (packed_byte v) = Some (0, t)" "sink_inv t"
    "written t = written s @ [packed_byte v]" "\<And>n. room t n = room s (1 + n)"
    using put_room[OF "1.prems"(1)] by blast
  show ?case
  proof (cases "drop_bit 7 v = 0")
    case True
    then show ?thesis using t by (simp add: emit_loop[of s] packed_encode.simps[of v])
  next
    case False
    then have "room t (int (length (packed_encode (drop_bit 7 v))))"
      using "1.prems"(2) t(4) by (simp add: packed_encode.simps[of v] add.commute)
    from "1.IH"[OF False t(2) this] show ?thesis
      using t False by (auto simp: emit_loop[of s] packed_encode.simps[of v])
  qed
qed

lemma emit_total: "sink_inv s \<Longrightarrow> \<exists>r s'. emit s v = Some (r, s') \<and> sink_inv s'"
proof (induction v arbitrary: s rule: packed_encode.induct)
  case (1 v)
  show ?case
  proof (cases "room s 1")
    case True
    then obtain t where "put s (packed_byte v) = Some (0, t)" "sink_inv t"
      using put_room[OF "1.prems"] by blast
    then show ?thesis using "1.IH" by (auto simp: emit_loop[of s v])
  next
    case False
    then show ?thesis using put_full[OF "1.prems"] "1.prems" by (simp add: emit_loop[of s v])
  qed
qed

end

subsection \<open>Sources and the packed reader\<close>

locale byte_source =
  fixes get :: "'s \<Rightarrow> (int \<times> 's) option"
    and source_inv :: "'s \<Rightarrow> bool"
    and unread :: "'s \<Rightarrow> byte list"
  assumes get_end: "source_inv s \<Longrightarrow> unread s = [] \<Longrightarrow> get s = Some (-1, s)"
    and get_next: "source_inv s \<Longrightarrow> unread s = v # vs \<Longrightarrow>
      \<exists>s'. get s = Some (uint v, s') \<and> source_inv s' \<and> unread s' = vs"

text \<open>\<open>ib\<close> is the number of low bits the reader's \<open>int\<close> arithmetic gets right.\<close>

locale packed_reader = byte_source +
  fixes widen :: "u32 \<Rightarrow> 'w::len word"
    and ib :: nat
    and read :: "'a \<Rightarrow> 'w word \<Rightarrow> nat \<Rightarrow> ('w word \<times> 'a) option"
  assumes wide: "32 \<le> LENGTH('w)" and ib: "ib \<le> 32"
    and widen: "unat x < 2 ^ ib \<Longrightarrow> widen x = ucast x"
    and read_loop: "read s ret shift = do {
     (byte, s) \<leftarrow> get s;
     if byte < 0 then Some (-1, s)
     else if shift > 31 then None
     else do {
       let ret = ret OR widen (push_bit shift (word_of_int byte AND 0x7f));
       if byte AND 0x80 \<noteq> 0 then read s ret (shift + 7)
       else Some (ret, s)
     }
   }"
begin

lemma payload:
  assumes "unat (v :: 'w word) < 2 ^ (ib - shift)"
  shows "widen (push_bit shift (word_of_int (uint (packed_byte v)) AND 0x7f))
     = push_bit shift (v AND 0x7f)"
proof -
  let ?x = "push_bit shift (word_of_int (uint (packed_byte v)) AND 0x7f) :: u32"
  have "bit ?x n \<Longrightarrow> n < ib" for n
    using bit_less_exp[OF assms, of "n - shift"] bit_packed_byte[of v "n - shift"] wide
    by (auto simp: bit_simps bit_7f bit_uint_iff)
  then have "unat ?x < 2 ^ ib" by (rule unat_less_exp)
  then show ?thesis using widen packed_payload[OF wide assms ib] by simp
qed

lemma read_decodes:
  assumes "source_inv s" "unread s = packed_encode v @ rest" "unat v < 2 ^ (ib - shift)" "shift < ib"
  shows "\<exists>s'. read s ret shift = Some (ret OR push_bit shift v, s') \<and> source_inv s' \<and> unread s' = rest"
  using assms
proof (induction v arbitrary: s ret shift rule: packed_encode.induct)
  case (1 v)
  have l8: "8 \<le> LENGTH('w)" using wide by simp
  obtain t where t: "get s = Some (uint (packed_byte v), t)" "source_inv t"
    "unread t = (if drop_bit 7 v \<noteq> 0 then packed_encode (drop_bit 7 v) else []) @ rest"
    using get_next[OF "1.prems"(1)] "1.prems"(2) packed_encode.simps[of v] by (metis append_Cons)
  have sh: "\<not> shift > 31" using "1.prems"(4) ib by simp
  note step = read_loop[of s ret shift] t(1) payload[OF "1.prems"(3)] sh packed_continues[OF l8, of v]
  show ?case
  proof (cases "drop_bit 7 v = 0")
    case True
    then have "push_bit shift v = push_bit shift (v AND 0x7f)"
      using packed_split[of shift v] by simp
    then show ?thesis using True step t by (simp add: Let_def)
  next
    case False
    have le: "unat v \<ge> 128" using False unat_drop_bit7[of v]
      by (metis div_less linorder_not_less unat_eq_0)
    have "shift + 7 < ib"
    proof (rule ccontr)
      assume "\<not> shift + 7 < ib"
      then have "(2::nat) ^ (ib - shift) \<le> 2 ^ 7" by (intro power_increasing) auto
      with le "1.prems"(3) show False by simp
    qed
    moreover have "unat (drop_bit 7 v) < 2 ^ (ib - (shift + 7))"
    proof -
      have "(2::nat) ^ (ib - shift) = 2 ^ (ib - (shift + 7)) * 128"
        using \<open>shift + 7 < ib\<close> power_add[of "2::nat" "ib - (shift + 7)" 7] by simp
      then show ?thesis using "1.prems"(3) by (simp add: unat_drop_bit7 less_mult_imp_div_less)
    qed
    ultimately obtain s' where "read t (ret OR push_bit shift (v AND 0x7f)) (shift + 7) =
         Some ((ret OR push_bit shift (v AND 0x7f)) OR push_bit (shift + 7) (drop_bit 7 v), s')"
       "source_inv s'" "unread s' = rest"
      using "1.IH"[OF False t(2), of "shift + 7"] t(3) False by auto
    then show ?thesis using False step packed_split[of shift v] by (simp add: Let_def or.assoc)
  qed
qed

lemma read_overlong:
  assumes "source_inv s" "unread s = packed_encode v @ rest" "2 ^ (7 * k) \<le> unat (v :: 'w word)" "31 < shift + 7 * k"
  shows "read s ret shift = None"
  using assms
proof (induction k arbitrary: s v ret shift)
  case 0
  then obtain t where "get s = Some (uint (packed_byte v), t)"
    using get_next[OF 0(1)] packed_encode.simps[of v] by (metis append_Cons)
  then show ?case using 0(4) by (simp add: read_loop[of s])
next
  case (Suc k)
  have l8: "8 \<le> LENGTH('w)" using wide by simp
  obtain t where t: "get s = Some (uint (packed_byte v), t)" "source_inv t"
    "unread t = (if drop_bit 7 v \<noteq> 0 then packed_encode (drop_bit 7 v) else []) @ rest"
    using get_next[OF Suc.prems(1)] Suc.prems(2) packed_encode.simps[of v] by (metis append_Cons)
  have ge: "2 ^ (7 * k) * 128 \<le> unat v" using Suc.prems(3) power_add[of "2::nat" "7 * k" 7] by (simp add: add.commute)
  then have k: "2 ^ (7 * k) \<le> unat (drop_bit 7 v)" by (simp add: unat_drop_bit7 less_eq_div_iff_mult_less_eq)
  then have nz: "drop_bit 7 v \<noteq> 0" by auto
  show ?case
  proof (cases "shift > 31")
    case True
    then show ?thesis using t(1) by (simp add: read_loop[of s])
  next
    case False
    have "read t r (shift + 7) = None" for r
      by (rule Suc.IH[OF t(2) _ k]) (use t(3) nz Suc.prems(4) in auto)
    then show ?thesis using t(1) False nz packed_continues[OF l8, of v] by (simp add: read_loop[of s] Let_def)
  qed
qed

end

end
