(* ===== verification/Overlay_Buffer.thy ===== *)
theory Overlay_Buffer
  imports Byte_Stream
begin

text \<open>
  The growable packet buffer of \<open>overlay_buffer.c\<close>, through which every overlay frame is
  written and parsed. A buffer is a record with the fields of \<open>struct overlay_buffer\<close>;
  the memory behind \<open>bytes\<close> is a byte list (\<open>None\<close> for the NULL pointer) and
  \<open>allocated\<close> says whether the buffer owns it. The extra field \<open>fill\<close> stands for
  whatever bytes \<open>malloc\<close> hands out uninitialised: every statement holds for all of them.
  Buffer pointers are never NULL here, so the NULL checks of the C code are discharged by
  the type, and allocation is taken to succeed. \<open>ob_slice\<close> returns a view of the parent's
  bytes at the time of the call; writes through a slice are not propagated to its parent.
\<close>

record overlay_buffer =
  bytes :: "byte list option"
  checkpointLength :: int
  position :: int
  sizeLimit :: int
  allocSize :: int
  allocated :: bool
  var_length_offset :: int
  fill :: "nat \<Rightarrow> byte"

type_synonym 'a ob_result = "('a \<times> overlay_buffer) option"

text \<open>The object behind the \<open>bytes\<close> pointer. NULL is an empty object: every access to it
  is out of range, a copy of no bytes is harmless.\<close>

definition ob_mem :: "overlay_buffer \<Rightarrow> byte list" where
  "ob_mem b = (case bytes b of None \<Rightarrow> [] | Some bs \<Rightarrow> bs)"

definition ob_setmem :: "overlay_buffer \<Rightarrow> byte list \<Rightarrow> overlay_buffer" where
  "ob_setmem b bs = b\<lparr>bytes := map_option (\<lambda>_. bs) (bytes b)\<rparr>"

subsection \<open>Construction and limits\<close>

definition ob_unlimitsize :: "overlay_buffer \<Rightarrow> overlay_buffer" where
  "ob_unlimitsize b = b\<lparr>sizeLimit := -1\<rparr>"

definition ob_calloc :: "(nat \<Rightarrow> byte) \<Rightarrow> overlay_buffer" where
  "ob_calloc f = \<lparr>bytes = None, checkpointLength = 0, position = 0, sizeLimit = 0,
     allocSize = 0, allocated = False, var_length_offset = 0, fill = f\<rparr>"

definition ob_new :: "(nat \<Rightarrow> byte) \<Rightarrow> overlay_buffer" where
  "ob_new f = ob_unlimitsize (ob_calloc f)"

definition ob_static :: "(nat \<Rightarrow> byte) \<Rightarrow> byte list \<Rightarrow> int \<Rightarrow> overlay_buffer" where
  "ob_static f bs sz =
     ob_unlimitsize ((ob_calloc f)\<lparr>bytes := Some bs, allocSize := sz, allocated := False\<rparr>)"

text \<open>The inner option is the NULL result for a slice that does not fit; forming the
  pointer \<open>b->bytes + offset\<close> outside the object is a fault.\<close>

definition ob_slice :: "overlay_buffer \<Rightarrow> int \<Rightarrow> int \<Rightarrow> overlay_buffer option option" where
  "ob_slice b offset len =
     (if offset + len > allocSize b then Some None
      else case bytes b of
        None \<Rightarrow> (if offset = 0
                 then Some (Some (ob_unlimitsize ((ob_calloc (fill b))\<lparr>allocSize := len\<rparr>)))
                 else None)
      | Some bs \<Rightarrow>
          (if 0 \<le> offset \<and> offset \<le> int (length bs)
           then Some (Some (ob_unlimitsize ((ob_calloc (fill b))
                  \<lparr>bytes := Some (drop (nat offset) bs), allocSize := len, allocated := False\<rparr>)))
           else None))"

definition ob_checkpoint :: "overlay_buffer \<Rightarrow> overlay_buffer" where
  "ob_checkpoint b = b\<lparr>checkpointLength := position b\<rparr>"

definition ob_rewind :: "overlay_buffer \<Rightarrow> overlay_buffer" where
  "ob_rewind b = b\<lparr>position := checkpointLength b\<rparr>"

definition ob_limitsize :: "overlay_buffer \<Rightarrow> int \<Rightarrow> int \<times> overlay_buffer" where
  "ob_limitsize b n =
     (if position b > n then (-1, b)
      else if checkpointLength b > n then (-1, b)
      else if bytes b \<noteq> None \<and> \<not> allocated b \<and> n > allocSize b then (-1, b)
      else if n < 0 then (-1, b)
      else (0, b\<lparr>sizeLimit := n\<rparr>))"

subsection \<open>Growing and appending\<close>

text \<open>The size of the new block: at least 64 bytes, then rounded up to 64 bytes, above one
  kilobyte to whole kilobytes, above 64 kilobytes to whole 64-kilobyte units.\<close>

definition round_up :: "int \<Rightarrow> int \<Rightarrow> int" where
  "round_up unit n = (if n AND (unit - 1) \<noteq> 0 then n + (unit - (n AND (unit - 1))) else n)"

definition ob_newsize :: "int \<Rightarrow> int" where
  "ob_newsize n =
     (let n1 = (if n < 64 then 64 else n);
          n2 = round_up 64 n1;
          n3 = (if n2 > 1024 then round_up 1024 n2 else n2)
      in if n3 > 65536 then round_up 65536 n3 else n3)"

definition ob_makespace :: "overlay_buffer \<Rightarrow> int \<Rightarrow> int ob_result" where
  "ob_makespace b n =
     (if sizeLimit b \<noteq> -1 \<and> position b + n > sizeLimit b then Some (-1, b)
      else if position b + n \<le> allocSize b then Some (0, b)
      else if bytes b \<noteq> None \<and> \<not> allocated b then Some (-1, b)
      else do {
        let newSize = ob_newsize (position b + n);
        let new = map (fill b) [0..<nat newSize];
        old \<leftarrow> c_getn (ob_mem b) 0 (position b);
        new \<leftarrow> c_putn new 0 old;
        Some (0, b\<lparr>bytes := Some new, allocated := True, allocSize := newSize\<rparr>)
      })"

definition ob_append_byte :: "overlay_buffer \<Rightarrow> byte \<Rightarrow> int ob_result" where
  "ob_append_byte b v = do {
     (r, b) \<leftarrow> ob_makespace b 1;
     if r \<noteq> 0 then Some (-1, b) else do {
       let bs = ob_mem b;
       bs \<leftarrow> c_put bs (position b) v;
       Some (0, (ob_setmem b bs)\<lparr>position := position b + 1\<rparr>)
     }
   }"

text \<open>The result is the offset of the reserved space (NULL is \<open>None\<close>).\<close>

definition ob_append_space :: "overlay_buffer \<Rightarrow> int \<Rightarrow> int option ob_result" where
  "ob_append_space b count = do {
     (r, b) \<leftarrow> ob_makespace b count;
     if r \<noteq> 0 then Some (None, b)
     else Some (Some (position b), b\<lparr>position := position b + count\<rparr>)
   }"

definition ob_append_bytes :: "overlay_buffer \<Rightarrow> byte list \<Rightarrow> int \<Rightarrow> int ob_result" where
  "ob_append_bytes b src count = do {
     (r, b) \<leftarrow> ob_makespace b count;
     if r \<noteq> 0 then Some (-1, b) else do {
       vs \<leftarrow> c_getn src 0 count;
       let bs = ob_mem b;
       bs \<leftarrow> c_putn bs (position b) vs;
       Some (0, (ob_setmem b bs)\<lparr>position := position b + count\<rparr>)
     }
   }"

definition ob_append_buffer :: "overlay_buffer \<Rightarrow> overlay_buffer \<Rightarrow> int ob_result" where
  "ob_append_buffer b s =
     ob_append_bytes b (ob_mem s) (position s)"

definition ob_append_ui16 :: "overlay_buffer \<Rightarrow> u16 \<Rightarrow> int ob_result" where
  "ob_append_ui16 b v = do {
     (r, b) \<leftarrow> ob_makespace b 2;
     if r \<noteq> 0 then Some (-1, b) else do {
       let bs = ob_mem b;
       bs \<leftarrow> c_put bs (position b) (ucast (drop_bit 8 v AND 0xFF));
       bs \<leftarrow> c_put bs (position b + 1) (ucast (v AND 0xFF));
       Some (0, (ob_setmem b bs)\<lparr>position := position b + 2\<rparr>)
     }
   }"

definition ob_append_ui32 :: "overlay_buffer \<Rightarrow> u32 \<Rightarrow> int ob_result" where
  "ob_append_ui32 b v = do {
     (r, b) \<leftarrow> ob_makespace b 4;
     if r \<noteq> 0 then Some (-1, b) else do {
       let bs = ob_mem b;
       bs \<leftarrow> c_put bs (position b) (ucast (drop_bit 24 v AND 0xFF));
       bs \<leftarrow> c_put bs (position b + 1) (ucast (drop_bit 16 v AND 0xFF));
       bs \<leftarrow> c_put bs (position b + 2) (ucast (drop_bit 8 v AND 0xFF));
       bs \<leftarrow> c_put bs (position b + 3) (ucast (v AND 0xFF));
       Some (0, (ob_setmem b bs)\<lparr>position := position b + 4\<rparr>)
     }
   }"

definition ob_append_ui64 :: "overlay_buffer \<Rightarrow> u64 \<Rightarrow> int ob_result" where
  "ob_append_ui64 b v = do {
     (r, b) \<leftarrow> ob_makespace b 8;
     if r \<noteq> 0 then Some (-1, b) else do {
       let bs = ob_mem b;
       bs \<leftarrow> c_put bs (position b) (ucast (drop_bit 56 v AND 0xFF));
       bs \<leftarrow> c_put bs (position b + 1) (ucast (drop_bit 48 v AND 0xFF));
       bs \<leftarrow> c_put bs (position b + 2) (ucast (drop_bit 40 v AND 0xFF));
       bs \<leftarrow> c_put bs (position b + 3) (ucast (drop_bit 32 v AND 0xFF));
       bs \<leftarrow> c_put bs (position b + 4) (ucast (drop_bit 24 v AND 0xFF));
       bs \<leftarrow> c_put bs (position b + 5) (ucast (drop_bit 16 v AND 0xFF));
       bs \<leftarrow> c_put bs (position b + 6) (ucast (drop_bit 8 v AND 0xFF));
       bs \<leftarrow> c_put bs (position b + 7) (ucast (v AND 0xFF));
       Some (0, (ob_setmem b bs)\<lparr>position := position b + 8\<rparr>)
     }
   }"

text \<open>The two packed writers are the same do-while loop at two widths.\<close>

function ob_append_packed_ui32 :: "overlay_buffer \<Rightarrow> u32 \<Rightarrow> int ob_result" where
  "ob_append_packed_ui32 b v = do {
     (r, b) \<leftarrow> ob_append_byte b (packed_byte v);
     if r \<noteq> 0 then Some (-1, b)
     else if drop_bit 7 v \<noteq> 0 then ob_append_packed_ui32 b (drop_bit 7 v)
     else Some (0, b)
   }"
  by pat_completeness auto
termination
  by (relation "measure (\<lambda>(b, v). unat v)") (auto intro: drop_bit7_less)

function ob_append_packed_ui64 :: "overlay_buffer \<Rightarrow> u64 \<Rightarrow> int ob_result" where
  "ob_append_packed_ui64 b v = do {
     (r, b) \<leftarrow> ob_append_byte b (packed_byte v);
     if r \<noteq> 0 then Some (-1, b)
     else if drop_bit 7 v \<noteq> 0 then ob_append_packed_ui64 b (drop_bit 7 v)
     else Some (0, b)
   }"
  by pat_completeness auto
termination
  by (relation "measure (\<lambda>(b, v). unat v)") (auto intro: drop_bit7_less)

declare ob_append_packed_ui32.simps [simp del] ob_append_packed_ui64.simps [simp del]

text \<open>\<open>ob_append_rfs\<close> reserves a 16-bit length field for \<open>ob_patch_rfs\<close> to fill in.\<close>

definition ob_append_rfs :: "overlay_buffer \<Rightarrow> int \<Rightarrow> int ob_result" where
  "ob_append_rfs b l =
     (if l < 0 \<or> l > 0xffff then Some (-1, b)
      else ob_append_ui16 (b\<lparr>var_length_offset := position b\<rparr>) (word_of_int l))"

text \<open>\<open>ob_dup\<close> copies position and limit first and then appends the bytes at that
  position; the result code of the append is ignored.\<close>

definition ob_dup :: "overlay_buffer \<Rightarrow> overlay_buffer option" where
  "ob_dup b = do {
     let ret = (ob_calloc (fill b))\<lparr>sizeLimit := sizeLimit b, position := position b,
                  checkpointLength := checkpointLength b\<rparr>;
     case bytes b of
       None \<Rightarrow> Some ret
     | Some bs \<Rightarrow>
         (if allocSize b = 0 then Some ret
          else do {
            let byteCount = sizeLimit b;
            let byteCount = (if byteCount < position b then position b else byteCount);
            let byteCount = (if byteCount > allocSize b then allocSize b else byteCount);
            (r, ret) \<leftarrow> ob_append_bytes ret bs byteCount;
            Some ret
          })
   }"

subsection \<open>Reading and patching inside the current limit\<close>

definition test_offset :: "overlay_buffer \<Rightarrow> int \<Rightarrow> int \<Rightarrow> int" where
  "test_offset b start len =
     (if start < 0 then -1
      else if sizeLimit b \<ge> 0 \<and> start + len > sizeLimit b then -1
      else if start + len > allocSize b then -1
      else 0)"

definition ob_getbyte :: "overlay_buffer \<Rightarrow> int \<Rightarrow> int option" where
  "ob_getbyte b ofs =
     (if test_offset b ofs 1 \<noteq> 0 then Some (-1)
      else do { let bs = ob_mem b; v \<leftarrow> c_get bs ofs; Some (uint v) })"

text \<open>The first component is the result code, the second what lands in the caller's buffer.\<close>

definition ob_get_bytes :: "overlay_buffer \<Rightarrow> int \<Rightarrow> (int \<times> byte list) ob_result" where
  "ob_get_bytes b len =
     (if test_offset b (position b) len \<noteq> 0 then Some ((-1, []), b)
      else do {
        vs \<leftarrow> c_getn (ob_mem b) (position b) len;
        Some ((0, vs), b\<lparr>position := position b + len\<rparr>)
      })"

text \<open>The pointer result is the offset into the buffer's bytes.\<close>

definition ob_get_bytes_ptr :: "overlay_buffer \<Rightarrow> int \<Rightarrow> int option \<times> overlay_buffer" where
  "ob_get_bytes_ptr b len =
     (if test_offset b (position b) len \<noteq> 0 then (None, b)
      else (Some (position b), b\<lparr>position := position b + len\<rparr>))"

definition ob_get :: "overlay_buffer \<Rightarrow> int ob_result" where
  "ob_get b =
     (if test_offset b (position b) 1 \<noteq> 0 then Some (-1, b)
      else do {
        let bs = ob_mem b;
        v \<leftarrow> c_get bs (position b);
        Some (uint v, b\<lparr>position := position b + 1\<rparr>)
      })"

definition ob_get_ui16 :: "overlay_buffer \<Rightarrow> u16 ob_result" where
  "ob_get_ui16 b =
     (if test_offset b (position b) 2 \<noteq> 0 then Some (0xFFFF, b)
      else do {
        let bs = ob_mem b;
        v0 \<leftarrow> c_get bs (position b);
        v1 \<leftarrow> c_get bs (position b + 1);
        Some (push_bit 8 (ucast v0) OR ucast v1, b\<lparr>position := position b + 2\<rparr>)
      })"

definition ob_get_ui32 :: "overlay_buffer \<Rightarrow> u32 ob_result" where
  "ob_get_ui32 b =
     (if test_offset b (position b) 4 \<noteq> 0 then Some (0xFFFFFFFF, b)
      else do {
        let bs = ob_mem b;
        v0 \<leftarrow> c_get bs (position b);
        v1 \<leftarrow> c_get bs (position b + 1);
        v2 \<leftarrow> c_get bs (position b + 2);
        v3 \<leftarrow> c_get bs (position b + 3);
        Some (push_bit 24 (ucast v0) OR push_bit 16 (ucast v1) OR push_bit 8 (ucast v2)
                OR ucast v3, b\<lparr>position := position b + 4\<rparr>)
      })"

text \<open>The fourth byte is shifted by 36 as the source has it, and the last four operands are
  computed at the width of \<open>int\<close> and sign-extended when joined with the 64-bit part.\<close>

definition ob_get_ui64 :: "overlay_buffer \<Rightarrow> u64 ob_result" where
  "ob_get_ui64 b =
     (if test_offset b (position b) 8 \<noteq> 0 then Some (0xFFFFFFFF, b)
      else do {
        let bs = ob_mem b;
        v0 \<leftarrow> c_get bs (position b);
        v1 \<leftarrow> c_get bs (position b + 1);
        v2 \<leftarrow> c_get bs (position b + 2);
        v3 \<leftarrow> c_get bs (position b + 3);
        v4 \<leftarrow> c_get bs (position b + 4);
        v5 \<leftarrow> c_get bs (position b + 5);
        v6 \<leftarrow> c_get bs (position b + 6);
        v7 \<leftarrow> c_get bs (position b + 7);
        Some (push_bit 56 (ucast v0) OR push_bit 48 (ucast v1) OR push_bit 40 (ucast v2)
                OR push_bit 36 (ucast v3)
                OR scast (push_bit 24 (ucast v4) :: u32)
                OR scast (push_bit 16 (ucast v5) :: u32)
                OR scast (push_bit 8 (ucast v6) :: u32)
                OR ucast v7, b\<lparr>position := position b + 8\<rparr>)
      })"

text \<open>In both packed readers \<open>(byte & 0x7f) << shift\<close> is computed in a 32-bit \<open>int\<close>: a
  shift of 32 or more is undefined, and the 64-bit reader sign-extends the result. A read
  past the end returns \<open>WHY(...)\<close>, that is \<open>-1\<close> at the result's width.\<close>

function ob_get_packed_ui32_loop :: "overlay_buffer \<Rightarrow> u32 \<Rightarrow> nat \<Rightarrow> u32 ob_result" where
  "ob_get_packed_ui32_loop b ret shift = do {
     (byte, b) \<leftarrow> ob_get b;
     if byte < 0 then Some (-1, b)
     else if shift > 31 then None
     else do {
       let ret = ret OR push_bit shift (word_of_int byte AND 0x7f);
       if byte AND 0x80 \<noteq> 0 then ob_get_packed_ui32_loop b ret (shift + 7)
       else Some (ret, b)
     }
   }"
  by pat_completeness auto
termination
  by (relation "measure (\<lambda>(b, ret, shift). 32 - shift)") auto

function ob_get_packed_ui64_loop :: "overlay_buffer \<Rightarrow> u64 \<Rightarrow> nat \<Rightarrow> u64 ob_result" where
  "ob_get_packed_ui64_loop b ret shift = do {
     (byte, b) \<leftarrow> ob_get b;
     if byte < 0 then Some (-1, b)
     else if shift > 31 then None
     else do {
       let ret = ret OR scast (push_bit shift (word_of_int byte AND 0x7f) :: u32);
       if byte AND 0x80 \<noteq> 0 then ob_get_packed_ui64_loop b ret (shift + 7)
       else Some (ret, b)
     }
   }"
  by pat_completeness auto
termination
  by (relation "measure (\<lambda>(b, ret, shift). 32 - shift)") auto

declare ob_get_packed_ui32_loop.simps [simp del] ob_get_packed_ui64_loop.simps [simp del]

definition ob_get_packed_ui32 :: "overlay_buffer \<Rightarrow> u32 ob_result" where
  "ob_get_packed_ui32 b = ob_get_packed_ui32_loop b 0 0"

definition ob_get_packed_ui64 :: "overlay_buffer \<Rightarrow> u64 ob_result" where
  "ob_get_packed_ui64 b = ob_get_packed_ui64_loop b 0 0"

definition ob_set_ui16 :: "overlay_buffer \<Rightarrow> int \<Rightarrow> u16 \<Rightarrow> int ob_result" where
  "ob_set_ui16 b offset v =
     (if test_offset b offset 2 \<noteq> 0 then Some (-1, b)
      else do {
        let bs = ob_mem b;
        bs \<leftarrow> c_put bs offset (ucast (drop_bit 8 v AND 0xFF));
        bs \<leftarrow> c_put bs (offset + 1) (ucast (v AND 0xFF));
        Some (0, ob_setmem b bs)
      })"

definition ob_set :: "overlay_buffer \<Rightarrow> int \<Rightarrow> byte \<Rightarrow> int ob_result" where
  "ob_set b ofs v =
     (if test_offset b ofs 1 \<noteq> 0 then Some (-1, b)
      else do {
        let bs = ob_mem b;
        bs \<leftarrow> c_put bs ofs v;
        Some (0, ob_setmem b bs)
      })"

definition ob_patch_rfs :: "overlay_buffer \<Rightarrow> int ob_result" where
  "ob_patch_rfs b =
     ob_set_ui16 b (var_length_offset b) (word_of_int (position b - (var_length_offset b + 2)))"

definition ob_position :: "overlay_buffer \<Rightarrow> int" where
  "ob_position b = position b"

definition ob_limit :: "overlay_buffer \<Rightarrow> int" where
  "ob_limit b = sizeLimit b"

definition ob_remaining :: "overlay_buffer \<Rightarrow> int" where
  "ob_remaining b = sizeLimit b - position b"

subsection \<open>The size of a new block\<close>

lemma round_up_mod:
  "round_up (2 ^ k) n = (if n mod 2 ^ k \<noteq> 0 then n + (2 ^ k - n mod 2 ^ k) else n)"
  by (simp add: round_up_def and_mask_mod)

lemma round_up_ge: "n \<le> round_up (2 ^ k) n"
  using pos_mod_bound[of "2 ^ k" n] by (simp add: round_up_mod less_imp_le)

lemma round_up_less: "round_up (2 ^ k) n < n + 2 ^ k"
  using pos_mod_sign[of "2 ^ k" n] by (simp add: round_up_mod order.not_eq_order_implies_strict)

lemma round_up_dvd: "2 ^ k dvd round_up (2 ^ k) n"
proof -
  have "2 ^ k dvd n - n mod 2 ^ k + 2 ^ k"
    by (simp add: minus_mod_eq_mult_div)
  moreover have "n - n mod 2 ^ k + 2 ^ k = n + (2 ^ k - n mod 2 ^ k)" by simp
  ultimately have "2 ^ k dvd n + (2 ^ k - n mod 2 ^ k)" by metis
  then show ?thesis by (auto simp: round_up_mod)
qed

lemmas round_up_64 = round_up_ge[of _ 6, simplified] round_up_less[of 6, simplified] round_up_dvd[of 6, simplified]
lemmas round_up_1024 = round_up_ge[of _ 10, simplified] round_up_less[of 10, simplified] round_up_dvd[of 10, simplified]
lemmas round_up_65536 = round_up_ge[of _ 16, simplified] round_up_less[of 16, simplified] round_up_dvd[of 16, simplified]

lemma ob_newsize_props:
  shows ob_newsize_ge: "n \<le> ob_newsize n"
    and ob_newsize_min: "64 \<le> ob_newsize n"
    and ob_newsize_dvd: "64 dvd ob_newsize n"
proof -
  define n1 where "n1 = (if n < 64 then 64 else n)"
  define n2 where "n2 = round_up 64 n1"
  define n3 where "n3 = (if n2 > 1024 then round_up 1024 n2 else n2)"
  have eq: "ob_newsize n = (if n3 > 65536 then round_up 65536 n3 else n3)"
    by (simp add: ob_newsize_def Let_def n1_def n2_def n3_def)
  have 1: "n \<le> n1" "64 \<le> n1" "n1 \<le> max n 64" by (auto simp: n1_def)
  have 2: "n1 \<le> n2" "n2 < n1 + 64" "64 dvd n2" unfolding n2_def by (rule round_up_64)+
  have 3: "n2 \<le> n3" "n3 < n2 + (if n2 > 1024 then 1024 else 1)"
    unfolding n3_def using round_up_1024[of n2] by auto
  have 4: "n3 \<le> ob_newsize n" "ob_newsize n < n3 + (if n3 > 65536 then 65536 else 1)"
    unfolding eq using round_up_65536[of n3] by auto
  show "n \<le> ob_newsize n" "64 \<le> ob_newsize n" using 1 2 3 4 by linarith+
  have "64 dvd n3" using 2(3) dvd_trans[OF _ round_up_1024(3)[of n2], of 64] by (simp add: n3_def)
  then show "64 dvd ob_newsize n"
    unfolding eq using dvd_trans[OF _ round_up_65536(3)[of n3], of 64] by simp
qed

subsection \<open>The invariant and the contents\<close>

text \<open>Position and checkpoint lie inside the block and inside the limit, and the block is as
  large as the buffer believes.\<close>

definition ob_inv :: "overlay_buffer \<Rightarrow> bool" where
  "ob_inv b \<longleftrightarrow>
     0 \<le> position b \<and> position b \<le> allocSize b \<and>
     0 \<le> checkpointLength b \<and> checkpointLength b \<le> allocSize b \<and> -1 \<le> sizeLimit b \<and>
     (sizeLimit b \<noteq> -1 \<longrightarrow> position b \<le> sizeLimit b \<and> checkpointLength b \<le> sizeLimit b) \<and>
     allocSize b \<le> int (length (ob_mem b)) \<and> (bytes b = None \<longrightarrow> \<not> allocated b)"

text \<open>What has been written so far, and whether \<open>n\<close> more bytes can be.\<close>

definition ob_data :: "overlay_buffer \<Rightarrow> byte list" where
  "ob_data b = take (nat (position b)) (ob_mem b)"

definition ob_growable :: "overlay_buffer \<Rightarrow> bool" where
  "ob_growable b \<longleftrightarrow> bytes b = None \<or> allocated b"

definition ob_fits :: "overlay_buffer \<Rightarrow> int \<Rightarrow> bool" where
  "ob_fits b n \<longleftrightarrow> (sizeLimit b = -1 \<or> position b + n \<le> sizeLimit b) \<and>
     (position b + n \<le> allocSize b \<or> ob_growable b)"

text \<open>What an append leaves alone.\<close>

definition ob_frame :: "overlay_buffer \<Rightarrow> overlay_buffer \<Rightarrow> bool" where
  "ob_frame b b' \<longleftrightarrow> sizeLimit b' = sizeLimit b \<and> checkpointLength b' = checkpointLength b \<and>
     var_length_offset b' = var_length_offset b \<and> fill b' = fill b \<and>
     ob_growable b' = ob_growable b \<and> (ob_growable b \<or> allocSize b' = allocSize b)"

lemma ob_mem_simps [simp]:
  "ob_mem (b\<lparr>bytes := Some bs\<rparr>) = bs"
  "ob_mem (b\<lparr>bytes := None\<rparr>) = []"
  "ob_mem (b\<lparr>position := p\<rparr>) = ob_mem b"
  "ob_mem (b\<lparr>sizeLimit := p\<rparr>) = ob_mem b"
  "ob_mem (b\<lparr>allocSize := p\<rparr>) = ob_mem b"
  "ob_mem (b\<lparr>allocated := a\<rparr>) = ob_mem b"
  "ob_mem (b\<lparr>checkpointLength := p\<rparr>) = ob_mem b"
  "ob_mem (b\<lparr>var_length_offset := p\<rparr>) = ob_mem b"
  by (simp_all add: ob_mem_def)

lemma ob_mem_setmem: "bytes b \<noteq> None \<Longrightarrow> ob_mem (ob_setmem b bs) = bs"
  by (auto simp: ob_mem_def ob_setmem_def)

lemma ob_mem_length: "ob_inv b \<Longrightarrow> allocSize b \<le> int (length (ob_mem b))"
  by (auto simp: ob_inv_def ob_mem_def split: option.splits)

lemma ob_frame_refl [simp]: "ob_frame b b"
  by (simp add: ob_frame_def)

lemma ob_frame_trans: "ob_frame a b \<Longrightarrow> ob_frame b c \<Longrightarrow> ob_frame a c"
  by (auto simp: ob_frame_def)

lemma ob_frame_fits: "ob_frame b b' \<Longrightarrow> position b' = position b + n \<Longrightarrow> ob_fits b' m = ob_fits b (n + m)"
  by (auto simp: ob_frame_def ob_fits_def)

lemma ob_fits_mono: "ob_fits b n \<Longrightarrow> m \<le> n \<Longrightarrow> ob_fits b m"
  by (auto simp: ob_fits_def)

lemma ob_makespace_full: "\<not> ob_fits b n \<Longrightarrow> ob_makespace b n = Some (-1, b)"
  by (auto simp: ob_fits_def ob_growable_def ob_makespace_def)

lemma ob_makespace_fits:
  assumes "ob_inv b" "ob_fits b n" "0 \<le> n"
  obtains b' where "ob_makespace b n = Some (0, b')" "ob_inv b'" "ob_data b' = ob_data b"
    "position b' = position b" "position b + n \<le> allocSize b'" "ob_frame b b'"
proof (cases "position b + n \<le> allocSize b")
  case True
  then have "ob_makespace b n = Some (0, b)"
    using assms by (auto simp: ob_makespace_def ob_fits_def)
  then show thesis using that[of b] assms(1) True by simp
next
  case False
  define N where "N = ob_newsize (position b + n)"
  have N: "position b + n \<le> N" "0 \<le> N" 
    using ob_newsize_ge[of "position b + n"] ob_newsize_min[of "position b + n"] by (auto simp: N_def)
  have pos: "0 \<le> position b" "position b \<le> int (length (ob_mem b))" "position b \<le> N"
    using assms(1) ob_mem_length[OF assms(1)] N assms(3) by (auto simp: ob_inv_def)
  define new where "new = ob_data b @ drop (nat (position b)) (map (fill b) [0..<nat N])"
  define b' where "b' = b\<lparr>bytes := Some new, allocated := True, allocSize := N\<rparr>"
  have get: "c_getn (ob_mem b) 0 (position b) = Some (ob_data b)"
    using pos by (simp add: c_getn_def ob_data_def)
  have len: "length (ob_data b) = nat (position b)" using pos by (simp add: ob_data_def)
  then have put: "c_putn (map (fill b) [0..<nat N]) 0 (ob_data b) = Some new"
    using pos by (simp add: c_putn_def new_def)
  have "ob_makespace b n = Some (0, b')"
    using assms(2) False
    by (auto simp: ob_makespace_def ob_fits_def ob_growable_def get put b'_def N_def[symmetric])
  moreover have "ob_inv b'"
    using assms(1) N pos len assms(3) False by (auto simp: ob_inv_def b'_def new_def)
  moreover have "ob_data b' = ob_data b" "position b' = position b"
    using len by (simp_all add: ob_data_def b'_def new_def)
  moreover have "ob_frame b b'"
    using assms(2) False by (auto simp: ob_frame_def ob_fits_def ob_growable_def b'_def)
  ultimately show thesis using that[of b'] N by (simp add: b'_def)
qed

subsection \<open>Appending\<close>

text \<open>Every appender is \<open>ob_append_bytes\<close> of the bytes it encodes.\<close>

definition be16 :: "u16 \<Rightarrow> byte list" where
  "be16 v = [ucast (drop_bit 8 v AND 0xFF), ucast (v AND 0xFF)]"

definition be32 :: "u32 \<Rightarrow> byte list" where
  "be32 v = [ucast (drop_bit 24 v AND 0xFF), ucast (drop_bit 16 v AND 0xFF),
             ucast (drop_bit 8 v AND 0xFF), ucast (v AND 0xFF)]"

definition be64 :: "u64 \<Rightarrow> byte list" where
  "be64 v = [ucast (drop_bit 56 v AND 0xFF), ucast (drop_bit 48 v AND 0xFF),
             ucast (drop_bit 40 v AND 0xFF), ucast (drop_bit 32 v AND 0xFF),
             ucast (drop_bit 24 v AND 0xFF), ucast (drop_bit 16 v AND 0xFF),
             ucast (drop_bit 8 v AND 0xFF), ucast (v AND 0xFF)]"

lemma ob_append_byte_eq: "ob_append_byte b v = ob_append_bytes b [v] 1"
  using c_getn_all[of "[v]"] by (simp add: ob_append_byte_def ob_append_bytes_def c_putn_single case_prod_beta cong: if_cong)

lemma ob_append_ui16_eq: "ob_append_ui16 b v = ob_append_bytes b (be16 v) 2"
  using c_getn_all[of "be16 v"]
  by (simp add: ob_append_ui16_def ob_append_bytes_def be16_def c_putn_single case_prod_beta cong: if_cong flip: c_puts_putn)

lemma ob_append_ui32_eq: "ob_append_ui32 b v = ob_append_bytes b (be32 v) 4"
  using c_getn_all[of "be32 v"]
  by (simp add: ob_append_ui32_def ob_append_bytes_def be32_def c_putn_single case_prod_beta add.assoc cong: if_cong flip: c_puts_putn)

lemma ob_append_ui64_eq: "ob_append_ui64 b v = ob_append_bytes b (be64 v) 8"
  using c_getn_all[of "be64 v"]
  by (simp add: ob_append_ui64_def ob_append_bytes_def be64_def c_putn_single case_prod_beta add.assoc cong: if_cong flip: c_puts_putn)

lemma ob_append_bytes_full: "\<not> ob_fits b n \<Longrightarrow> ob_append_bytes b src n = Some (-1, b)"
  by (simp add: ob_append_bytes_def ob_makespace_full)

lemma ob_append_bytes_fits:
  assumes "ob_inv b" "ob_fits b n" "0 \<le> n" "n \<le> int (length src)"
  obtains b' where "ob_append_bytes b src n = Some (0, b')" "ob_inv b'"
    "ob_data b' = ob_data b @ take (nat n) src" "position b' = position b + n" "ob_frame b b'"
proof -
  obtain c where c: "ob_makespace b n = Some (0, c)" "ob_inv c" "ob_data c = ob_data b"
    "position c = position b" "position b + n \<le> allocSize c" "ob_frame b c"
    using ob_makespace_fits[OF assms(1-3)] by blast
  define bs where "bs = ob_data c @ take (nat n) src @ drop (nat (position c) + nat n) (ob_mem c)"
  define b' where "b' = (ob_setmem c bs)\<lparr>position := position b + n\<rparr>"
  have pos: "0 \<le> position c" "position c + n \<le> int (length (ob_mem c))"
    using c(2,4,5) ob_mem_length[OF c(2)] by (auto simp: ob_inv_def)
  have len: "length (take (nat n) src) = nat n" "length (ob_data c) = nat (position c)"
    "length bs = length (ob_mem c)"
    using assms(3,4) pos by (simp_all add: ob_data_def bs_def)
  have "c_putn (ob_mem c) (position c) (take (nat n) src) = Some bs"
    using len pos assms(3) by (simp add: c_putn_def bs_def ob_data_def)
  then have eq: "ob_append_bytes b src n = Some (0, b')"
    using assms(3,4) c(1,4) by (simp add: ob_append_bytes_def c_mem b'_def)
  have mem: "ob_mem b' = bs"
    using len(3) by (cases "bytes c") (auto simp: b'_def ob_setmem_def ob_mem_def)
  have "ob_data b' = take (nat (position c + n)) bs"
    unfolding ob_data_def mem by (simp add: b'_def c(4))
  then have data: "ob_data b' = ob_data b @ take (nat n) src"
    using len pos(1) assms(3,4) by (simp add: bs_def c(3)[symmetric] nat_add_distrib)
  have "ob_inv b'"
    using c(2,4,5,6) assms(1-3) len(3)
    by (auto simp: ob_inv_def b'_def ob_setmem_def ob_mem_def ob_fits_def ob_frame_def split: option.splits)
  moreover have "ob_frame b b'" using c(6) by (auto simp: ob_frame_def b'_def ob_setmem_def ob_growable_def)
  ultimately show thesis using that[of b'] eq data by (simp add: b'_def)
qed

subsection \<open>Reading\<close>

definition ob_unread :: "overlay_buffer \<Rightarrow> byte list" where
  "ob_unread b = drop (nat (position b))
     (take (nat (if sizeLimit b \<ge> 0 then min (sizeLimit b) (allocSize b) else allocSize b)) (ob_mem b))"

lemma ob_unread_length:
  assumes "ob_inv b"
  shows "int (length (ob_unread b)) =
    (if sizeLimit b \<ge> 0 then min (sizeLimit b) (allocSize b) else allocSize b) - position b"
  using assms ob_mem_length[OF assms] by (auto simp: ob_unread_def ob_inv_def min_def)

lemma test_offset_unread:
  assumes "ob_inv b" "0 \<le> n"
  shows "test_offset b (position b) n = (if n \<le> int (length (ob_unread b)) then 0 else -1)"
  using assms(1) by (auto simp: ob_unread_length[OF assms(1)] test_offset_def ob_inv_def)

lemma ob_unread_advance:
  assumes "ob_inv b" "0 \<le> n" "n \<le> int (length (ob_unread b))"
  shows "ob_inv (b\<lparr>position := position b + n\<rparr>)"
    "ob_unread (b\<lparr>position := position b + n\<rparr>) = drop (nat n) (ob_unread b)"
  using assms unfolding ob_unread_length[OF assms(1)]
  by (auto simp: ob_inv_def ob_unread_def nat_add_distrib add.commute split: if_splits option.splits)

lemma ob_unread_nth:
  assumes "ob_inv b" "n < length (ob_unread b)"
  shows "c_get (ob_mem b) (position b + int n) = Some (ob_unread b ! n)"
proof -
  have "0 \<le> position b" using assms(1) by (simp add: ob_inv_def)
  moreover have "position b + int n < int (length (ob_mem b))"
    using assms(2) \<open>0 \<le> position b\<close> by (simp add: ob_unread_def)
  ultimately show ?thesis
    using nth_drop_take[OF assms(2)[unfolded ob_unread_def]]
    by (simp add: c_get_def ob_unread_def nat_add_distrib)
qed

lemma ob_get_end: "ob_inv b \<Longrightarrow> ob_unread b = [] \<Longrightarrow> ob_get b = Some (-1, b)"
  using test_offset_unread[of b 1] by (simp add: ob_get_def)

lemma ob_get_next:
  assumes "ob_inv b" "ob_unread b = v # vs"
  shows "ob_get b = Some (uint v, b\<lparr>position := position b + 1\<rparr>)"
  using assms test_offset_unread[of b 1] ob_unread_nth[of b 0] by (simp add: ob_get_def)

subsection \<open>The overlay buffer as a byte sink and source\<close>

lemma ob_append_byte_room:
  assumes "ob_inv b" "ob_fits b 1"
  shows "\<exists>b'. ob_append_byte b v = Some (0, b') \<and> ob_inv b' \<and> ob_data b' = ob_data b @ [v] \<and>
    (\<forall>n. ob_fits b' n = ob_fits b (1 + n))"
  using ob_append_bytes_fits[OF assms, of "[v]"] ob_frame_fits[of b _ 1]
  unfolding ob_append_byte_eq by (metis One_nat_def length_Cons list.size(3) nat_one_as_int of_nat_1 order_refl take0 take_Suc_Cons zero_le_one)

interpretation ob_sink: byte_sink ob_append_byte ob_inv ob_data ob_fits
  by unfold_locales
    (auto simp: ob_append_byte_eq ob_append_bytes_full intro: ob_fits_mono
       ob_append_byte_room[unfolded ob_append_byte_eq])

interpretation ob_writer32: packed_writer ob_append_byte ob_inv ob_data ob_fits ob_append_packed_ui32
  by unfold_locales (rule ob_append_packed_ui32.simps)

interpretation ob_writer64: packed_writer ob_append_byte ob_inv ob_data ob_fits ob_append_packed_ui64
  by unfold_locales (rule ob_append_packed_ui64.simps)

interpretation ob_source: byte_source ob_get ob_inv ob_unread
proof
  show "ob_get s = Some (-1, s)" if "ob_inv s" "ob_unread s = []" for s
    using that by (rule ob_get_end)
  show "\<exists>s'. ob_get s = Some (uint v, s') \<and> ob_inv s' \<and> ob_unread s' = vs"
    if "ob_inv s" "ob_unread s = v # vs" for s v vs
    using ob_get_next[OF that] ob_unread_advance[OF that(1), of 1] that(2) by simp
qed

interpretation ob_reader32: packed_reader ob_get ob_inv ob_unread "\<lambda>x. x" 32 ob_get_packed_ui32_loop
  by unfold_locales (simp_all add: ob_get_packed_ui32_loop.simps)

interpretation ob_reader64: packed_reader ob_get ob_inv ob_unread scast 31 ob_get_packed_ui64_loop
  by unfold_locales (auto simp: ob_get_packed_ui64_loop.simps intro: scast_small)

text \<open>Reading back what was written, from where it was written.\<close>

lemma ob_data_length: "ob_inv b \<Longrightarrow> length (ob_data b) = nat (position b)"
  using ob_mem_length[of b] by (auto simp: ob_data_def ob_inv_def)

lemma ob_unread_written:
  assumes "ob_inv b" "ob_inv b'" "ob_data b' = ob_data b @ vs"
  shows "ob_unread (b'\<lparr>position := position b\<rparr>) = vs @ ob_unread b'"
proof -
  define l where "l = nat (if sizeLimit b' \<ge> 0 then min (sizeLimit b') (allocSize b') else allocSize b')"
  define p where "p = nat (position b)"
  define q where "q = nat (position b')"
  have q: "q = p + length vs"
    using ob_data_length[OF assms(1)] ob_data_length[OF assms(2)] assms(3) by (simp add: p_def q_def)
  have "q \<le> l" using assms(2) by (auto simp: ob_inv_def l_def q_def)
  have "drop p (take l (ob_mem b')) = take (q - p) (drop p (take l (ob_mem b'))) @ drop q (take l (ob_mem b'))"
    using q by (metis add.commute add_diff_cancel_left' append_take_drop_id drop_drop)
  moreover have "take (q - p) (drop p (take l (ob_mem b'))) = drop p (take q (ob_mem b'))"
    using \<open>q \<le> l\<close> q by (simp add: take_drop min_def add.commute)
  moreover have "take q (ob_mem b') = ob_data b @ vs"
    using assms(3) by (simp add: ob_data_def q_def)
  moreover have "drop p (ob_data b @ vs) = vs"
    using ob_data_length[OF assms(1)] by (simp add: p_def)
  ultimately have "drop p (take l (ob_mem b')) = vs @ drop q (take l (ob_mem b'))" by simp
  moreover have "ob_unread b' = drop q (take l (ob_mem b'))"
    by (simp add: ob_unread_def l_def q_def)
  moreover have "ob_unread (b'\<lparr>position := position b\<rparr>) = drop p (take l (ob_mem b'))"
    by (simp add: ob_unread_def l_def p_def)
  ultimately show ?thesis by simp
qed

lemma ob_inv_seek: "ob_inv b \<Longrightarrow> 0 \<le> p \<Longrightarrow> p \<le> position b \<Longrightarrow> ob_inv (b\<lparr>position := p\<rparr>)"
  by (auto simp: ob_inv_def split: option.splits)

lemma ob_inv_back:
  assumes "ob_inv b" "ob_inv b'" "ob_data b' = ob_data b @ vs"
  shows "ob_inv (b'\<lparr>position := position b\<rparr>)"
proof (rule ob_inv_seek[OF assms(2)])
  show "0 \<le> position b" using assms(1) by (simp add: ob_inv_def)
  have "nat (position b) \<le> nat (position b')"
    using ob_data_length[OF assms(1)] ob_data_length[OF assms(2)] assms(3) by simp
  moreover have "0 \<le> position b'" using assms(2) by (simp add: ob_inv_def)
  ultimately show "position b \<le> position b'" by (simp add: nat_le_eq_zle)
qed

lemma ob_append_bytes_total:
  assumes "ob_inv b" "0 \<le> n" "n \<le> int (length src)"
  shows "\<exists>r b'. ob_append_bytes b src n = Some (r, b') \<and> ob_inv b'"
  using ob_append_bytes_fits[OF assms(1) _ assms(2,3)] ob_append_bytes_full[of b n src] assms(1) by metis

lemma be_lengths [simp]: "length (be16 v) = 2" "length (be32 w) = 4" "length (be64 x) = 8"
  by (simp_all add: be16_def be32_def be64_def)

lemma ob_inv_rfs: "ob_inv (b\<lparr>var_length_offset := p\<rparr>) = ob_inv b"
  by (simp add: ob_inv_def)

lemma test_offset_range:
  assumes "ob_inv b" "test_offset b i n = 0"
  shows "0 \<le> i" "i + n \<le> int (length (ob_mem b))" "i + n \<le> allocSize b" "sizeLimit b \<ge> 0 \<Longrightarrow> i + n \<le> sizeLimit b"
  using assms ob_mem_length[OF assms(1)] by (auto simp: test_offset_def split: if_splits)

lemma ob_inv_advance:
  assumes "ob_inv b" "test_offset b (position b) n = 0" "0 \<le> n"
  shows "ob_inv (b\<lparr>position := position b + n\<rparr>)"
  using assms test_offset_range[OF assms(1,2)] by (auto simp: ob_inv_def split: option.splits)

lemma ob_inv_setmem: "ob_inv b \<Longrightarrow> length bs = length (ob_mem b) \<Longrightarrow> ob_inv (ob_setmem b bs)"
  by (auto simp: ob_inv_def ob_setmem_def ob_mem_def split: option.splits)

datatype ob_op =
    AppendByte byte | AppendBytes "byte list" | AppendSpace nat
  | AppendUi16 u16 | AppendUi32 u32 | AppendUi64 u64 | AppendPacked32 u32 | AppendPacked64 u64
  | AppendRfs int | PatchRfs | SetByte int byte | SetUi16 int u16
  | Checkpoint | Rewind | Limit int | Unlimit
  | Get | GetBytes nat | GetBytesPtr nat | GetUi16 | GetUi32 | GetUi64

definition ob_after :: "('r \<times> overlay_buffer) option \<Rightarrow> overlay_buffer option" where
  "ob_after res = map_option snd res"

fun ob_exec :: "ob_op \<Rightarrow> overlay_buffer \<Rightarrow> overlay_buffer option" where
  "ob_exec (AppendByte v) b = ob_after (ob_append_byte b v)"
| "ob_exec (AppendBytes vs) b = ob_after (ob_append_bytes b vs (int (length vs)))"
| "ob_exec (AppendSpace n) b = ob_after (ob_append_space b (int n))"
| "ob_exec (AppendUi16 v) b = ob_after (ob_append_ui16 b v)"
| "ob_exec (AppendUi32 v) b = ob_after (ob_append_ui32 b v)"
| "ob_exec (AppendUi64 v) b = ob_after (ob_append_ui64 b v)"
| "ob_exec (AppendPacked32 v) b = ob_after (ob_append_packed_ui32 b v)"
| "ob_exec (AppendPacked64 v) b = ob_after (ob_append_packed_ui64 b v)"
| "ob_exec (AppendRfs l) b = ob_after (ob_append_rfs b l)"
| "ob_exec PatchRfs b = ob_after (ob_patch_rfs b)"
| "ob_exec (SetByte i v) b = ob_after (ob_set b i v)"
| "ob_exec (SetUi16 i v) b = ob_after (ob_set_ui16 b i v)"
| "ob_exec Checkpoint b = Some (ob_checkpoint b)"
| "ob_exec Rewind b = Some (ob_rewind b)"
| "ob_exec (Limit n) b = Some (snd (ob_limitsize b n))"
| "ob_exec Unlimit b = Some (ob_unlimitsize b)"
| "ob_exec Get b = ob_after (ob_get b)"
| "ob_exec (GetBytes n) b = ob_after (ob_get_bytes b (int n))"
| "ob_exec (GetBytesPtr n) b = Some (snd (ob_get_bytes_ptr b (int n)))"
| "ob_exec GetUi16 b = ob_after (ob_get_ui16 b)"
| "ob_exec GetUi32 b = ob_after (ob_get_ui32 b)"
| "ob_exec GetUi64 b = ob_after (ob_get_ui64 b)"

lemma ob_afterI: "\<exists>r b'. res = Some (r, b') \<and> P b' \<Longrightarrow> \<exists>b'. ob_after res = Some b' \<and> P b'"
  by (auto simp: ob_after_def)

lemma ob_set_total: "ob_inv b \<Longrightarrow> \<exists>r b'. ob_set b i v = Some (r, b') \<and> ob_inv b'"
  using test_offset_range[of b i 1] ob_inv_setmem[of b "(ob_mem b)[nat i := v]"]
  by (auto simp: ob_set_def c_mem)

lemma ob_set_ui16_total: "ob_inv b \<Longrightarrow> \<exists>r b'. ob_set_ui16 b i v = Some (r, b') \<and> ob_inv b'"
  using test_offset_range[of b i 2] 
  by (auto simp: ob_set_ui16_def c_mem intro!: ob_inv_setmem)

lemma ob_get_total: "ob_inv b \<Longrightarrow> \<exists>r b'. ob_get b = Some (r, b') \<and> ob_inv b'"
  using test_offset_range[of b "position b" 1] ob_inv_advance[of b 1] by (auto simp: ob_get_def c_mem)

lemma ob_get_bytes_total: "ob_inv b \<Longrightarrow> \<exists>r b'. ob_get_bytes b (int n) = Some (r, b') \<and> ob_inv b'"
  using test_offset_range[of b "position b" "int n"] ob_inv_advance[of b "int n"] by (auto simp: ob_get_bytes_def c_mem)

lemma ob_get_ui_total:
  assumes "ob_inv b"
  shows "\<exists>r b'. ob_get_ui16 b = Some (r, b') \<and> ob_inv b'"
    "\<exists>r b'. ob_get_ui32 b = Some (r, b') \<and> ob_inv b'"
    "\<exists>r b'. ob_get_ui64 b = Some (r, b') \<and> ob_inv b'"
  using assms test_offset_range[of b "position b" 2] ob_inv_advance[of b 2]
    test_offset_range[of b "position b" 4] ob_inv_advance[of b 4]
    test_offset_range[of b "position b" 8] ob_inv_advance[of b 8]
  by (auto simp: ob_get_ui16_def ob_get_ui32_def ob_get_ui64_def c_mem Let_def)

lemma ob_append_space_total: "ob_inv b \<Longrightarrow> \<exists>r b'. ob_append_space b (int n) = Some (r, b') \<and> ob_inv b'"
proof (cases "ob_fits b (int n)")
  case True
  assume "ob_inv b"
  then obtain c where "ob_makespace b (int n) = Some (0, c)" "ob_inv c" "position c = position b"
     "position b + int n \<le> allocSize c" "ob_frame b c"
    using ob_makespace_fits[of b "int n"] True by (metis of_nat_0_le_iff)
  then show ?thesis using True
    by (auto simp: ob_append_space_def ob_inv_def ob_frame_def ob_fits_def split: option.splits)
next
  case False
  then show "ob_inv b \<Longrightarrow> ?thesis" by (simp add: ob_append_space_def ob_makespace_full)
qed

lemma ob_exec_safe: "ob_inv b \<Longrightarrow> \<exists>b'. ob_exec op b = Some b' \<and> ob_inv b'"
proof (cases op)
  case Rewind
  assume "ob_inv b"
  with Rewind show ?thesis by (auto simp: ob_rewind_def ob_inv_def split: option.splits)
next
  case (Limit n)
  assume "ob_inv b"
  with Limit show ?thesis by (auto simp: ob_limitsize_def ob_inv_def split: option.splits)
next
  case (GetBytesPtr n)
  assume "ob_inv b"
  with GetBytesPtr ob_inv_advance[of b "int n"] show ?thesis by (auto simp: ob_get_bytes_ptr_def)
next
  case (AppendRfs l)
  assume "ob_inv b"
  with AppendRfs show ?thesis
    using ob_append_bytes_total[of "b\<lparr>var_length_offset := position b\<rparr>" 2 "be16 (word_of_int l)"]
    by (auto simp: ob_append_rfs_def ob_append_ui16_eq ob_inv_rfs ob_after_def)
qed (auto intro!: ob_afterI ob_set_total ob_set_ui16_total ob_get_total ob_get_bytes_total ob_get_ui_total
    ob_append_space_total ob_append_bytes_total ob_writer32.emit_total ob_writer64.emit_total
    simp: ob_append_byte_eq ob_append_ui16_eq ob_append_ui32_eq ob_append_ui64_eq ob_patch_rfs_def
      ob_checkpoint_def ob_unlimitsize_def, auto simp: ob_inv_def split: option.splits)

fun ob_run :: "ob_op list \<Rightarrow> overlay_buffer \<Rightarrow> overlay_buffer option" where
  "ob_run [] b = Some b"
| "ob_run (op # ops) b = Option.bind (ob_exec op b) (ob_run ops)"

text \<open>The fixed-width readers on the unread bytes.\<close>

lemma ob_get_ui16_next:
  assumes "ob_inv b" "ob_unread b = v0 # v1 # vs"
  shows "ob_get_ui16 b = Some (push_bit 8 (ucast v0) OR ucast v1, b\<lparr>position := position b + 2\<rparr>)"
  using assms test_offset_unread[of b 2] ob_unread_nth[of b 0] ob_unread_nth[of b 1]
  by (simp add: ob_get_ui16_def)

lemma ob_get_ui32_next:
  assumes "ob_inv b" "ob_unread b = v0 # v1 # v2 # v3 # vs"
  shows "ob_get_ui32 b = Some (push_bit 24 (ucast v0) OR push_bit 16 (ucast v1) OR push_bit 8 (ucast v2)
                OR ucast v3, b\<lparr>position := position b + 4\<rparr>)"
  using assms test_offset_unread[of b 4] ob_unread_nth[of b 0] ob_unread_nth[of b 1]
    ob_unread_nth[of b 2] ob_unread_nth[of b 3]
  by (simp add: ob_get_ui32_def Let_def)

definition ui64_read :: "u64 \<Rightarrow> u64" where
  "ui64_read v =
     push_bit 56 (ucast (ucast (drop_bit 56 v AND 0xFF) :: byte)) OR push_bit 48 (ucast (ucast (drop_bit 48 v AND 0xFF) :: byte))
     OR push_bit 40 (ucast (ucast (drop_bit 40 v AND 0xFF) :: byte)) OR push_bit 36 (ucast (ucast (drop_bit 32 v AND 0xFF) :: byte))
     OR scast (push_bit 24 (ucast (ucast (drop_bit 24 v AND 0xFF) :: byte)) :: u32) OR scast (push_bit 16 (ucast (ucast (drop_bit 16 v AND 0xFF) :: byte)) :: u32)
     OR scast (push_bit 8 (ucast (ucast (drop_bit 8 v AND 0xFF) :: byte)) :: u32) OR ucast (ucast (v AND 0xFF) :: byte)"

lemma ob_get_ui64_next:
  assumes "ob_inv b" "ob_unread b = be64 v @ vs"
  shows "ob_get_ui64 b = Some (ui64_read v, b\<lparr>position := position b + 8\<rparr>)"
  using assms test_offset_unread[of b 8] ob_unread_nth[of b 0] ob_unread_nth[of b 1]
    ob_unread_nth[of b 2] ob_unread_nth[of b 3] ob_unread_nth[of b 4] ob_unread_nth[of b 5]
    ob_unread_nth[of b 6] ob_unread_nth[of b 7]
  by (simp add: ob_get_ui64_def Let_def be64_def ui64_read_def)

lemma be16_value: "push_bit 8 (ucast (ucast (drop_bit 8 v AND 0xFF) :: byte)) OR ucast (ucast (v AND 0xFF) :: byte) = (v :: u16)"
  by (rule bit_word_eqI) (auto simp: bit_or_iff bit_byte_at bit_byte_at_0)

lemma be32_value:
  "push_bit 24 (ucast (ucast (drop_bit 24 v AND 0xFF) :: byte)) OR push_bit 16 (ucast (ucast (drop_bit 16 v AND 0xFF) :: byte))
   OR push_bit 8 (ucast (ucast (drop_bit 8 v AND 0xFF) :: byte)) OR ucast (ucast (v AND 0xFF) :: byte) = (v :: u32)"
  by (rule bit_word_eqI) (auto simp: bit_or_iff bit_byte_at bit_byte_at_0)

lemma bit_ui64_read:
  assumes n: "n < 64"
  shows "bit (ui64_read v) n \<longleftrightarrow> (40 \<le> n \<and> bit v n) \<or> (36 \<le> n \<and> n < 44 \<and> bit v (n - 4)) \<or>
     (31 \<le> n \<and> bit v 31) \<or> (n < 31 \<and> bit v n)"
proof -
  have m: "bit (push_bit j (ucast (ucast (drop_bit k v AND 0xFF) :: byte)) :: u64) n \<longleftrightarrow>
      j \<le> n \<and> n < j + 8 \<and> bit v (k + n - j)" for j k
    using n by (simp only: bit_byte_at len_num1 len_num0 len_bit0 len_bit1) simp
  have w: "bit (scast (push_bit j (ucast (ucast (drop_bit k v AND 0xFF) :: byte)) :: u32) :: u64) n \<longleftrightarrow>
      j \<le> min 31 n \<and> min 31 n < j + 8 \<and> bit v (k + min 31 n - j)" for j k
    using n by (simp only: bit_scast_u32 bit_byte_at) (auto simp: min_def)
  have z: "bit (ucast (ucast (v AND 0xFF) :: byte) :: u64) n \<longleftrightarrow> n < 8 \<and> bit v n"
    using n by (simp only: bit_byte_at_0) simp
  have e: "32 + n - 36 = n - 4" by simp
  show ?thesis
  proof (cases "n \<le> 31")
    case True
    then have k: "min 31 n = n" by simp
    show ?thesis unfolding ui64_read_def bit_or_iff m w z k using True by auto
  next
    case False
    then have k: "min 31 n = 31" by simp
    show ?thesis unfolding ui64_read_def bit_or_iff m w z k e using False n by auto
  qed
qed

lemma ui64_read_iff:
  "ui64_read v = v \<longleftrightarrow> (\<forall>n. 31 \<le> n \<and> n < 40 \<longrightarrow> \<not> bit v n) \<or> (\<forall>n. 31 \<le> n \<and> n < 64 \<longrightarrow> bit v n)"
proof
  assume eq: "ui64_read v = v"
  have b: "bit v n \<longleftrightarrow> (40 \<le> n \<and> bit v n) \<or> (36 \<le> n \<and> n < 44 \<and> bit v (n - 4)) \<or>
     (31 \<le> n \<and> bit v 31) \<or> (n < 31 \<and> bit v n)" if "n < 64" for n
    using bit_ui64_read[OF that, of v] unfolding eq .
  show "(\<forall>n. 31 \<le> n \<and> n < 40 \<longrightarrow> \<not> bit v n) \<or> (\<forall>n. 31 \<le> n \<and> n < 64 \<longrightarrow> bit v n)"
  proof (cases "bit v 31")
    case True
    then show ?thesis using b by blast
  next
    case False
    have lo: "\<not> bit v n" if "31 \<le> n" "n < 36" for n
      using b[of n] that False by auto
    then have "\<not> bit v n" if "36 \<le> n" "n < 40" for n
      using b[of n] that False lo[of "n - 4"] by auto
    then show ?thesis using lo by (metis not_less)
  qed
next
  assume h: "(\<forall>n. 31 \<le> n \<and> n < 40 \<longrightarrow> \<not> bit v n) \<or> (\<forall>n. 31 \<le> n \<and> n < 64 \<longrightarrow> bit v n)"
  show "ui64_read v = v"
  proof (rule bit_word_eqI)
    fix n assume "n < LENGTH(64)"
    then have n: "n < 64" by simp
    show "bit (ui64_read v) n = bit v n"
      using h
    proof
      assume z: "\<forall>n. 31 \<le> n \<and> n < 40 \<longrightarrow> \<not> bit v n"
      have "\<not> bit v (n - 4)" if "36 \<le> n" "n < 44"
      proof -
        have "31 \<le> n - 4" "n - 4 < 40" using that by auto
        then show ?thesis using z by blast
      qed
      then show ?thesis
        unfolding bit_ui64_read[OF n] using z[rule_format, of n] z[rule_format, of 31] by auto
    next
      assume "\<forall>n. 31 \<le> n \<and> n < 64 \<longrightarrow> bit v n"
      then show ?thesis unfolding bit_ui64_read[OF n] using n by auto
    qed
  qed
qed

lemma ob_append_roundtrip:
  assumes "ob_inv b" "ob_fits b n" "n = int (length vs)"
  obtains b' where "ob_append_bytes b vs n = Some (0, b')" "ob_inv b'" "ob_data b' = ob_data b @ vs"
    "ob_inv (b'\<lparr>position := position b\<rparr>)"
    "ob_unread (b'\<lparr>position := position b\<rparr>) = vs @ ob_unread b'"
    "position b' = position b + n"
proof -
  obtain b' where b': "ob_append_bytes b vs n = Some (0, b')" "ob_inv b'" "ob_data b' = ob_data b @ vs" "position b' = position b + n"
    using ob_append_bytes_fits[OF assms(1,2), of vs] assms(3) by auto
  show thesis using that[OF b'(1-3) ob_inv_back[OF assms(1) b'(2,3)] ob_unread_written[OF assms(1) b'(2,3)] b'(4)] .
qed

lemma ob_set_ui16_data:
  assumes "ob_inv b" "ob_data b = xs @ ys @ zs" "length ys = 2"
  shows "\<exists>b'. ob_set_ui16 b (int (length xs)) v = Some (0, b') \<and> ob_inv b' \<and> ob_data b' = xs @ be16 v @ zs"
proof -
  define p where "p = length xs"
  define m where "m = ob_mem b"
  define rest where "rest = drop (nat (position b)) m"
  have m: "m = xs @ ys @ zs @ rest"
    using assms(2) unfolding rest_def m_def ob_data_def by (metis append.assoc append_take_drop_id)
  have pos: "position b = int (length (xs @ ys @ zs))"
    using ob_data_length[OF assms(1)] assms(1,2) by (simp add: ob_inv_def)
  have ok: "test_offset b (int p) 2 = 0"
    using assms(1,3) pos by (auto simp: test_offset_def ob_inv_def p_def)
  define m' where "m' = xs @ be16 v @ zs @ rest"
  have "c_putn m (int p) (be16 v) = Some m'"
    using assms(3) by (simp add: c_putn_def m m'_def p_def)
  then have "Option.bind (c_put m (int p) (ucast (drop_bit 8 v AND 0xFF)))
      (\<lambda>bs. c_put bs (int p + 1) (ucast (v AND 0xFF))) = Some m'"
    using c_puts_putn[of m "int p" _ "[ucast (v AND 0xFF)]" Some]
    by (simp add: be16_def c_putn_single)
  then have set: "ob_set_ui16 b (int p) v = Some (0, ob_setmem b m')"
    using ok by (auto simp: ob_set_ui16_def m_def[symmetric] Let_def split: Option.bind_splits)
  have len: "length m' = length m" using assms(3) by (simp add: m m'_def)
  then have mem: "ob_mem (ob_setmem b m') = m'"
    using assms(3) by (cases "bytes b") (auto simp: ob_mem_def ob_setmem_def m_def)
  have "ob_data (ob_setmem b m') = xs @ be16 v @ zs"
    unfolding ob_data_def mem using pos assms(3) by (simp add: ob_setmem_def m'_def nat_add_distrib)
  then show ?thesis using set ob_inv_setmem[OF assms(1) len[unfolded m_def]] by (simp add: p_def)
qed

lemma ob_slice_inv:
  assumes "ob_inv b" "0 \<le> off" "0 \<le> n"
  shows "\<exists>r. ob_slice b off n = Some r \<and> (off + n \<le> allocSize b \<longleftrightarrow> r \<noteq> None) \<and> (\<forall>c. r = Some c \<longrightarrow> ob_inv c \<and>
     ob_unread c = take (nat n) (drop (nat off) (ob_mem b)))"
  using assms ob_mem_length[OF assms(1)]
  by (auto simp: ob_slice_def ob_inv_def ob_unlimitsize_def ob_calloc_def ob_mem_def ob_unread_def split: option.splits)

subsection \<open>Properties\<close>

text \<open>A fresh buffer meets the invariant; the witnesses below use one.\<close>

definition ob_example :: overlay_buffer where
  "ob_example = ob_new (\<lambda>_. 0)"

lemma ob_new_inv: "ob_inv (ob_new f)"
  by (simp add: ob_inv_def ob_new_def ob_unlimitsize_def ob_calloc_def ob_mem_def)

lemma ob_new_fits: "ob_fits (ob_new f) n"
  by (simp add: ob_fits_def ob_growable_def ob_new_def ob_unlimitsize_def ob_calloc_def)

lemma ob_static_inv: "0 \<le> n \<Longrightarrow> n \<le> int (length bs) \<Longrightarrow> ob_inv (ob_static f bs n)"
  by (simp add: ob_inv_def ob_static_def ob_unlimitsize_def ob_calloc_def ob_mem_def)

lemma ob_example_inv: "ob_inv ob_example"
  by (simp add: ob_example_def ob_new_inv)

lemma ob_example_fits: "ob_fits ob_example n"
  by (simp add: ob_example_def ob_new_fits)

lemma ob_example_data: "ob_data ob_example = []"
  by (simp add: ob_example_def ob_new_def ob_data_def ob_calloc_def ob_unlimitsize_def)



text \<open>C20. Appending bytes refines appending to a bounded list: if the bytes fit (limit and, for
  a static buffer, block size) they are added at the end of the contents, otherwise the
  call reports failure and leaves the buffer untouched.\<close>

theorem ob_append_bytes_spec:
  assumes "ob_inv b"
  shows "\<exists>b'. ob_append_bytes b vs (int (length vs)) =
      Some (if ob_fits b (int (length vs)) then 0 else -1, b') \<and> ob_inv b' \<and>
      (if ob_fits b (int (length vs)) then ob_data b' = ob_data b @ vs else b' = b)"
proof (cases "ob_fits b (int (length vs))")
  case True
  then show ?thesis using ob_append_bytes_fits[OF assms True, of vs] by auto
next
  case False
  then show ?thesis using assms by (simp add: ob_append_bytes_full)
qed

theorem ob_append_bytes_spec_witness:
  "\<exists>b'. ob_append_bytes ob_example [1, 2, 3] 3 = Some (0, b') \<and> ob_data b' = [1, 2, 3]"
  using ob_append_bytes_spec[OF ob_example_inv, of "[1, 2, 3]"] ob_example_fits[of 3]
  by (auto simp: ob_example_data)

text \<open>C35. A packed 32-bit integer reads back as the value that was written, whatever it is,
  and the reader stops at the byte after it.\<close>

theorem packed_ui32_roundtrip:
  assumes "ob_inv b" "ob_fits b (int (length (packed_encode v)))"
  shows "\<exists>b' b''. ob_append_packed_ui32 b v = Some (0, b') \<and> ob_data b' = ob_data b @ packed_encode v \<and>
    ob_get_packed_ui32 (b'\<lparr>position := position b\<rparr>) = Some (v, b'') \<and> ob_unread b'' = ob_unread b'"
proof -
  obtain b' where b': "ob_append_packed_ui32 b v = Some (0, b')" "ob_inv b'"
    "ob_data b' = ob_data b @ packed_encode v"
    using ob_writer32.emit_encodes[OF assms] by blast
  have "unat v < 2 ^ (32 - 0)" using unsigned_less[of v, where ?'a = nat] by simp
  from ob_reader32.read_decodes[OF ob_inv_back[OF assms(1) b'(2,3)] ob_unread_written[OF assms(1) b'(2,3)] this, of 0]
  show ?thesis using b' by (auto simp: ob_get_packed_ui32_def)
qed

theorem packed_ui32_roundtrip_witness:
  "\<exists>b' b''. ob_append_packed_ui32 ob_example 0xFFFFFFFF = Some (0, b') \<and>
    ob_get_packed_ui32 (b'\<lparr>position := position ob_example\<rparr>) = Some (0xFFFFFFFF, b'') \<and>
    ob_unread b'' = ob_unread b'"
  using packed_ui32_roundtrip[OF ob_example_inv ob_example_fits] by blast

text \<open>A packed 64-bit integer below \<open>2^31\<close> reads back as written.\<close>

lemma packed_ui64_roundtrip:
  assumes "ob_inv b" "ob_fits b (int (length (packed_encode v)))" "unat v < 2 ^ 31"
  shows "\<exists>b' b''. ob_append_packed_ui64 b v = Some (0, b') \<and> ob_data b' = ob_data b @ packed_encode v \<and>
    ob_get_packed_ui64 (b'\<lparr>position := position b\<rparr>) = Some (v, b'') \<and> ob_unread b'' = ob_unread b'"
proof -
  obtain b' where b': "ob_append_packed_ui64 b v = Some (0, b')" "ob_inv b'"
    "ob_data b' = ob_data b @ packed_encode v"
    using ob_writer64.emit_encodes[OF assms(1,2)] by blast
  have "unat v < 2 ^ (31 - 0)" using assms(3) by simp
  from ob_reader64.read_decodes[OF ob_inv_back[OF assms(1) b'(2,3)] ob_unread_written[OF assms(1) b'(2,3)] this, of 0]
  show ?thesis using b' by (auto simp: ob_get_packed_ui64_def)
qed

text \<open>Every packed 64-bit integer from \<open>2^35\<close> on is written in six bytes or more, and the
  reader then shifts a 32-bit \<open>int\<close> by 35: undefined behaviour, so such values (the sync
  tokens of \<open>rhizome_sync.c\<close> among them) cannot be read back.\<close>

lemma packed_ui64_overlong:
  assumes "ob_inv b" "ob_fits b (int (length (packed_encode v)))" "2 ^ 35 \<le> unat v"
  shows "\<exists>b'. ob_append_packed_ui64 b v = Some (0, b') \<and>
    ob_get_packed_ui64 (b'\<lparr>position := position b\<rparr>) = None"
proof -
  obtain b' where b': "ob_append_packed_ui64 b v = Some (0, b')" "ob_inv b'"
    "ob_data b' = ob_data b @ packed_encode v"
    using ob_writer64.emit_encodes[OF assms(1,2)] by blast
  from ob_reader64.read_overlong[OF ob_inv_back[OF assms(1) b'(2,3)] ob_unread_written[OF assms(1) b'(2,3)], of 5 0]
  show ?thesis using b' assms(3) by (auto simp: ob_get_packed_ui64_def)
qed

text \<open>The fixed-width 16- and 32-bit integers read back as written, the reader ending where
  the writer did.\<close>

lemma ui16_ui32_roundtrip:
  assumes "ob_inv b" "ob_fits b 4"
  shows "(\<exists>b'. ob_append_ui16 b v = Some (0, b') \<and> ob_get_ui16 (b'\<lparr>position := position b\<rparr>) = Some (v, b')) \<and>
    (\<exists>b'. ob_append_ui32 b w = Some (0, b') \<and> ob_get_ui32 (b'\<lparr>position := position b\<rparr>) = Some (w, b'))"
proof
  have "ob_fits b 2" using ob_fits_mono[OF assms(2), of 2] by simp
  then obtain b' where b': "ob_append_bytes b (be16 v) 2 = Some (0, b')"
    "ob_inv (b'\<lparr>position := position b\<rparr>)" "ob_unread (b'\<lparr>position := position b\<rparr>) = be16 v @ ob_unread b'"
    "position b' = position b + 2"
    using ob_append_roundtrip[OF assms(1), of 2 "be16 v"] by (metis be_lengths(1) of_nat_numeral)
  have "ob_get_ui16 (b'\<lparr>position := position b\<rparr>) = Some (v, b')"
    using ob_get_ui16_next[OF b'(2)] b'(3,4) by (simp add: be16_def be16_value)
  then show "\<exists>b'. ob_append_ui16 b v = Some (0, b') \<and> ob_get_ui16 (b'\<lparr>position := position b\<rparr>) = Some (v, b')"
    using b'(1) by (auto simp: ob_append_ui16_eq)
next
  obtain b' where b': "ob_append_bytes b (be32 w) 4 = Some (0, b')"
    "ob_inv (b'\<lparr>position := position b\<rparr>)" "ob_unread (b'\<lparr>position := position b\<rparr>) = be32 w @ ob_unread b'"
    "position b' = position b + 4"
    using ob_append_roundtrip[OF assms, of "be32 w"] by (metis be_lengths(2) of_nat_numeral)
  have "ob_get_ui32 (b'\<lparr>position := position b\<rparr>) = Some (w, b')"
    using ob_get_ui32_next[OF b'(2)] b'(3,4) by (simp add: be32_def be32_value)
  then show "\<exists>b'. ob_append_ui32 b w = Some (0, b') \<and> ob_get_ui32 (b'\<lparr>position := position b\<rparr>) = Some (w, b')"
    using b'(1) by (auto simp: ob_append_ui32_eq)
qed

text \<open>C36. A 64-bit integer written by \<open>ob_append_ui64\<close> is read back by \<open>ob_get_ui64\<close> exactly
  when its bits 31 to 39 are all clear or its bits 31 to 63 are all set: the reader shifts the
  fourth byte by 36 instead of 32 and sign-extends the fifth.\<close>

theorem ui64_readback_iff:
  assumes "ob_inv b" "ob_fits b 8"
  shows "\<exists>b' r. ob_append_ui64 b v = Some (0, b') \<and>
    ob_get_ui64 (b'\<lparr>position := position b\<rparr>) = Some (r, b') \<and>
    (r = v \<longleftrightarrow> (\<forall>n. 31 \<le> n \<and> n < 40 \<longrightarrow> \<not> bit v n) \<or> (\<forall>n. 31 \<le> n \<and> n < 64 \<longrightarrow> bit v n))"
proof -
  obtain b' where b': "ob_append_bytes b (be64 v) 8 = Some (0, b')"
    "ob_inv (b'\<lparr>position := position b\<rparr>)" "ob_unread (b'\<lparr>position := position b\<rparr>) = be64 v @ ob_unread b'"
    "position b' = position b + 8"
    using ob_append_roundtrip[OF assms, of "be64 v"] by (metis be_lengths(3) of_nat_numeral)
  have "ob_get_ui64 (b'\<lparr>position := position b\<rparr>) = Some (ui64_read v, b')"
    using b'(4) ob_get_ui64_next[OF b'(2,3)] by simp
  then show ?thesis using b'(1) ui64_read_iff[of v] unfolding ob_append_ui64_eq by blast
qed

theorem ui64_readback_iff_witness:
  "\<exists>b' r. ob_append_ui64 ob_example 0x100000000 = Some (0, b') \<and>
    ob_get_ui64 (b'\<lparr>position := position ob_example\<rparr>) = Some (r, b') \<and> r \<noteq> 0x100000000"
proof -
  have "\<not> ((\<forall>n. 31 \<le> n \<and> n < 40 \<longrightarrow> \<not> bit (0x100000000 :: u64) n) \<or>
           (\<forall>n. 31 \<le> n \<and> n < 64 \<longrightarrow> bit (0x100000000 :: u64) n))"
    by (auto intro: exI[of _ 32] exI[of _ 40])
  then show ?thesis
    using ui64_readback_iff[of ob_example "0x100000000"] ob_example_inv ob_example_fits by blast
qed

text \<open>C37. A length field reserved with \<open>ob_append_rfs\<close> and filled in by \<open>ob_patch_rfs\<close> holds
  the number of bytes appended in between, big-endian, and nothing else changes.\<close>

theorem rfs_patched:
  assumes "ob_inv b" "ob_fits b (2 + int (length vs))" "length vs \<le> 0xffff" "0 \<le> l" "l \<le> 0xffff"
  shows "\<exists>b1 b2 b3. ob_append_rfs b l = Some (0, b1) \<and>
    ob_append_bytes b1 vs (int (length vs)) = Some (0, b2) \<and> ob_patch_rfs b2 = Some (0, b3) \<and>
    ob_data b3 = ob_data b @ be16 (word_of_nat (length vs)) @ vs"
proof -
  let ?b0 = "b\<lparr>var_length_offset := position b\<rparr>"
  have inv0: "ob_inv ?b0" using assms(1) by (simp add: ob_inv_rfs)
  have f0: "ob_fits ?b0 2" using ob_fits_mono[OF assms(2), of 2] by (simp add: ob_fits_def ob_growable_def)
  obtain b1 where b1: "ob_append_bytes ?b0 (be16 (word_of_int l)) 2 = Some (0, b1)" "ob_inv b1"
    "ob_data b1 = ob_data ?b0 @ be16 (word_of_int l)" "position b1 = position ?b0 + 2" "ob_frame ?b0 b1"
    using ob_append_bytes_fits[OF inv0 f0, of "be16 (word_of_int l)"] by auto
  have f1: "ob_fits b1 (int (length vs))"
    using ob_frame_fits[OF b1(5,4)] assms(2) by (simp add: ob_fits_def ob_growable_def)
  obtain b2 where b2: "ob_append_bytes b1 vs (int (length vs)) = Some (0, b2)" "ob_inv b2"
    "ob_data b2 = ob_data b1 @ vs" "position b2 = position b1 + int (length vs)" "ob_frame b1 b2"
    using ob_append_bytes_fits[OF b1(2) f1, of vs] by auto
  have vlo: "var_length_offset b2 = position b" using b1(5) b2(5) by (simp add: ob_frame_def)
  have p: "position b = int (length (ob_data b))" using ob_data_length[OF assms(1)] assms(1) by (simp add: ob_inv_def)
  have d: "ob_data b2 = ob_data b @ be16 (word_of_int l) @ vs" using b1(3) b2(3) by (simp add: ob_data_def)
  obtain b3 where "ob_set_ui16 b2 (position b) (word_of_nat (length vs)) = Some (0, b3)"
     "ob_data b3 = ob_data b @ be16 (word_of_nat (length vs)) @ vs"
    using ob_set_ui16_data[OF b2(2) d] unfolding p by auto
  then show ?thesis
    using assms(4,5) b1(1) b2(1,4) b1(4) vlo
    by (auto simp: ob_append_rfs_def ob_append_ui16_eq ob_patch_rfs_def)
qed

theorem rfs_patched_witness:
  "\<exists>b1 b2 b3. ob_append_rfs ob_example 0 = Some (0, b1) \<and>
    ob_append_bytes b1 [7, 8, 9] 3 = Some (0, b2) \<and> ob_patch_rfs b2 = Some (0, b3) \<and>
    ob_data b3 = [0, 3, 7, 8, 9]"
  using rfs_patched[OF ob_example_inv ob_example_fits, of "[7, 8, 9]" 0]
  by (simp add: be16_def ob_example_data)

text \<open>Duplicating a received payload (position 0, limit set to the payload length, as
  \<open>overlay_forward_payload\<close> does) gives a buffer of its own whose contents are exactly the
  payload's bytes.\<close>

lemma ob_dup_payload:
  assumes "ob_inv b" "position b = 0" "checkpointLength b = 0" "0 \<le> sizeLimit b"
    "sizeLimit b \<le> allocSize b"
  shows "\<exists>c. ob_dup b = Some c \<and> ob_inv c \<and> ob_data c = ob_unread b \<and> sizeLimit c = sizeLimit b"
proof -
  let ?ret = "(ob_calloc (fill b))\<lparr>sizeLimit := sizeLimit b, position := position b, checkpointLength := checkpointLength b\<rparr>"
  have ret: "ob_inv ?ret" "ob_fits ?ret (sizeLimit b)" "ob_data ?ret = []"
    using assms by (auto simp: ob_inv_def ob_calloc_def ob_mem_def ob_fits_def ob_growable_def ob_data_def)
  have len: "sizeLimit b \<le> int (length (ob_mem b))" using ob_mem_length[OF assms(1)] assms(5) by simp
  have un: "ob_unread b = take (nat (sizeLimit b)) (ob_mem b)"
    using assms(2,4,5) by (simp add: ob_unread_def min_def)
  show ?thesis
  proof (cases "bytes b = None \<or> allocSize b = 0")
    case True
    then have "ob_unread b = []" using assms(4,5) un by (auto simp: ob_mem_def)
    moreover have "ob_dup b = Some ?ret" using True by (auto simp: ob_dup_def Let_def split: option.splits)
    ultimately show ?thesis using ret by simp
  next
    case False
    then obtain bs where bs: "bytes b = Some bs" "ob_mem b = bs" by (auto simp: ob_mem_def)
    obtain c where c: "ob_append_bytes ?ret bs (sizeLimit b) = Some (0, c)" "ob_inv c"
      "ob_data c = ob_data ?ret @ take (nat (sizeLimit b)) bs" "ob_frame ?ret c"
      using ob_append_bytes_fits[OF ret(1,2) assms(4), of bs] len bs(2) by auto
    have "ob_dup b = Some c"
      using False bs(1) c(1) assms(2,4,5) by (auto simp: ob_dup_def Let_def)
    then show ?thesis using c(2-4) un bs(2) ret(3) by (auto simp: ob_frame_def)
  qed
qed

text \<open>Duplicating a buffer that is being written without a limit always faults: the copy
  takes over the position before it owns any memory, and the append then copies that many
  bytes from a NULL pointer.\<close>

lemma ob_dup_unlimited_faults:
  assumes "ob_inv b" "0 < position b" "sizeLimit b = -1"
  shows "ob_dup b = None"
  using assms
  by (auto simp: ob_dup_def ob_inv_def ob_mem_def ob_append_bytes_def ob_makespace_def c_getn_def Let_def ob_calloc_def split: option.splits)

end
