(* ===== verification/Rotbuf.thy ===== *)
theory Rotbuf
  imports Serval_Prelude
begin

text \<open>
  The rotated buffer of \<open>rotbuf.h\<close> and \<open>rotbuf.c\<close>: a cursor over a memory region whose
  first byte lies at an offset and whose contents wrap around. Pointers are offsets into one
  memory object \<open>mem\<close>; only dereferencing them can fault, the arithmetic on them is that
  of integers. The wrap counter keeps the 32 bits of C's \<open>unsigned int\<close>.
\<close>

record rotbuf =
  buf :: int
  ebuf :: int
  start :: int
  cursor :: int
  wrap :: u32

subsection \<open>Operations\<close>

text \<open>A remainder by 0 is a fault.\<close>

definition rotbuf_init :: "int \<Rightarrow> int \<Rightarrow> int \<Rightarrow> rotbuf option" where
  "rotbuf_init b sz rot =
     (if sz = 0 then None else
      (let st = b + (if rot < 0 then sz - 1 - (-1 - rot) mod sz else rot mod sz)
       in Some \<lparr>buf = b, ebuf = b + sz, start = st, cursor = st, wrap = 0\<rparr>))"

definition rotbuf_reset :: "rotbuf \<Rightarrow> rotbuf" where
  "rotbuf_reset rb = rb\<lparr>cursor := start rb, wrap := 0\<rparr>"

definition rotbuf_position :: "rotbuf \<Rightarrow> int" where
  "rotbuf_position rb =
     (if wrap rb \<noteq> 0 then ebuf rb - buf rb
      else if cursor rb \<ge> start rb then cursor rb - start rb
      else (cursor rb - buf rb) + (ebuf rb - start rb))"

definition rotbuf_remain :: "rotbuf \<Rightarrow> int" where
  "rotbuf_remain rb =
     (if wrap rb \<noteq> 0 then 0
      else if cursor rb < start rb then start rb - cursor rb
      else (ebuf rb - cursor rb) + (start rb - buf rb))"

definition rotbuf_count :: "rotbuf \<Rightarrow> int" where
  "rotbuf_count rb =
     (if wrap rb \<noteq> 0 then (ebuf rb - buf rb) + uint (wrap rb) - 1 else rotbuf_position rb)"

definition rotbuf_advance :: "rotbuf \<Rightarrow> int \<Rightarrow> rotbuf" where
  "rotbuf_advance rb len =
     (if wrap rb \<noteq> 0 then rb\<lparr>wrap := wrap rb + word_of_int len\<rparr>
      else if len \<noteq> 0 then
        (if cursor rb \<ge> start rb then
           (let rb = rb\<lparr>cursor := cursor rb + len\<rparr> in
            if cursor rb \<ge> ebuf rb then
              (let rb = rb\<lparr>cursor := cursor rb - (ebuf rb - buf rb)\<rparr> in
               if cursor rb \<ge> start rb
               then rb\<lparr>wrap := word_of_int (1 + (cursor rb - start rb)), cursor := start rb\<rparr>
               else rb)
            else rb)
         else
           (let rb = rb\<lparr>cursor := cursor rb + len\<rparr> in
            if cursor rb \<ge> start rb
            then rb\<lparr>wrap := word_of_int (1 + (cursor rb - start rb)), cursor := start rb\<rparr>
            else rb))
      else rb)"

text \<open>The step shared by \<open>rotbuf_getc\<close> and \<open>rotbuf_putc\<close> after the access at \<open>*cursor++\<close>.\<close>

definition rotbuf_bump :: "rotbuf \<Rightarrow> rotbuf" where
  "rotbuf_bump rb =
     (let rb = rb\<lparr>cursor := cursor rb + 1\<rparr>;
          rb = (if cursor rb = ebuf rb then rb\<lparr>cursor := buf rb\<rparr> else rb)
      in if cursor rb = start rb then rb\<lparr>wrap := 1\<rparr> else rb)"

definition rotbuf_getc :: "byte list \<Rightarrow> rotbuf \<Rightarrow> (int \<times> rotbuf) option" where
  "rotbuf_getc mem rb =
     (if wrap rb \<noteq> 0 then Some (-1, rb\<lparr>wrap := wrap rb + 1\<rparr>)
      else do {
        c \<leftarrow> c_get mem (cursor rb);
        Some (uint c, rotbuf_bump rb)
      })"

fun rotbuf_getbuf :: "byte list \<Rightarrow> rotbuf \<Rightarrow> nat \<Rightarrow> (byte list \<times> rotbuf) option" where
  "rotbuf_getbuf mem rb 0 = Some ([], rb)"
| "rotbuf_getbuf mem rb (Suc len) = do {
     (c, rb) \<leftarrow> rotbuf_getc mem rb;
     (data, rb) \<leftarrow> rotbuf_getbuf mem rb len;
     Some (word_of_int c # data, rb)
   }"

definition rotbuf_putc :: "byte list \<Rightarrow> rotbuf \<Rightarrow> byte \<Rightarrow> (byte list \<times> rotbuf) option" where
  "rotbuf_putc mem rb c =
     (if wrap rb \<noteq> 0 then Some (mem, rb\<lparr>wrap := wrap rb + 1\<rparr>)
      else do {
        mem \<leftarrow> c_put mem (cursor rb) c;
        Some (mem, rotbuf_bump rb)
      })"

fun rotbuf_putbuf :: "byte list \<Rightarrow> rotbuf \<Rightarrow> byte list \<Rightarrow> (byte list \<times> rotbuf) option" where
  "rotbuf_putbuf mem rb [] = Some (mem, rb)"
| "rotbuf_putbuf mem rb (c # data) = do {
     (mem, rb) \<leftarrow> rotbuf_putc mem rb c;
     rotbuf_putbuf mem rb data
   }"

text \<open>A failed \<open>assert\<close> aborts the program: \<open>None\<close>.\<close>

definition rotbuf_delta :: "rotbuf \<Rightarrow> rotbuf \<Rightarrow> int option" where
  "rotbuf_delta origin dest =
     (if buf origin = buf dest \<and> ebuf origin = ebuf dest \<and> start origin = start dest then
        (let org = (if cursor origin < start origin
                    then cursor origin + (ebuf origin - buf origin) else cursor origin);
             dst = (if cursor dest < start dest
                    then cursor dest + (ebuf dest - buf dest) else cursor dest)
         in if org \<ge> start origin \<and> dst \<ge> start dest then Some (dst - org) else None)
      else None)"

text \<open>The result is the chunk (offset and length), or \<open>None\<close> where the C code returns 0.\<close>

definition rotbuf_next_chunk :: "rotbuf \<Rightarrow> (int \<times> int) option \<times> rotbuf" where
  "rotbuf_next_chunk rb =
     (if wrap rb \<noteq> 0 then (None, rb)
      else if cursor rb \<ge> start rb then
        (let chunk = (cursor rb, ebuf rb - cursor rb);
             rb = rb\<lparr>cursor := buf rb\<rparr>
         in (Some chunk, if cursor rb = start rb then rb\<lparr>wrap := wrap rb + 1\<rparr> else rb))
      else (Some (cursor rb, start rb - cursor rb),
            rb\<lparr>cursor := start rb, wrap := wrap rb + 1\<rparr>))"

text \<open>The loop a caller of \<open>rotbuf_next_chunk\<close> writes: collect the chunks until it
  returns 0.\<close>

fun rotbuf_chunks :: "nat \<Rightarrow> byte list \<Rightarrow> rotbuf \<Rightarrow> byte list option" where
  "rotbuf_chunks 0 mem rb = None"
| "rotbuf_chunks (Suc fuel) mem rb =
     (case rotbuf_next_chunk rb of
        (None, rb) \<Rightarrow> Some []
      | (Some (p, n), rb) \<Rightarrow> do {
          vs \<leftarrow> c_getn mem p n;
          rest \<leftarrow> rotbuf_chunks fuel mem rb;
          Some (vs @ rest)
        })"

subsection \<open>Invariant and abstract view\<close>

definition rb_size :: "rotbuf \<Rightarrow> int" where
  "rb_size rb = ebuf rb - buf rb"

definition rb_inv :: "byte list \<Rightarrow> rotbuf \<Rightarrow> bool" where
  "rb_inv mem rb \<longleftrightarrow>
     0 \<le> buf rb \<and> ebuf rb \<le> int (length mem) \<and> buf rb \<le> start rb \<and> start rb < ebuf rb \<and>
     buf rb \<le> cursor rb \<and> cursor rb < ebuf rb \<and> (wrap rb \<noteq> 0 \<longrightarrow> cursor rb = start rb)"

text \<open>The offset of logical byte \<open>i\<close>, and the contents in logical order.\<close>

definition rb_addr :: "rotbuf \<Rightarrow> int \<Rightarrow> int" where
  "rb_addr rb i = (if start rb + i < ebuf rb then start rb + i else start rb + i - rb_size rb)"

definition rb_view :: "byte list \<Rightarrow> rotbuf \<Rightarrow> byte list" where
  "rb_view mem rb = map (\<lambda>i. mem ! nat (rb_addr rb (int i))) [0..<nat (rb_size rb)]"

text \<open>The cursor state after \<open>c\<close> bytes have been read or written (attempts past the end
  included): what every operation is measured against.\<close>

definition rb_at :: "rotbuf \<Rightarrow> int \<Rightarrow> rotbuf" where
  "rb_at rb c =
     (if c < rb_size rb then rb\<lparr>cursor := rb_addr rb c, wrap := 0\<rparr>
      else rb\<lparr>cursor := start rb, wrap := word_of_int (c - rb_size rb + 1)\<rparr>)"

definition rb_max :: "rotbuf \<Rightarrow> int" where
  "rb_max rb = rb_size rb + 2 ^ 32 - 2"

text \<open>A three-byte region in a five-byte object, rotated by one.\<close>

definition rb_example :: rotbuf where
  "rb_example = \<lparr>buf = 1, ebuf = 4, start = 2, cursor = 2, wrap = 0\<rparr>"

subsection \<open>Every operation moves along the abstract count\<close>

lemmas rb_simps = rb_inv_def rb_addr_def rb_size_def rb_at_def

lemma rb_at_fields [simp]:
  "buf (rb_at rb c) = buf rb" "ebuf (rb_at rb c) = ebuf rb" "start (rb_at rb c) = start rb"
  "rb_size (rb_at rb c) = rb_size rb" "rb_addr (rb_at rb c) = rb_addr rb"
  "rb_at (rb_at rb c) d = rb_at rb d" "rb_max (rb_at rb c) = rb_max rb"
  by (auto simp: rb_at_def rb_size_def rb_addr_def rb_max_def fun_eq_iff)

lemma rb_view_at [simp]: "rb_view mem (rb_at rb c) = rb_view mem rb"
  by (simp add: rb_view_def)

lemma rb_view_length [simp]: "length (rb_view mem rb) = nat (rb_size rb)"
  by (simp add: rb_view_def)

lemma rb_view_nth: "i < nat (rb_size rb) \<Longrightarrow> rb_view mem rb ! i = mem ! nat (rb_addr rb (int i))"
  by (simp add: rb_view_def)

lemma rb_inv_at: "rb_inv mem rb \<Longrightarrow> 0 \<le> c \<Longrightarrow> rb_inv mem (rb_at rb c)"
  by (auto simp: rb_simps)

lemma rb_size_pos: "rb_inv mem rb \<Longrightarrow> 0 < rb_size rb"
  by (simp add: rb_simps)

lemma uint_wrap_at: "\<not> c < rb_size rb \<Longrightarrow> c \<le> rb_max rb \<Longrightarrow> uint (wrap (rb_at rb c)) = c - rb_size rb + 1"
proof -
  assume a: "\<not> c < rb_size rb" "c \<le> rb_max rb"
  then have "wrap (rb_at rb c) = word_of_int (c - rb_size rb + 1)"
    unfolding rb_at_def by (auto simp del: of_int_add of_int_diff)
  then show ?thesis using uint_u32[of "c - rb_size rb + 1"] a by (simp only: rb_max_def)
qed

lemma wrap_at_zero:
  assumes "rb_inv mem rb" "0 \<le> c" "c \<le> rb_max rb"
  shows "wrap (rb_at rb c) = 0 \<longleftrightarrow> c < rb_size rb"
proof (cases "c < rb_size rb")
  case True
  then show ?thesis by (simp add: rb_at_def)
next
  case False
  then show ?thesis using uint_wrap_at[OF False assms(3)] by (metis uint_0_iff add.commute diff_ge_0_iff_ge linorder_not_less zle_add1_eq_le order_less_irrefl)
qed

text \<open>Every cursor state is the state after \<open>rotbuf_count\<close> bytes.\<close>

lemma rb_at_count: "rb_inv mem rb \<Longrightarrow> rb_at rb (rotbuf_count rb) = rb"
proof -
  assume a: "rb_inv mem rb"
  show ?thesis
  proof (cases "wrap rb = 0")
    case True
    then show ?thesis using a
      by (auto simp: rb_simps rotbuf_count_def rotbuf_position_def intro!: rotbuf.equality)
  next
    case False
    then have "0 < uint (wrap rb)" by (metis uint_0_iff uint_ge_0 order_le_less)
    then show ?thesis using a False
      by (auto simp: rb_simps rotbuf_count_def intro!: rotbuf.equality)
  qed
qed

lemma rotbuf_count_range: "rb_inv mem rb \<Longrightarrow> 0 \<le> rotbuf_count rb \<and> rotbuf_count rb \<le> rb_max rb"
proof -
  assume a: "rb_inv mem rb"
  have "uint (wrap rb) < 2 ^ 32" using unsigned_less[of "wrap rb"] by simp
  moreover have "wrap rb \<noteq> 0 \<Longrightarrow> 0 < uint (wrap rb)" by (metis uint_0_iff uint_ge_0 order_le_less)
  ultimately show ?thesis using a
    by (auto simp: rb_simps rotbuf_count_def rotbuf_position_def rb_max_def)
qed

lemma rotbuf_count_at:
  assumes "rb_inv mem rb" "0 \<le> c" "c \<le> rb_max rb"
  shows "rotbuf_count (rb_at rb c) = c"
proof (cases "c < rb_size rb")
  case True
  then show ?thesis using assms by (auto simp: rb_simps rotbuf_count_def rotbuf_position_def)
next
  case False
  then have "wrap (rb_at rb c) \<noteq> 0" using wrap_at_zero[OF assms] by simp
  then show ?thesis using False uint_wrap_at[of c rb] assms
    by (simp add: rotbuf_count_def) (simp add: rb_size_def)
qed

lemma rotbuf_position_at:
  assumes "rb_inv mem rb" "0 \<le> c" "c \<le> rb_max rb"
  shows "rotbuf_position (rb_at rb c) = min c (rb_size rb)"
    and "rotbuf_remain (rb_at rb c) = rb_size rb - min c (rb_size rb)"
  using assms wrap_at_zero[OF assms]
  by (auto simp: rotbuf_position_def rotbuf_remain_def rb_at_def rb_addr_def)
    (auto simp: rb_simps)

lemma rotbuf_advance_at:
  assumes "rb_inv mem rb" "0 \<le> c" "c \<le> rb_max rb" "0 \<le> n"
  shows "rotbuf_advance (rb_at rb c) n = rb_at rb (c + n)"
proof (cases "c < rb_size rb")
  case True
  then show ?thesis using assms
    by (auto simp: rotbuf_advance_def rb_simps Let_def algebra_simps intro!: rotbuf.equality)
next
  case False
  then have "wrap (rb_at rb c) \<noteq> 0" using wrap_at_zero[OF assms(1-3)] by simp
  then have "rotbuf_advance (rb_at rb c) n = (rb_at rb c)\<lparr>wrap := wrap (rb_at rb c) + word_of_int n\<rparr>"
    by (simp add: rotbuf_advance_def)
  also have "\<dots> = rb_at rb (c + n)"
    using False assms(4) by (simp add: rb_at_def algebra_simps)
  finally show ?thesis .
qed

lemma rotbuf_bump_at:
  assumes "rb_inv mem rb" "0 \<le> c" "c < rb_size rb"
  shows "rotbuf_bump (rb_at rb c) = rb_at rb (c + 1)"
proof (cases "c + 1 = rb_size rb")
  case True
  then have "rb_at rb (c + 1) = rb\<lparr>cursor := start rb, wrap := 1\<rparr>" by (simp add: rb_at_def)
  moreover have "cursor (rb_at rb c) + 1 = start rb \<or> (cursor (rb_at rb c) + 1 = ebuf rb \<and> buf rb = start rb)"
    using True assms by (auto simp: rb_simps)
  ultimately show ?thesis using assms
    by (auto simp: rotbuf_bump_def rb_simps Let_def intro!: rotbuf.equality)
next
  case False
  then show ?thesis using assms by (auto simp: rotbuf_bump_def rb_simps Let_def intro!: rotbuf.equality)
qed

lemma rb_addr_range: "rb_inv mem rb \<Longrightarrow> 0 \<le> c \<Longrightarrow> c < rb_size rb \<Longrightarrow>
  0 \<le> rb_addr rb c \<and> rb_addr rb c < int (length mem)"
  by (auto simp: rb_simps)

lemma rotbuf_getc_at:
  assumes "rb_inv mem rb" "0 \<le> c" "c \<le> rb_max rb"
  shows "rotbuf_getc mem (rb_at rb c) =
    Some (if c < rb_size rb then uint (rb_view mem rb ! nat c) else -1, rb_at rb (c + 1))"
proof (cases "c < rb_size rb")
  case True
  then have "cursor (rb_at rb c) = rb_addr rb c" "wrap (rb_at rb c) = 0" by (simp_all add: rb_at_def)
  moreover have "rb_view mem rb ! nat c = mem ! nat (rb_addr rb c)"
    using True assms(2) rb_view_nth[of "nat c" rb mem] by simp
  ultimately show ?thesis
    using True rb_addr_range[OF assms(1,2)] rotbuf_bump_at[OF assms(1,2)]
    by (simp add: rotbuf_getc_def c_mem)
next
  case False
  then show ?thesis
    using wrap_at_zero[OF assms] rotbuf_advance_at[OF assms, of 1]
    by (simp add: rotbuf_getc_def rotbuf_advance_def)
qed

lemma rb_addr_inj:
  "rb_inv mem rb \<Longrightarrow> 0 \<le> i \<Longrightarrow> i < rb_size rb \<Longrightarrow> 0 \<le> j \<Longrightarrow> j < rb_size rb \<Longrightarrow>
   rb_addr rb i = rb_addr rb j \<longleftrightarrow> i = j"
  by (auto simp: rb_simps)

lemma rb_view_put:
  assumes "rb_inv mem rb" "0 \<le> c" "c < rb_size rb"
  shows "rb_view (mem[nat (rb_addr rb c) := v]) rb = (rb_view mem rb)[nat c := v]"
proof (rule nth_equalityI)
  fix i assume "i < length (rb_view (mem[nat (rb_addr rb c) := v]) rb)"
  then have i: "i < nat (rb_size rb)" by simp
  then show "rb_view (mem[nat (rb_addr rb c) := v]) rb ! i = (rb_view mem rb)[nat c := v] ! i"
    using rb_addr_inj[OF assms(1), of "int i" c] rb_addr_range[OF assms(1), of "int i"]
      rb_addr_range[OF assms] assms
    by (cases "i = nat c") (auto simp: rb_view_nth nth_list_update eq_nat_nat_iff)
qed simp

lemma rotbuf_putc_at:
  assumes "rb_inv mem rb" "0 \<le> c" "c \<le> rb_max rb"
  shows "\<exists>mem'. rotbuf_putc mem (rb_at rb c) v = Some (mem', rb_at rb (c + 1)) \<and>
    length mem' = length mem \<and> rb_view mem' rb = (rb_view mem rb)[nat c := v]"
proof (cases "c < rb_size rb")
  case True
  then have "cursor (rb_at rb c) = rb_addr rb c" "wrap (rb_at rb c) = 0" by (simp_all add: rb_at_def)
  then show ?thesis
    using True rb_addr_range[OF assms(1,2)] rotbuf_bump_at[OF assms(1,2)] rb_view_put[OF assms(1,2)]
    by (simp add: rotbuf_putc_def c_mem)
next
  case False
  then show ?thesis
    using wrap_at_zero[OF assms] rotbuf_advance_at[OF assms, of 1]
    by (simp add: rotbuf_putc_def rotbuf_advance_def list_update_beyond)
qed

lemma rb_inv_length: "length mem' = length mem \<Longrightarrow> rb_inv mem' rb = rb_inv mem rb"
  by (simp add: rb_inv_def)

lemma rotbuf_getbuf_at:
  assumes "rb_inv mem rb" "0 \<le> c" "c + int n \<le> rb_max rb + 1"
  shows "rotbuf_getbuf mem (rb_at rb c) n =
    Some (take n (drop (nat c) (rb_view mem rb) @ replicate n 0xFF), rb_at rb (c + int n))"
  using assms
proof (induction n arbitrary: c)
  case (Suc n)
  have c: "c \<le> rb_max rb" using Suc.prems by simp
  have IH: "rotbuf_getbuf mem (rb_at rb (c + 1)) n =
    Some (take n (drop (nat (c + 1)) (rb_view mem rb) @ replicate n 0xFF), rb_at rb (c + int (Suc n)))"
    using Suc.IH[of "c + 1"] Suc.prems by (simp add: add.assoc)
  show ?case
  proof (cases "c < rb_size rb")
    case True
    then have "drop (nat c) (rb_view mem rb) = rb_view mem rb ! nat c # drop (nat (c + 1)) (rb_view mem rb)"
      using Suc.prems(2) by (simp add: Cons_nth_drop_Suc nat_add_distrib)
    then show ?thesis using True IH rotbuf_getc_at[OF Suc.prems(1,2) c] by (simp flip: replicate_append_same)
  next
    case False
    then show ?thesis using IH rotbuf_getc_at[OF Suc.prems(1,2) c] Suc.prems(2) by simp
  qed
qed simp

lemma rotbuf_putbuf_at:
  assumes "rb_inv mem rb" "0 \<le> c" "c + int (length vs) \<le> rb_max rb + 1"
  shows "\<exists>mem'. rotbuf_putbuf mem (rb_at rb c) vs = Some (mem', rb_at rb (c + int (length vs))) \<and>
    length mem' = length mem \<and> rb_view mem' rb = put_at (rb_view mem rb) (nat c) vs"
  using assms
proof (induction vs arbitrary: c mem)
  case (Cons v vs)
  have c: "c \<le> rb_max rb" using Cons.prems by simp
  then obtain mem1 where m: "rotbuf_putc mem (rb_at rb c) v = Some (mem1, rb_at rb (c + 1))"
    "length mem1 = length mem" "rb_view mem1 rb = (rb_view mem rb)[nat c := v]"
    using rotbuf_putc_at[OF Cons.prems(1,2)] by blast
  have "rb_inv mem1 rb" using rb_inv_length[OF m(2)] Cons.prems(1) by blast
  from Cons.IH[OF this, of "c + 1"] Cons.prems
  obtain mem2 where "rotbuf_putbuf mem1 (rb_at rb (c + 1)) vs = Some (mem2, rb_at rb (c + 1 + int (length vs)))"
    "length mem2 = length mem1" "rb_view mem2 rb = put_at (rb_view mem1 rb) (nat (c + 1)) vs" by auto
  then show ?case using m Cons.prems(2)
    by (simp add: put_at_Cons[symmetric] nat_add_distrib add.assoc)
qed (simp add: put_at_def)

lemma rotbuf_reset_at: "rb_inv mem rb \<Longrightarrow> rotbuf_reset rb = rb_at rb 0"
  using rb_size_pos[of mem rb]
  by (auto simp: rotbuf_reset_def rb_simps intro!: rotbuf.equality)

lemma rotbuf_init_at:
  assumes "0 \<le> b" "0 < sz" "b + sz \<le> int (length mem)"
  obtains rb where "rotbuf_init b sz rot = Some rb" "rb_inv mem rb" "rb = rb_at rb 0"
    "rb_size rb = sz" "start rb = b + rot mod sz"
proof -
  have r: "(if rot < 0 then sz - 1 - (-1 - rot) mod sz else rot mod sz) = rot mod sz"
  proof (cases "rot < 0")
    case True
    have "(-1 - rot) mod sz = (sz + (-1 - rot mod sz)) mod sz"
      by (simp only: mod_add_self1 mod_diff_right_eq)
    also have "\<dots> = sz - 1 - rot mod sz"
      using mod_pos_pos_trivial[of "sz + (-1 - rot mod sz)" sz] assms(2)
        pos_mod_bound[of sz rot] pos_mod_sign[of sz rot] by linarith
    finally have "(-1 - rot) mod sz = sz - 1 - rot mod sz" .
    then show ?thesis using True by simp
  qed simp
  let ?rb = "\<lparr>buf = b, ebuf = b + sz, start = b + rot mod sz, cursor = b + rot mod sz, wrap = 0\<rparr>"
  have "rotbuf_init b sz rot = Some ?rb" using assms(2) unfolding rotbuf_init_def r by (simp add: Let_def)
  moreover have "0 \<le> rot mod sz" "rot mod sz < sz" using assms(2) by simp_all
  then have "rb_inv mem ?rb" "?rb = rb_at ?rb 0" using assms by (auto simp: rb_simps)
  ultimately show thesis using that[of ?rb] by (simp add: rb_size_def)
qed

text \<open>One chunk reaches either the end of the region or the end of the contents.\<close>

lemma rotbuf_next_chunk_at:
  assumes "rb_inv mem rb" "0 \<le> c" "c < rb_size rb"
  shows "rotbuf_next_chunk (rb_at rb c) =
    (let n = (if start rb + c < ebuf rb then ebuf rb - (start rb + c) else rb_size rb - c)
     in (Some (rb_addr rb c, n), rb_at rb (c + n)))"
proof -
  have "word_of_int (rb_size rb - rb_size rb + 1) = (1 :: u32)" by simp
  then show ?thesis using assms
    by (auto simp: rotbuf_next_chunk_def rb_simps Let_def intro!: rotbuf.equality)
qed

lemma rb_view_chunk:
  assumes "rb_inv mem rb" "0 \<le> c" "c < rb_size rb"
    and "n = (if start rb + c < ebuf rb then ebuf rb - (start rb + c) else rb_size rb - c)"
  shows "c_getn mem (rb_addr rb c) n = Some (take (nat n) (drop (nat c) (rb_view mem rb)))"
    and "0 < n" "c + n \<le> rb_size rb"
proof -
  show n: "0 < n" "c + n \<le> rb_size rb" using assms by (auto simp: rb_simps)
  have r: "rb_addr rb c + n \<le> int (length mem)" "0 \<le> rb_addr rb c" using assms by (auto simp: rb_simps)
  have s: "rb_addr rb (c + int i) = rb_addr rb c + int i" if "i < nat n" for i
    using that assms by (auto simp: rb_simps)
  have "take (nat n) (drop (nat (rb_addr rb c)) mem) = take (nat n) (drop (nat c) (rb_view mem rb))"
  proof (rule nth_equalityI)
    show "length (take (nat n) (drop (nat (rb_addr rb c)) mem)) = length (take (nat n) (drop (nat c) (rb_view mem rb)))"
      using n r assms(2) by (simp add: min_def) linarith
    fix i assume "i < length (take (nat n) (drop (nat (rb_addr rb c)) mem))"
    then have i: "i < nat n" by simp
    then have "nat c + i < nat (rb_size rb)" using n(2) assms(2) by linarith
    then show "take (nat n) (drop (nat (rb_addr rb c)) mem) ! i = take (nat n) (drop (nat c) (rb_view mem rb)) ! i"
      using i s[OF i] r assms(2) by (simp add: rb_view_nth nat_add_distrib)
  qed
  then show "c_getn mem (rb_addr rb c) n = Some (take (nat n) (drop (nat c) (rb_view mem rb)))"
    using r n by (simp add: c_mem)
qed

lemma rotbuf_chunks_at:
  assumes "rb_inv mem rb" "0 \<le> c" "c \<le> rb_size rb" "rb_max rb \<ge> c"
    "(if c = rb_size rb then 1 else if start rb + c < ebuf rb then 3 else 2) \<le> fuel"
  shows "rotbuf_chunks fuel mem (rb_at rb c) = Some (drop (nat c) (rb_view mem rb))"
  using assms
proof (induction fuel arbitrary: c)
  case (Suc fuel)
  show ?case
  proof (cases "c < rb_size rb")
    case True
    define n where "n = (if start rb + c < ebuf rb then ebuf rb - (start rb + c) else rb_size rb - c)"
    note ch = rb_view_chunk[OF Suc.prems(1,2) True n_def]
    have "rotbuf_chunks fuel mem (rb_at rb (c + n)) = Some (drop (nat (c + n)) (rb_view mem rb))"
      by (rule Suc.IH) (use Suc.prems ch(2,3) True in \<open>auto simp: n_def rb_max_def split: if_splits\<close>)
    moreover have "nat (c + n) = nat n + nat c" using ch(2) Suc.prems(2) by simp
    ultimately show ?thesis using rotbuf_next_chunk_at[OF Suc.prems(1,2) True] ch(1)
      by (simp add: n_def[symmetric] Let_def) (metis append_take_drop_id drop_drop)
  next
    case False
    then have "wrap (rb_at rb c) \<noteq> 0" using wrap_at_zero[OF Suc.prems(1,2,4)] by simp
    then show ?thesis using False by (simp add: rotbuf_next_chunk_def)
  qed
qed (auto split: if_splits)

lemma rotbuf_delta_at:
  assumes "rb_inv mem rb" "0 \<le> c" "c \<le> rb_max rb" "0 \<le> d" "d \<le> rb_max rb"
  shows "rotbuf_delta (rb_at rb c) (rb_at rb d) =
    Some ((if d < rb_size rb then d else 0) - (if c < rb_size rb then c else 0))"
proof -
  have p: "cursor (rb_at rb i) = rb_addr rb (if i < rb_size rb then i else 0)" for i
    using assms(1) by (auto simp: rb_simps)
  have q: "(if rb_addr rb k < start rb then rb_addr rb k + (ebuf rb - buf rb) else rb_addr rb k) = start rb + k"
    if "0 \<le> k" "k < rb_size rb" for k
    using that assms(1) by (auto simp: rb_simps)
  show ?thesis
    unfolding rotbuf_delta_def rb_at_fields p
    using assms(2,4) rb_size_pos[OF assms(1)] by (subst (1 2) q) (auto simp: Let_def)
qed

lemma rb_example_inv: "rb_inv [9, 9, 9, 9, 9] rb_example"
  by (simp add: rb_example_def rb_inv_def)

subsection \<open>Properties\<close>

text \<open>C27. Writing \<open>vs\<close> from the start of a rotated buffer and reading them back gives
  \<open>vs\<close>, wherever the start lies; of more bytes than the buffer holds the first ones are
  kept, the rest reads as EOF (0xFF as a byte), and the cursor counts all of them, up to the
  32 bits of the wrap counter. No access leaves the region.\<close>

theorem rotbuf_roundtrip:
  assumes "rb_inv mem rb" "int (length vs) \<le> rb_max rb"
  shows "\<exists>mem' rb'. rotbuf_putbuf mem (rotbuf_reset rb) vs = Some (mem', rb') \<and>
    rb_inv mem' rb' \<and> rotbuf_count rb' = int (length vs) \<and>
    rotbuf_getbuf mem' (rotbuf_reset rb') (length vs) =
      Some (take (nat (rb_size rb)) vs @ replicate (length vs - nat (rb_size rb)) 0xFF, rb')"
proof -
  let ?n = "length vs"
  obtain mem' where m: "rotbuf_putbuf mem (rb_at rb 0) vs = Some (mem', rb_at rb (int ?n))"
    "length mem' = length mem" "rb_view mem' rb = put_at (rb_view mem rb) 0 vs"
    using rotbuf_putbuf_at[OF assms(1), of 0 vs] assms(2) by auto
  have inv: "rb_inv mem' rb" using rb_inv_length[OF m(2)] assms(1) by blast
  have g: "rotbuf_getbuf mem' (rb_at rb 0) ?n =
      Some (take ?n (rb_view mem' rb @ replicate ?n 0xFF), rb_at rb (int ?n))"
    using rotbuf_getbuf_at[OF inv, of 0 ?n] assms(2) by simp
  have "take ?n (rb_view mem' rb @ replicate ?n 0xFF) =
      take (nat (rb_size rb)) vs @ replicate (?n - nat (rb_size rb)) 0xFF"
    unfolding m(3) by (auto simp: put_at_def min_def)
  then show ?thesis
    using m(1) g rb_inv_at[OF inv] rotbuf_count_at[OF inv, of "int ?n"] assms(2)
      rotbuf_reset_at[OF assms(1)] rotbuf_reset_at[OF rb_inv_at[OF inv, of "int ?n"]]
    by auto
qed

theorem rotbuf_roundtrip_witness:
  "\<exists>mem' rb'. rotbuf_putbuf [9, 9, 9, 9, 9] (rotbuf_reset rb_example) [5, 6, 7, 8] = Some (mem', rb') \<and>
    rotbuf_getbuf mem' (rotbuf_reset rb') 4 = Some ([5, 6, 7, 0xFF], rb')"
  using rotbuf_roundtrip[OF rb_example_inv, of "[5, 6, 7, 8]"]
  by (auto simp: rb_max_def rb_size_def rb_example_def eval_nat_numeral simp del: rotbuf_getbuf.simps rotbuf_putbuf.simps)

text \<open>C28. \<open>rotbuf_advance\<close>, which moves the cursor by any distance at once, reaches the
  state that reading the bytes one at a time reaches, and the count grows by that distance:
  the invariants the header file documents.\<close>

theorem rotbuf_advance_getbuf:
  assumes "rb_inv mem rb" "rotbuf_count rb + int n \<le> rb_max rb"
  shows "map_option snd (rotbuf_getbuf mem rb n) = Some (rotbuf_advance rb (int n)) \<and>
    rotbuf_count (rotbuf_advance rb (int n)) = rotbuf_count rb + int n \<and>
    rotbuf_position (rotbuf_advance rb (int n)) = min (rb_size rb) (rotbuf_count rb + int n) \<and>
    rotbuf_remain (rotbuf_advance rb (int n)) = rb_size rb - rotbuf_position (rotbuf_advance rb (int n))"
proof (intro conjI)
  define c where "c = rotbuf_count rb"
  have c: "0 \<le> c" "c \<le> rb_max rb" and at: "rb_at rb c = rb"
    using rotbuf_count_range[OF assms(1)] rb_at_count[OF assms(1)] by (simp_all add: c_def)
  note adv = rotbuf_advance_at[OF assms(1) c, of "int n", unfolded at]
  show "map_option snd (rotbuf_getbuf mem rb n) = Some (rotbuf_advance rb (int n))"
    using rotbuf_getbuf_at[OF assms(1) c(1), of n, unfolded at] adv assms(2) by (simp add: c_def)
  show "rotbuf_count (rotbuf_advance rb (int n)) = rotbuf_count rb + int n"
    using adv rotbuf_count_at[OF assms(1), of "c + int n"] c assms(2) by (simp add: c_def)
  show "rotbuf_position (rotbuf_advance rb (int n)) = min (rb_size rb) (rotbuf_count rb + int n)"
    "rotbuf_remain (rotbuf_advance rb (int n)) = rb_size rb - rotbuf_position (rotbuf_advance rb (int n))"
    using adv rotbuf_position_at[OF assms(1), of "c + int n"] c assms(2) by (simp_all add: c_def min.commute)
qed

theorem rotbuf_advance_getbuf_witness:
  "map_option snd (rotbuf_getbuf [9, 9, 9, 9, 9] rb_example 5) = Some (rotbuf_advance rb_example 5) \<and>
   rotbuf_count (rotbuf_advance rb_example 5) = 5"
proof -
  have "rotbuf_count rb_example = 0" by (simp add: rotbuf_count_def rotbuf_position_def rb_example_def)
  then show ?thesis
    using rotbuf_advance_getbuf[OF rb_example_inv, of 5]
    by (simp add: rb_max_def rb_size_def rb_example_def)
qed

text \<open>C29. Iterating \<open>rotbuf_next_chunk\<close> until it returns 0 ends after at most two chunks
  and yields exactly the bytes not yet passed, in logical order.\<close>

theorem rotbuf_chunks_remaining:
  assumes "rb_inv mem rb"
  shows "rotbuf_chunks 3 mem rb = Some (drop (nat (rotbuf_position rb)) (rb_view mem rb))"
proof -
  define c where "c = rotbuf_count rb"
  have c: "0 \<le> c" "c \<le> rb_max rb" and at: "rb_at rb c = rb"
    using rotbuf_count_range[OF assms] rb_at_count[OF assms] by (simp_all add: c_def)
  have p: "rotbuf_position rb = min c (rb_size rb)" using rotbuf_position_at(1)[OF assms c] at by simp
  show ?thesis
  proof (cases "c < rb_size rb")
    case True
    then show ?thesis using rotbuf_chunks_at[OF assms c(1), of 3] c(2) at p by simp
  next
    case False
    then have "wrap rb \<noteq> 0" using wrap_at_zero[OF assms c] at by simp
    then show ?thesis using False p by (simp add: rotbuf_next_chunk_def numeral_3_eq_3)
  qed
qed

theorem rotbuf_chunks_remaining_witness:
  "rotbuf_chunks 3 [10, 11, 12, 13, 14] rb_example = Some [12, 13, 11]"
proof -
  have "rb_inv [10, 11, 12, 13, 14] rb_example" by (simp add: rb_example_def rb_inv_def)
  from rotbuf_chunks_remaining[OF this] show ?thesis
    by (simp add: rb_view_def rb_size_def rb_addr_def rotbuf_position_def rb_example_def upt_rec numeral_3_eq_3)
qed

text \<open>The distance between two cursors of one buffer is the difference of their
  positions as long as neither has reached the end; a cursor at the end counts as position 0,
  so the distance to it comes out short by the size of the buffer.\<close>

lemma rotbuf_delta_positions:
  assumes "rb_inv mem rb" "0 \<le> m" "m \<le> rb_max rb" "0 \<le> n" "n \<le> rb_max rb"
  shows "rotbuf_delta (rotbuf_advance (rotbuf_reset rb) m) (rotbuf_advance (rotbuf_reset rb) n) =
    Some ((if n < rb_size rb then n else 0) - (if m < rb_size rb then m else 0))"
  using rotbuf_delta_at[OF assms] rotbuf_advance_at[OF assms(1), of 0] rotbuf_reset_at[OF assms(1)] assms
  by simp

end
