(* ===== verification/Text_Sink.thy ===== *)
theory Text_Sink
  imports Serval_Prelude
begin

text \<open>
  The interface between a string buffer and the code that formats into it: an operation
  \<open>f\<close> appends a text \<open>s\<close> if it turns any state that represents \<open>T\<close> into one
  that represents \<open>T @ s\<close>. Appending operations compose, so the formatting helpers are
  proved correct by composing the laws of the operations they call.
\<close>

text \<open>A text sink: a state that represents the text appended so far, of which it may
  keep only a prefix. \<open>fits\<close> bounds the text of a sink that does not check its size.\<close>

definition appends :: "('s \<Rightarrow> byte list \<Rightarrow> bool) \<Rightarrow> (byte list \<Rightarrow> bool) \<Rightarrow> ('s \<Rightarrow> 's option) \<Rightarrow> byte list \<Rightarrow> bool" where
  "appends rep fits f s \<longleftrightarrow>
     (\<forall>x T. rep x T \<longrightarrow> fits (T @ s) \<longrightarrow> (\<exists>y. f x = Some y \<and> rep y (T @ s)))"

fun foldo :: "('s \<Rightarrow> 'a \<Rightarrow> 's option) \<Rightarrow> 's \<Rightarrow> 'a list \<Rightarrow> 's option" where
  "foldo f x [] = Some x"
| "foldo f x (a # as) = Option.bind (f x a) (\<lambda>y. foldo f y as)"

locale text_sink =
  fixes rep :: "'s \<Rightarrow> byte list \<Rightarrow> bool"
    and fits :: "byte list \<Rightarrow> bool"
  assumes fits_prefix: "fits (T @ s) \<Longrightarrow> fits T"
begin

lemma appends_nil: "appends rep fits Some []"
  by (simp add: appends_def)

lemma appends_seq:
  assumes "appends rep fits f s" "appends rep fits g t"
  shows "appends rep fits (\<lambda>x. Option.bind (f x) g) (s @ t)"
  unfolding appends_def
proof (intro allI impI)
  fix x T assume x: "rep x T" "fits (T @ s @ t)"
  then obtain y where y: "f x = Some y" "rep y (T @ s)"
    using assms(1) fits_prefix[of "T @ s" t] by (auto simp: appends_def)
  then show "\<exists>y. Option.bind (f x) g = Some y \<and> rep y (T @ s @ t)"
    using assms(2) x(2) unfolding appends_def by (metis append_assoc bind.bind_lunit)
qed

lemma appends_fold:
  assumes "\<And>a. a \<in> set as \<Longrightarrow> appends rep fits (\<lambda>x. f x a) (enc a)"
  shows "appends rep fits (\<lambda>x. foldo f x as) (concat (map enc as))"
  using assms
proof (induction as)
  case Nil
  then show ?case using appends_nil by simp
next
  case (Cons a as)
  then show ?case using appends_seq[of "\<lambda>x. f x a" "enc a" "\<lambda>x. foldo f x as"] by simp
qed

lemma appendsD: "appends rep fits f s \<Longrightarrow> rep x T \<Longrightarrow> fits (T @ s) \<Longrightarrow> \<exists>y. f x = Some y \<and> rep y (T @ s)"
  by (simp add: appends_def)

end

end
