(* ===== verification/Strbuf.thy ===== *)
theory Strbuf
  imports Text_Sink
begin

text \<open>
  The string buffer of \<open>strbuf.c\<close> and \<open>strbuf.h\<close>, into which every log message, file
  name and SQL statement is assembled, and the formatting helpers of \<open>strbuf_helpers.c\<close>
  that are built on it. A strbuf holds three pointers; here \<open>sb_start\<close> is the object behind
  the start pointer (\<open>None\<close> for NULL) and the other two are offsets from it, \<open>sb_end\<close>
  being \<open>None\<close> for the NULL of a buffer of undefined size. A \<open>const char *\<close> argument
  is the rest of the object it points into: running off it is a fault.
\<close>

record strbuf =
  sb_start :: "byte list option"
  sb_end :: "int option"
  sb_current :: int

subsection \<open>Operations of \<open>strbuf.c\<close>\<close>

text \<open>A write through a pointer into the backing buffer.\<close>

definition sb_put :: "strbuf \<Rightarrow> int \<Rightarrow> byte \<Rightarrow> strbuf option" where
  "sb_put sb p c = do {
     m \<leftarrow> sb_start sb;
     m \<leftarrow> c_put m p c;
     Some (sb\<lparr>sb_start := Some m\<rparr>)
   }"

definition strbuf_reset :: "strbuf \<Rightarrow> strbuf option" where
  "strbuf_reset sb =
     (let sb = sb\<lparr>sb_current := 0\<rparr>
      in if sb_start sb \<noteq> None then sb_put sb 0 0 else Some sb)"

text \<open>Offsets from NULL are addresses of 64 bits: the end of a NULL buffer is NULL again for
  size 1, and the highest address for size 0.\<close>

definition strbuf_init :: "byte list option \<Rightarrow> int \<Rightarrow> strbuf option" where
  "strbuf_init buffer sz =
     strbuf_reset \<lparr>sb_start = buffer,
       sb_end = (if sz \<ge> 0 then
                   (if buffer = None then (if sz = 1 then None else Some ((sz - 1) mod 2 ^ 64))
                    else Some (sz - 1))
                 else None),
       sb_current = 0\<rparr>"

definition strbuf_end :: "strbuf \<Rightarrow> int" where
  "strbuf_end sb = (case sb_end sb of
     Some e \<Rightarrow> (if sb_current sb > e then e else sb_current sb)
   | None \<Rightarrow> sb_current sb)"

definition strbuf_is_empty :: "strbuf \<Rightarrow> bool" where
  "strbuf_is_empty sb \<longleftrightarrow> sb_start sb = None \<and> sb_end sb = None \<and> sb_current sb = 0"

definition strbuf_size :: "strbuf \<Rightarrow> int" where
  "strbuf_size sb = (case sb_end sb of
     Some e \<Rightarrow> (if sb_start sb = None then (e + 1) mod 2 ^ 64 else e + 1)
   | None \<Rightarrow> -1)"

definition strbuf_len :: "strbuf \<Rightarrow> int" where
  "strbuf_len sb = strbuf_end sb"

text \<open>\<open>~(size_t)0\<close> with 64-bit sizes.\<close>

definition strbuf_remaining :: "strbuf \<Rightarrow> int" where
  "strbuf_remaining sb = (case sb_end sb of Some e \<Rightarrow> e - strbuf_end sb | None \<Rightarrow> 2 ^ 64 - 1)"

definition strbuf_count :: "strbuf \<Rightarrow> int" where
  "strbuf_count sb = sb_current sb"

definition strbuf_overrun :: "strbuf \<Rightarrow> bool" where
  "strbuf_overrun sb = (case sb_end sb of Some e \<Rightarrow> sb_current sb > e | None \<Rightarrow> False)"

text \<open>The condition under which the appending operations write at the current position.\<close>

definition sb_writable :: "strbuf \<Rightarrow> bool" where
  "sb_writable sb \<longleftrightarrow> sb_start sb \<noteq> None \<and>
     (case sb_end sb of None \<Rightarrow> True | Some e \<Rightarrow> sb_current sb < e)"

text \<open>\<open>for (c = current; n && (*c = *text); --n, ++c, ++text);\<close> The result is the buffer
  and the final \<open>c\<close>.\<close>

fun ncat_loop :: "strbuf \<Rightarrow> int \<Rightarrow> byte list \<Rightarrow> nat \<Rightarrow> (strbuf \<times> int) option" where
  "ncat_loop sb c text 0 = Some (sb, c)"
| "ncat_loop sb c [] (Suc n) = None"
| "ncat_loop sb c (t # text) (Suc n) = do {
     sb \<leftarrow> sb_put sb c t;
     if t = 0 then Some (sb, c) else ncat_loop sb (c + 1) text n
   }"

definition strbuf_ncat :: "strbuf \<Rightarrow> byte list \<Rightarrow> nat \<Rightarrow> strbuf option" where
  "strbuf_ncat sb text len = do {
     sb \<leftarrow> (if sb_writable sb then do {
              let n = (case sb_end sb of Some e \<Rightarrow> min (nat (e - sb_current sb)) len | None \<Rightarrow> len);
              (sb, c) \<leftarrow> ncat_loop sb (sb_current sb) text n;
              sb_put sb c 0
            } else Some sb);
     Some (sb\<lparr>sb_current := sb_current sb + int len\<rparr>)
   }"

text \<open>The copying loops of \<open>strbuf_puts\<close>: without a limit, and with \<open>n\<close> bytes left.
  The result is the buffer and the rest of the text.\<close>

fun puts_loop :: "strbuf \<Rightarrow> byte list \<Rightarrow> (strbuf \<times> byte list) option" where
  "puts_loop sb [] = None"
| "puts_loop sb (t # text) = do {
     sb \<leftarrow> sb_put sb (sb_current sb) t;
     if t = 0 then Some (sb, t # text)
     else puts_loop (sb\<lparr>sb_current := sb_current sb + 1\<rparr>) text
   }"

fun puts_nloop :: "strbuf \<Rightarrow> byte list \<Rightarrow> nat \<Rightarrow> (strbuf \<times> byte list) option" where
  "puts_nloop sb text 0 = Some (sb, text)"
| "puts_nloop sb [] (Suc n) = None"
| "puts_nloop sb (t # text) (Suc n) = do {
     sb \<leftarrow> sb_put sb (sb_current sb) t;
     if t = 0 then Some (sb, t # text)
     else puts_nloop (sb\<lparr>sb_current := sb_current sb + 1\<rparr>) text n
   }"

text \<open>\<open>while (*text++) ++sb->current;\<close>\<close>

fun puts_count :: "strbuf \<Rightarrow> byte list \<Rightarrow> strbuf option" where
  "puts_count sb [] = None"
| "puts_count sb (t # text) =
     (if t = 0 then Some sb else puts_count (sb\<lparr>sb_current := sb_current sb + 1\<rparr>) text)"

definition strbuf_puts :: "strbuf \<Rightarrow> byte list \<Rightarrow> strbuf option" where
  "strbuf_puts sb text = do {
     (sb, text) \<leftarrow> (if sb_start sb \<noteq> None then
         (case sb_end sb of
            None \<Rightarrow> puts_loop sb text
          | Some e \<Rightarrow>
              if sb_current sb < e then do {
                (sb, text) \<leftarrow> puts_nloop sb text (nat (e - sb_current sb));
                sb \<leftarrow> sb_put sb (sb_current sb) 0;
                Some (sb, text)
              } else Some (sb, text))
       else Some (sb, text));
     puts_count sb text
   }"

definition hexdigit :: "byte \<Rightarrow> byte" where
  "hexdigit n = cs ''0123456789ABCDEF'' ! unat n"

text \<open>\<open>for (; p < e; ++data) { *p++ = ...; *p++ = ...; }\<close>\<close>

function tohex_loop :: "strbuf \<Rightarrow> int \<Rightarrow> int \<Rightarrow> byte list \<Rightarrow> strbuf option" where
  "tohex_loop sb p e data =
     (if p < e then do {
        d \<leftarrow> c_get data 0;
        sb \<leftarrow> sb_put sb p (hexdigit (drop_bit 4 d));
        sb \<leftarrow> sb_put sb (p + 1) (hexdigit (d AND 0xf));
        tohex_loop sb (p + 2) e (tl data)
      } else Some sb)"
  by pat_completeness auto
termination
  by (relation "measure (\<lambda>(sb, p, e, data). nat (e - p))") auto

declare tohex_loop.simps [simp del]

definition strbuf_tohex :: "strbuf \<Rightarrow> byte list \<Rightarrow> nat \<Rightarrow> strbuf option" where
  "strbuf_tohex sb data len =
     (let p = sb_current sb;
          sb = sb\<lparr>sb_current := sb_current sb + int len * 2\<rparr>
      in if sb_start sb \<noteq> None then do {
           let e = (case sb_end sb of
                      Some e \<Rightarrow> (if sb_current sb > e then e else sb_current sb)
                    | None \<Rightarrow> sb_current sb);
           sb \<leftarrow> tohex_loop sb p e data;
           sb_put sb e 0
         } else Some sb)"

definition strbuf_putc :: "strbuf \<Rightarrow> byte \<Rightarrow> strbuf option" where
  "strbuf_putc sb c = do {
     sb \<leftarrow> (if sb_writable sb then do {
              sb \<leftarrow> sb_put sb (sb_current sb) c;
              sb_put sb (sb_current sb + 1) 0
            } else Some sb);
     Some (sb\<lparr>sb_current := sb_current sb + 1\<rparr>)
   }"

text \<open>\<open>vsprintf\<close> and \<open>vsnprintf\<close> of the standard library: \<open>out\<close> is the text the format
  produces. The first writes it with its terminating nul, the second at most \<open>space\<close>
  characters, nul included; both return the length of the whole text.\<close>

definition c_vsprintf :: "strbuf \<Rightarrow> int \<Rightarrow> byte list \<Rightarrow> strbuf option" where
  "c_vsprintf sb p out = do {
     m \<leftarrow> sb_start sb;
     m \<leftarrow> c_putn m p (out @ [0]);
     Some (sb\<lparr>sb_start := Some m\<rparr>)
   }"

definition c_vsnprintf :: "strbuf \<Rightarrow> int \<Rightarrow> int \<Rightarrow> byte list \<Rightarrow> strbuf option" where
  "c_vsnprintf sb p space out =
     (if space > 0 then c_vsprintf sb p (take (nat space - 1) out) else Some sb)"

definition strbuf_sprintf :: "strbuf \<Rightarrow> byte list \<Rightarrow> strbuf option" where
  "strbuf_sprintf sb out = do {
     let n = int (length out);
     sb \<leftarrow> (if sb_start sb \<noteq> None \<and> sb_end sb = None then c_vsprintf sb (sb_current sb) out
            else case sb_end sb of
              Some e \<Rightarrow>
                if sb_start sb \<noteq> None \<and> sb_current sb < e then do {
                  let space = e - sb_current sb + 1;
                  sb \<leftarrow> c_vsnprintf sb (sb_current sb) space out;
                  if n \<ge> space then sb_put sb e 0 else Some sb
                } else Some sb
            | None \<Rightarrow> Some sb);
     Some (sb\<lparr>sb_current := sb_current sb + n\<rparr>)
   }"

text \<open>The offset of the result, \<open>None\<close> for NULL.\<close>

definition strbuf_substr :: "strbuf \<Rightarrow> int \<Rightarrow> int option" where
  "strbuf_substr sb offset =
     (if sb_start sb = None then None
      else if offset < 0 then
        (let s = strbuf_end sb + offset in Some (if s < 0 then 0 else s))
      else (case sb_end sb of
              Some e \<Rightarrow> Some (if offset > e then e else offset)
            | None \<Rightarrow> Some offset))"

definition strbuf_trunc :: "strbuf \<Rightarrow> int \<Rightarrow> strbuf option" where
  "strbuf_trunc sb offset = do {
     let sb = (if offset < 0 then
                 (let e = strbuf_end sb
                  in sb\<lparr>sb_current := (if offset \<le> 0 - e then 0 else e + offset)\<rparr>)
               else if offset < sb_current sb then sb\<lparr>sb_current := offset\<rparr> else sb);
     if sb_writable sb then sb_put sb (sb_current sb) 0 else Some sb
   }"

subsection \<open>Formatting helpers of \<open>strbuf_helpers.c\<close>\<close>

text \<open>A string constant, with its terminating nul.\<close>

abbreviation lit :: "string \<Rightarrow> byte list" where
  "lit s \<equiv> cs s @ [0]"

abbreviation backslash :: byte where
  "backslash \<equiv> 0x5C"

text \<open>The output of \<open>%02x\<close>.\<close>

definition hexdigit_lower :: "byte \<Rightarrow> byte" where
  "hexdigit_lower n = cs ''0123456789abcdef'' ! unat n"

definition printf_02x :: "byte \<Rightarrow> byte list" where
  "printf_02x c = [hexdigit_lower (drop_bit 4 c), hexdigit_lower (c AND 0xf)]"

definition toprint_char :: "strbuf \<Rightarrow> byte \<Rightarrow> strbuf option" where
  "toprint_char sb c =
     (if c = 0 then strbuf_puts sb (backslash # lit ''0'')
      else if c = 0x0A then strbuf_puts sb (backslash # lit ''n'')
      else if c = 0x0D then strbuf_puts sb (backslash # lit ''r'')
      else if c = 0x09 then strbuf_puts sb (backslash # lit ''t'')
      else if c = backslash then strbuf_puts sb [backslash, backslash, 0]
      else if c \<ge> ch CHR '' '' \<and> c \<le> ch CHR ''~'' then strbuf_putc sb c
      else strbuf_sprintf sb (backslash # cs ''x'' @ printf_02x c))"

text \<open>\<open>strlen\<close> of a string constant.\<close>

definition c_strlen :: "byte list \<Rightarrow> nat" where
  "c_strlen s = length (takeWhile (\<lambda>c. c \<noteq> 0) s)"

definition overrun_suffix :: "strbuf \<Rightarrow> byte list \<Rightarrow> strbuf option" where
  "overrun_suffix sb suffix =
     (if strbuf_overrun sb then do {
        sb \<leftarrow> strbuf_trunc sb (- int (c_strlen suffix));
        strbuf_puts sb suffix
      } else Some sb)"

definition overrun_quote :: "strbuf \<Rightarrow> byte \<Rightarrow> byte list \<Rightarrow> strbuf option" where
  "overrun_quote sb quote suffix =
     (if strbuf_overrun sb then do {
        sb \<leftarrow> strbuf_trunc sb (- int (c_strlen suffix) - (if quote \<noteq> 0 then 1 else 0));
        sb \<leftarrow> (if quote \<noteq> 0 then strbuf_putc sb quote else Some sb);
        strbuf_puts sb suffix
      } else Some sb)"

fun toprint_len_loop :: "strbuf \<Rightarrow> byte list \<Rightarrow> nat \<Rightarrow> strbuf option" where
  "toprint_len_loop sb data 0 = Some sb"
| "toprint_len_loop sb data (Suc len) =
     (if strbuf_overrun sb then Some sb
      else do {
        c \<leftarrow> c_get data 0;
        sb \<leftarrow> toprint_char sb c;
        toprint_len_loop sb (tl data) len
      })"

definition strbuf_toprint_len :: "strbuf \<Rightarrow> byte list \<Rightarrow> nat \<Rightarrow> strbuf option" where
  "strbuf_toprint_len sb data len = do {
     sb \<leftarrow> toprint_len_loop sb data len;
     overrun_suffix sb (lit ''...'')
   }"

fun toprint_loop :: "strbuf \<Rightarrow> byte list \<Rightarrow> strbuf option" where
  "toprint_loop sb [] = None"
| "toprint_loop sb (c # str) =
     (if c = 0 \<or> strbuf_overrun sb then Some sb
      else do {
        sb \<leftarrow> toprint_char sb c;
        toprint_loop sb str
      })"

definition strbuf_toprint :: "strbuf \<Rightarrow> byte list \<Rightarrow> strbuf option" where
  "strbuf_toprint sb str = do {
     sb \<leftarrow> toprint_loop sb str;
     overrun_suffix sb (lit ''...'')
   }"

text \<open>\<open>quotes\<close> is \<open>None\<close> for NULL, otherwise its two characters.\<close>

definition quoted_char :: "(byte \<times> byte) option \<Rightarrow> strbuf \<Rightarrow> byte \<Rightarrow> strbuf option" where
  "quoted_char quotes sb c =
     (if quotes \<noteq> None \<and> c = snd (the quotes) then do {
        sb \<leftarrow> strbuf_putc sb backslash;
        strbuf_putc sb c
      } else toprint_char sb c)"

definition open_quote :: "(byte \<times> byte) option \<Rightarrow> strbuf \<Rightarrow> strbuf option" where
  "open_quote quotes sb =
     (case quotes of Some (q, _) \<Rightarrow> (if q \<noteq> 0 then strbuf_putc sb q else Some sb) | None \<Rightarrow> Some sb)"

definition close_quote :: "(byte \<times> byte) option \<Rightarrow> strbuf \<Rightarrow> strbuf option" where
  "close_quote quotes sb =
     (case quotes of Some (_, q) \<Rightarrow> (if q \<noteq> 0 then strbuf_putc sb q else Some sb) | None \<Rightarrow> Some sb)"

fun quoted_len_loop :: "(byte \<times> byte) option \<Rightarrow> strbuf \<Rightarrow> byte list \<Rightarrow> nat \<Rightarrow> strbuf option" where
  "quoted_len_loop quotes sb data 0 = Some sb"
| "quoted_len_loop quotes sb data (Suc len) =
     (if strbuf_overrun sb then Some sb
      else do {
        c \<leftarrow> c_get data 0;
        sb \<leftarrow> quoted_char quotes sb c;
        quoted_len_loop quotes sb (tl data) len
      })"

definition strbuf_toprint_quoted_len ::
  "strbuf \<Rightarrow> (byte \<times> byte) option \<Rightarrow> byte list \<Rightarrow> nat \<Rightarrow> strbuf option" where
  "strbuf_toprint_quoted_len sb quotes data len = do {
     sb \<leftarrow> open_quote quotes sb;
     sb \<leftarrow> quoted_len_loop quotes sb data len;
     sb \<leftarrow> close_quote quotes sb;
     overrun_quote sb (case quotes of Some (_, q) \<Rightarrow> q | None \<Rightarrow> 0) (lit ''...'')
   }"

fun quoted_loop :: "(byte \<times> byte) option \<Rightarrow> strbuf \<Rightarrow> byte list \<Rightarrow> strbuf option" where
  "quoted_loop quotes sb [] = None"
| "quoted_loop quotes sb (c # str) =
     (if c = 0 \<or> strbuf_overrun sb then Some sb
      else do {
        sb \<leftarrow> quoted_char quotes sb c;
        quoted_loop quotes sb str
      })"

definition strbuf_toprint_quoted ::
  "strbuf \<Rightarrow> (byte \<times> byte) option \<Rightarrow> byte list \<Rightarrow> strbuf option" where
  "strbuf_toprint_quoted sb quotes str = do {
     sb \<leftarrow> open_quote quotes sb;
     sb \<leftarrow> quoted_loop quotes sb str;
     sb \<leftarrow> close_quote quotes sb;
     overrun_quote sb (case quotes of Some (_, q) \<Rightarrow> q | None \<Rightarrow> 0) (lit ''...'')
   }"

text \<open>The segments of \<open>strbuf_path_join\<close>, its variadic arguments up to the NULL.\<close>

fun strbuf_path_join :: "strbuf \<Rightarrow> byte list list \<Rightarrow> strbuf option" where
  "strbuf_path_join sb [] = Some sb"
| "strbuf_path_join sb (segment # segments) = do {
     c \<leftarrow> c_get segment 0;
     sb \<leftarrow> (if c = ch CHR ''/'' then strbuf_reset sb
            else if strbuf_len sb \<noteq> 0 then do {
              p \<leftarrow> strbuf_substr sb (-1);
              m \<leftarrow> sb_start sb;
              d \<leftarrow> c_get m p;
              if d \<noteq> ch CHR ''/'' then strbuf_putc sb (ch CHR ''/'') else Some sb
            } else Some sb);
     sb \<leftarrow> strbuf_puts sb segment;
     strbuf_path_join sb segments
   }"

definition c_isalnum :: "byte \<Rightarrow> bool" where
  "c_isalnum c \<longleftrightarrow> (c \<ge> ch CHR ''0'' \<and> c \<le> ch CHR ''9'') \<or>
     (c \<ge> ch CHR ''A'' \<and> c \<le> ch CHR ''Z'') \<or> (c \<ge> ch CHR ''a'' \<and> c \<le> ch CHR ''z'')"

definition is_shellmeta :: "byte \<Rightarrow> bool" where
  "is_shellmeta c \<longleftrightarrow> \<not> (c_isalnum c \<or> c \<in> set (cs ''.-/:+_,''))"

abbreviation apostrophe :: byte where
  "apostrophe \<equiv> 0x27"

fun shell_quote_loop :: "strbuf \<Rightarrow> byte list \<Rightarrow> strbuf option" where
  "shell_quote_loop sb [] = None"
| "shell_quote_loop sb (c # p) =
     (if c = 0 then Some sb
      else do {
        sb \<leftarrow> (if c = apostrophe
               then strbuf_puts sb [apostrophe, backslash, apostrophe, apostrophe, 0]
               else strbuf_putc sb c);
        shell_quote_loop sb p
      })"

definition strbuf_append_shell_quote :: "strbuf \<Rightarrow> byte list \<Rightarrow> strbuf option" where
  "strbuf_append_shell_quote sb word = do {
     sb \<leftarrow> strbuf_putc sb apostrophe;
     sb \<leftarrow> shell_quote_loop sb word;
     strbuf_putc sb apostrophe
   }"

fun hasmeta :: "byte list \<Rightarrow> bool option" where
  "hasmeta [] = None"
| "hasmeta (c # p) = (if c = 0 then Some False else if is_shellmeta c then Some True else hasmeta p)"

definition strbuf_append_shell_quotemeta :: "strbuf \<Rightarrow> byte list \<Rightarrow> strbuf option" where
  "strbuf_append_shell_quotemeta sb word = do {
     meta \<leftarrow> hasmeta word;
     c \<leftarrow> c_get word 0;
     if c = 0 \<or> meta then strbuf_append_shell_quote sb word else strbuf_puts sb word
   }"

text \<open>\<open>i\<close> is the index of the first argument in \<open>argv\<close>; NULL arguments are \<open>None\<close>.\<close>

fun append_argv_loop :: "strbuf \<Rightarrow> nat \<Rightarrow> byte list option list \<Rightarrow> strbuf option" where
  "append_argv_loop sb i [] = Some sb"
| "append_argv_loop sb i (arg # argv) = do {
     sb \<leftarrow> (if i \<noteq> 0 then strbuf_putc sb (ch CHR '' '') else Some sb);
     sb \<leftarrow> (case arg of
              Some str \<Rightarrow> strbuf_toprint_quoted sb (Some (0x22, 0x22)) str
            | None \<Rightarrow> strbuf_puts sb (lit ''NULL''));
     append_argv_loop sb (Suc i) argv
   }"

definition strbuf_append_argv :: "strbuf \<Rightarrow> byte list option list \<Rightarrow> strbuf option" where
  "strbuf_append_argv sb argv = append_argv_loop sb 0 argv"

subsection \<open>The text a strbuf stands for\<close>

text \<open>The shape of a strbuf, which no operation changes: the size of the object behind the
  start pointer (\<open>None\<close> for NULL) and the end offset. The last usable offset is the limit.\<close>

type_synonym sb_shape = "nat option \<times> int option"

definition sb_limit :: "sb_shape \<Rightarrow> nat" where
  "sb_limit sh = (case sh of (_, Some e) \<Rightarrow> nat e | (Some l, None) \<Rightarrow> l - 1 | (None, None) \<Rightarrow> 0)"

definition sb_ok :: "sb_shape \<Rightarrow> bool" where
  "sb_ok sh = (case sh of
     (None, None) \<Rightarrow> True | (None, Some e) \<Rightarrow> True
   | (Some l, None) \<Rightarrow> 0 < l | (Some l, Some e) \<Rightarrow> 0 \<le> e \<and> e < int l)"

definition sb_fits :: "sb_shape \<Rightarrow> byte list \<Rightarrow> bool" where
  "sb_fits sh T = (case sh of (Some l, None) \<Rightarrow> length T < l | _ \<Rightarrow> True)"

definition sb_rep :: "sb_shape \<Rightarrow> strbuf \<Rightarrow> byte list \<Rightarrow> bool" where
  "sb_rep sh sb T \<longleftrightarrow>
     sb_ok sh \<and> map_option length (sb_start sb) = fst sh \<and> sb_end sb = snd sh \<and>
     sb_current sb = int (length T) \<and> sb_fits sh T \<and>
     (case sb_start sb of None \<Rightarrow> True
      | Some m \<Rightarrow> take (Suc (min (length T) (sb_limit sh))) m = take (sb_limit sh) T @ [0])"

interpretation sb: text_sink "sb_rep sh" "sb_fits sh"
  by unfold_locales (auto simp: sb_fits_def split: prod.splits option.splits)

definition sb_append_text :: "sb_shape \<Rightarrow> strbuf \<Rightarrow> byte list \<Rightarrow> strbuf \<Rightarrow> bool" where
  "sb_append_text sh sb s sb' \<longleftrightarrow>
     (case sb_start sb of
        None \<Rightarrow> sb' = sb\<lparr>sb_current := sb_current sb + int (length s)\<rparr>
      | Some m \<Rightarrow>
          (if sb_current sb < int (sb_limit sh)
           then (\<exists>m'. c_putn m (sb_current sb) (take (sb_limit sh - nat (sb_current sb)) s @ [0]) = Some m' \<and>
                  sb' = sb\<lparr>sb_start := Some m', sb_current := sb_current sb + int (length s)\<rparr>)
           else sb' = sb\<lparr>sb_current := sb_current sb + int (length s)\<rparr>))"

lemma sb_rep_limit: "sb_rep sh sb T \<Longrightarrow> sb_start sb = Some m \<Longrightarrow> sb_limit sh < length m"
  by (auto simp: sb_rep_def sb_ok_def sb_limit_def split: prod.splits option.splits)

lemma sb_append_rep:
  assumes rep: "sb_rep sh sb T" and fits: "sb_fits sh (T @ s)" and app: "sb_append_text sh sb s sb'"
  shows "sb_rep sh sb' (T @ s)"
proof (cases "sb_start sb")
  case None
  then show ?thesis using assms by (auto simp: sb_append_text_def sb_rep_def)
next
  case (Some m)
  let ?L = "sb_limit sh" and ?n = "length T"
  have cur: "sb_current sb = int ?n" using rep by (simp add: sb_rep_def)
  have tk: "take (Suc (min ?n ?L)) m = take ?L T @ [0]" using rep Some by (simp add: sb_rep_def)
  have L: "?L < length m" by (rule sb_rep_limit[OF rep Some])
  show ?thesis
  proof (cases "?n < ?L")
    case True
    let ?v = "take (?L - ?n) s @ [0]"
    have w: "?n + length ?v \<le> length m" using True L by (auto simp: min_def)
    define m' where "m' = take ?n m @ ?v @ drop (?n + length ?v) m"
    have "c_putn m (int ?n) ?v = Some m'" using w by (simp add: c_putn_def m'_def)
    then have sb': "sb' = sb\<lparr>sb_start := Some m', sb_current := int (length (T @ s))\<rparr>"
      using app Some True cur by (simp add: sb_append_text_def)
    have "take ?n (take (Suc ?n) m) = T" using tk True by simp
    then have T: "take ?n m = T" by (simp add: min_def)
    have "Suc (min (length (T @ s)) ?L) = ?n + length ?v" using True by auto
    then have "take (Suc (min (length (T @ s)) ?L)) m' = T @ ?v"
      using take_pre[of T ?v "drop (?n + length ?v) m"] by (simp only: T m'_def)
    moreover have "T @ ?v = take ?L (T @ s) @ [0]" using True by simp
    moreover have "length m' = length m" using w by (simp add: m'_def)
    ultimately show ?thesis using rep fits Some unfolding sb' by (simp add: sb_rep_def)
  next
    case False
    then have sb': "sb' = sb\<lparr>sb_current := int (length (T @ s))\<rparr>"
      using app Some cur by (simp add: sb_append_text_def)
    have "take ?L (T @ s) = take ?L T" "min (length (T @ s)) ?L = min ?n ?L" using False by auto
    then show ?thesis using rep fits Some tk unfolding sb' by (simp add: sb_rep_def)
  qed
qed

lemma appends_strbufI:
  assumes "\<And>sb T. sb_rep sh sb T \<Longrightarrow> sb_fits sh (T @ s) \<Longrightarrow> \<exists>sb'. f sb = Some sb' \<and> sb_append_text sh sb s sb'"
  shows "appends (sb_rep sh) (sb_fits sh) f s"
  unfolding appends_def using assms sb_append_rep by metis

lemma sb_putn_step:
  assumes "sb_start sb = Some m"
  shows "Option.bind (sb_put sb p c) (\<lambda>sb. c_vsprintf sb (p + 1) out) = c_vsprintf sb p (c # out)"
proof -
  have "Option.bind (c_put m p c) (\<lambda>m. c_putn m (p + 1) (out @ [0])) = c_putn m p (c # out @ [0])"
    by (rule c_put_putn)
  then show ?thesis using assms
    by (cases "c_put m p c") (auto simp: sb_put_def c_vsprintf_def)
qed

lemma sb_put_nul: "sb_put sb p 0 = c_vsprintf sb p []"
  by (simp add: sb_put_def c_vsprintf_def c_putn_single)

lemma sb_put_current: "sb_put (sb\<lparr>sb_current := c\<rparr>) p v = map_option (\<lambda>sb. sb\<lparr>sb_current := c\<rparr>) (sb_put sb p v)"
  by (cases "sb_start sb"; cases "c_put (the (sb_start sb)) p v") (simp_all add: sb_put_def)

lemma sb_put_same: "sb_put (sb\<lparr>sb_current := c\<rparr>) p v = Some (sb\<lparr>sb_current := c\<rparr>) \<Longrightarrow> sb_put sb p v = Some sb"
  by (cases sb) (auto simp: sb_put_def Option.bind_eq_Some_conv)

lemma sb_put_start: "sb_put sb p v = Some sb' \<Longrightarrow> \<exists>m. sb_start sb' = Some m"
  by (auto simp: sb_put_def Option.bind_eq_Some_conv)

lemma sb_put_keeps: "sb_put sb p v = Some sb' \<Longrightarrow> sb_current sb' = sb_current sb \<and> sb_end sb' = sb_end sb"
  by (auto simp: sb_put_def Option.bind_eq_Some_conv)

lemma c_vsprintf_keeps: "c_vsprintf sb p out = Some sb' \<Longrightarrow> sb_current sb' = sb_current sb \<and> sb_end sb' = sb_end sb"
  by (auto simp: c_vsprintf_def Option.bind_eq_Some_conv)

lemma c_vsprintf_step:
  assumes "sb_start sb = Some m" "sb_put sb p t = Some sb1"
  shows "c_vsprintf (sb1\<lparr>sb_current := q\<rparr>) (p + 1) out = map_option (\<lambda>sb. sb\<lparr>sb_current := q\<rparr>) (c_vsprintf sb p (t # out))"
proof -
  obtain m1 where "sb_start sb1 = Some m1" using sb_put_start[OF assms(2)] by blast
  then show ?thesis unfolding sb_putn_step[OF assms(1), symmetric] assms(2)
    by (cases "c_putn m1 (p + 1) (out @ [0])") (simp_all add: c_vsprintf_def)
qed

text \<open>All the copying loops write a prefix of the text and a nul, in one block.\<close>

lemma ncat_loop_block:
  assumes "0 \<notin> set s" "sb_start sb = Some m"
  shows "Option.bind (ncat_loop sb c (s @ 0 # text) n) (\<lambda>(sb, c). sb_put sb c 0) = c_vsprintf sb c (take n s)"
  using assms
proof (induction s arbitrary: sb c n m)
  case Nil
  then show ?case
    by (cases n) (auto simp: sb_put_nul sb_put_def c_vsprintf_def c_putn_single c_put_def)
next
  case (Cons t s)
  show ?case
  proof (cases n)
    case 0
    then show ?thesis by (simp add: sb_put_nul)
  next
    case (Suc k)
    show ?thesis
    proof (cases "sb_put sb c t")
      case None
      then show ?thesis using Suc sb_putn_step[OF Cons.prems(2), of c t "take k s"] by simp
    next
      case (Some sb1)
      then obtain m1 where "sb_start sb1 = Some m1" using sb_put_start by blast
      then have "Option.bind (ncat_loop sb1 (c + 1) (s @ 0 # text) k) (\<lambda>(sb, c). sb_put sb c 0) = c_vsprintf sb1 (c + 1) (take k s)"
        using Cons.IH Cons.prems by simp
      then show ?thesis using Some Suc Cons.prems(1) sb_putn_step[OF Cons.prems(2), of c t "take k s"] by simp
    qed
  qed
qed

lemma puts_count_eq: "0 \<notin> set s \<Longrightarrow> puts_count sb (s @ 0 # text) = Some (sb\<lparr>sb_current := sb_current sb + int (length s)\<rparr>)"
  by (induction s arbitrary: sb) (simp_all add: add.assoc)

lemma puts_nloop_block:
  assumes "0 \<notin> set s" "sb_start sb = Some m"
  shows "Option.bind (puts_nloop sb (s @ 0 # text) n) (\<lambda>(sb, text). Option.bind (sb_put sb (sb_current sb) 0) (\<lambda>sb. puts_count sb text))
    = map_option (\<lambda>sb. sb\<lparr>sb_current := sb_current sb + int (length s)\<rparr>) (c_vsprintf sb (sb_current sb) (take n s))"
  using assms
proof (induction s arbitrary: sb n m)
  case Nil
  show ?case
  proof (cases "sb_put sb (sb_current sb) 0")
    case None
    then show ?thesis by (cases n) (simp_all flip: sb_put_nul)
  next
    case (Some sb1)
    then have "sb_put sb1 (sb_current sb1) 0 = Some sb1"
      using Nil by (auto simp: sb_put_def Option.bind_eq_Some_conv c_put_def split: if_splits)
    then show ?thesis using Some by (cases n) (simp_all flip: sb_put_nul)
  qed
next
  case (Cons t s)
  show ?case
  proof (cases n)
    case 0
    then show ?thesis using puts_count_eq[OF Cons.prems(1)]
      by (cases "sb_put sb (sb_current sb) 0") (simp_all flip: sb_put_nul)
  next
    case (Suc k)
    let ?c = "sb_current sb"
    show ?thesis
    proof (cases "sb_put sb ?c t")
      case None
      then show ?thesis using Suc sb_putn_step[OF Cons.prems(2), of ?c t "take k s"] by simp
    next
      case (Some sb1)
      then obtain m1 where m1: "sb_start sb1 = Some m1" using sb_put_start by blast
      have c1: "sb_current sb1 = ?c" using sb_put_keeps[OF Some] by simp
      show ?thesis using Some Suc Cons.prems(1) m1 c1
          Cons.IH[of "sb1\<lparr>sb_current := ?c + 1\<rparr>" m1 k] c_vsprintf_step[OF Cons.prems(2) Some]
        by (cases "c_vsprintf sb ?c (t # take k s)") (auto simp: algebra_simps dest: c_vsprintf_keeps)
    qed
  qed
qed

lemma puts_loop_block:
  assumes "0 \<notin> set s" "sb_start sb = Some m"
  shows "puts_loop sb (s @ 0 # text) =
    map_option (\<lambda>sb. (sb\<lparr>sb_current := sb_current sb + int (length s)\<rparr>, 0 # text)) (c_vsprintf sb (sb_current sb) s)"
  using assms
proof (induction s arbitrary: sb m)
  case Nil
  then show ?case by (cases "sb_put sb (sb_current sb) 0") (simp_all flip: sb_put_nul)
next
  case (Cons t s)
  let ?c = "sb_current sb"
  show ?case
  proof (cases "sb_put sb ?c t")
    case None
    then show ?thesis using sb_putn_step[OF Cons.prems(2), of ?c t s] by simp
  next
    case (Some sb1)
    then obtain m1 where m1: "sb_start sb1 = Some m1" using sb_put_start by blast
    have c1: "sb_current sb1 = ?c" using sb_put_keeps[OF Some] by simp
    show ?thesis
      using Some Cons.prems(1) m1 c1 Cons.IH[of "sb1\<lparr>sb_current := ?c + 1\<rparr>" m1]
        c_vsprintf_step[OF Cons.prems(2) Some]
      by (cases "c_vsprintf sb ?c (t # s)") (auto simp: algebra_simps dest: c_vsprintf_keeps)
  qed
qed

text \<open>Writing the terminating nul again changes nothing.\<close>

lemma sb_renul:
  assumes "sb_rep sh sb T" "sb_start sb \<noteq> None"
  shows "sb_put sb (int (min (length T) (sb_limit sh))) 0 = Some sb"
proof -
  obtain m where m: "sb_start sb = Some m" using assms(2) by auto
  let ?k = "min (length T) (sb_limit sh)"
  have L: "?k < length m" using sb_rep_limit[OF assms(1) m] by simp
  have "take (Suc ?k) m = take (sb_limit sh) T @ [0]" using assms(1) m by (simp add: sb_rep_def)
  then have "m ! ?k = 0" using L by (metis last_snoc take_Suc_conv_app_nth)
  then have "c_put m (int ?k) 0 = Some m" using L by (simp add: c_put_def) (metis list_update_id)
  then show ?thesis using m by (simp add: sb_put_def)
qed

text \<open>Writing the text of a block append.\<close>

lemma sb_block:
  assumes "sb_rep sh sb T" "sb_start sb \<noteq> None" "length T \<le> sb_limit sh"
  shows "\<exists>sb1. c_vsprintf sb (int (length T)) (take (sb_limit sh - length T) s) = Some sb1 \<and>
    sb_current sb1 = sb_current sb \<and> sb_end sb1 = sb_end sb \<and>
    sb_append_text sh sb s (sb1\<lparr>sb_current := sb_current sb + int (length s)\<rparr>)"
proof -
  obtain m where m: "sb_start sb = Some m" using assms(2) by auto
  have L: "sb_limit sh < length m" by (rule sb_rep_limit[OF assms(1) m])
  have cur: "sb_current sb = int (length T)" using assms(1) by (simp add: sb_rep_def)
  show ?thesis
  proof (cases "length T < sb_limit sh")
    case True
    let ?v = "take (sb_limit sh - length T) s @ [0]"
    have "length T + length ?v \<le> length m" using L True by auto
    then obtain m' where "c_putn m (int (length T)) ?v = Some m'" by (simp add: c_putn_def)
    then show ?thesis using m True cur
      by (intro exI[of _ "sb\<lparr>sb_start := Some m'\<rparr>"]) (simp add: c_vsprintf_def sb_append_text_def)
  next
    case False
    then show ?thesis using sb_renul[OF assms(1,2)] assms(3) m cur
      by (simp add: sb_append_text_def min_def flip: sb_put_nul)
  qed
qed

lemma sb_no_block:
  assumes "sb_rep sh sb T" "sb_start sb = None \<or> \<not> length T < sb_limit sh"
  shows "sb_append_text sh sb s (sb\<lparr>sb_current := sb_current sb + int (length s)\<rparr>)"
  using assms by (cases "sb_start sb") (auto simp: sb_append_text_def sb_rep_def)

lemma sb_limit_end: "sb_rep sh sb T \<Longrightarrow> sb_start sb \<noteq> None \<Longrightarrow> sb_end sb = Some e \<Longrightarrow> e = int (sb_limit sh)"
  by (cases sh) (auto simp: sb_rep_def sb_limit_def sb_ok_def split: option.splits)

lemma sb_limit_none: "sb_rep sh sb T \<Longrightarrow> sb_start sb \<noteq> None \<Longrightarrow> sb_end sb = None \<Longrightarrow>
  sb_fits sh (T @ s) \<Longrightarrow> length T + length s \<le> sb_limit sh"
  by (cases sh) (auto simp: sb_rep_def sb_limit_def sb_ok_def sb_fits_def split: option.splits)

lemma ncat_appends:
  assumes "0 \<notin> set s"
  shows "appends (sb_rep sh) (sb_fits sh) (\<lambda>sb. strbuf_ncat sb (s @ 0 # text) (length s)) s"
proof (rule appends_strbufI)
  fix sb T assume rep: "sb_rep sh sb T" and fits: "sb_fits sh (T @ s)"
  show "\<exists>sb'. strbuf_ncat sb (s @ 0 # text) (length s) = Some sb' \<and> sb_append_text sh sb s sb'"
  proof (cases "sb_writable sb")
    case True
    then have st: "sb_start sb \<noteq> None" by (simp add: sb_writable_def)
    have cur: "sb_current sb = int (length T)" using rep by (simp add: sb_rep_def)
    define n where "n = (case sb_end sb of Some e \<Rightarrow> min (nat (e - sb_current sb)) (length s) | None \<Rightarrow> length s)"
    have tk: "take n s = take (sb_limit sh - length T) s" and le: "length T \<le> sb_limit sh"
      using True sb_limit_end[OF rep st] sb_limit_none[OF rep st _ fits] cur
      by (auto simp: n_def sb_writable_def split: option.splits)
    obtain m where m: "sb_start sb = Some m" using st by auto
    from sb_block[OF rep st le, of s] show ?thesis
      using ncat_loop_block[OF assms m, of "int (length T)" "text" n, unfolded tk] True cur
      by (auto simp: strbuf_ncat_def n_def[symmetric] Option.bind_eq_Some_conv)
  next
    case False
    then have "sb_start sb = None \<or> \<not> length T < sb_limit sh"
      using sb_limit_end[OF rep] rep by (auto simp: sb_writable_def sb_rep_def split: option.splits)
    from sb_no_block[OF rep this, of s] False show ?thesis by (simp add: strbuf_ncat_def)
  qed
qed

lemma puts_appends:
  assumes "0 \<notin> set s"
  shows "appends (sb_rep sh) (sb_fits sh) (\<lambda>sb. strbuf_puts sb (s @ 0 # text)) s"
proof (rule appends_strbufI)
  fix sb T assume rep: "sb_rep sh sb T" and fits: "sb_fits sh (T @ s)"
  have cur: "sb_current sb = int (length T)" using rep by (simp add: sb_rep_def)
  show "\<exists>sb'. strbuf_puts sb (s @ 0 # text) = Some sb' \<and> sb_append_text sh sb s sb'"
  proof (cases "sb_writable sb")
    case True
    then have st: "sb_start sb \<noteq> None" by (simp add: sb_writable_def)
    obtain m where m: "sb_start sb = Some m" using st by auto
    define n where "n = (case sb_end sb of Some e \<Rightarrow> nat (e - sb_current sb) | None \<Rightarrow> Suc (length s))"
    have tk: "take n s = take (sb_limit sh - length T) s" and le: "length T \<le> sb_limit sh"
      using True sb_limit_end[OF rep st] sb_limit_none[OF rep st _ fits] cur
      by (auto simp: n_def sb_writable_def split: option.splits)
    obtain sb1 where sb1: "c_vsprintf sb (int (length T)) (take (sb_limit sh - length T) s) = Some sb1"
      "sb_current sb1 = sb_current sb" "sb_append_text sh sb s (sb1\<lparr>sb_current := sb_current sb + int (length s)\<rparr>)"
      using sb_block[OF rep st le, of s] by blast
    have "strbuf_puts sb (s @ 0 # text) = Some (sb1\<lparr>sb_current := sb_current sb + int (length s)\<rparr>)"
    proof (cases "sb_end sb")
      case None
      then have "take (sb_limit sh - length T) s = s" using sb_limit_none[OF rep st None fits] by simp
      then show ?thesis using None puts_loop_block[OF assms m, of "text"] sb1(1,2) m cur
        by (simp add: strbuf_puts_def)
    next
      case (Some e)
      then show ?thesis using puts_nloop_block[OF assms m, of "text" n, unfolded tk cur] sb1(1,2) True m cur
        by (simp add: strbuf_puts_def n_def sb_writable_def split_beta')
    qed
    then show ?thesis using sb1(3) by blast
  next
    case False
    then have "sb_start sb = None \<or> \<not> length T < sb_limit sh"
      using sb_limit_end[OF rep] rep by (auto simp: sb_writable_def sb_rep_def split: option.splits)
    from sb_no_block[OF rep this, of s] False show ?thesis
      using puts_count_eq[OF assms, of sb "text"]
      by (auto simp: strbuf_puts_def sb_writable_def split: option.splits)
  qed
qed

lemma putc_appends: "appends (sb_rep sh) (sb_fits sh) (\<lambda>sb. strbuf_putc sb c) [c]"
proof (rule appends_strbufI)
  fix sb T assume rep: "sb_rep sh sb T" and fits: "sb_fits sh (T @ [c])"
  have cur: "sb_current sb = int (length T)" using rep by (simp add: sb_rep_def)
  show "\<exists>sb'. strbuf_putc sb c = Some sb' \<and> sb_append_text sh sb [c] sb'"
  proof (cases "sb_writable sb")
    case True
    then have st: "sb_start sb \<noteq> None" by (simp add: sb_writable_def)
    obtain m where m: "sb_start sb = Some m" using st by auto
    have lt: "length T < sb_limit sh"
      using True sb_limit_end[OF rep st] sb_limit_none[OF rep st _ fits] cur
      by (auto simp: sb_writable_def split: option.splits)
    obtain sb1 where sb1: "c_vsprintf sb (int (length T)) (take (sb_limit sh - length T) [c]) = Some sb1"
      "sb_current sb1 = sb_current sb" "sb_append_text sh sb [c] (sb1\<lparr>sb_current := sb_current sb + 1\<rparr>)"
      using sb_block[OF rep st _, of "[c]"] lt by auto
    have "c_vsprintf sb (int (length T)) [c] = Some sb1" using sb1(1) lt by (cases "sb_limit sh - length T") auto
    then have "Option.bind (sb_put sb (sb_current sb) c) (\<lambda>sb. sb_put sb (sb_current sb + 1) 0) = Some sb1"
      using sb_putn_step[OF m, of "int (length T)" c "[]"] cur sb_put_keeps[of sb "int (length T)" c]
      by (auto simp: sb_put_nul Option.bind_eq_Some_conv)
    then show ?thesis using True sb1(2,3) by (simp add: strbuf_putc_def)
  next
    case False
    then have "sb_start sb = None \<or> \<not> length T < sb_limit sh"
      using sb_limit_end[OF rep] rep by (auto simp: sb_writable_def sb_rep_def split: option.splits)
    from sb_no_block[OF rep this, of "[c]"] False show ?thesis by (simp add: strbuf_putc_def)
  qed
qed

lemma sprintf_appends: "appends (sb_rep sh) (sb_fits sh) (\<lambda>sb. strbuf_sprintf sb s) s"
proof (rule appends_strbufI)
  fix sb T assume rep: "sb_rep sh sb T" and fits: "sb_fits sh (T @ s)"
  have cur: "sb_current sb = int (length T)" using rep by (simp add: sb_rep_def)
  show "\<exists>sb'. strbuf_sprintf sb s = Some sb' \<and> sb_append_text sh sb s sb'"
  proof (cases "sb_writable sb")
    case True
    then have st: "sb_start sb \<noteq> None" by (simp add: sb_writable_def)
    have le: "length T \<le> sb_limit sh"
      using True sb_limit_end[OF rep st] sb_limit_none[OF rep st _ fits] cur
      by (auto simp: sb_writable_def split: option.splits)
    obtain sb1 where sb1: "c_vsprintf sb (int (length T)) (take (sb_limit sh - length T) s) = Some sb1"
      "sb_current sb1 = sb_current sb" "sb_append_text sh sb s (sb1\<lparr>sb_current := sb_current sb + int (length s)\<rparr>)"
      using sb_block[OF rep st le, of s] by blast
    have "strbuf_sprintf sb s = Some (sb1\<lparr>sb_current := sb_current sb + int (length s)\<rparr>)"
    proof (cases "sb_end sb")
      case None
      then have "take (sb_limit sh - length T) s = s" using sb_limit_none[OF rep st None fits] by simp
      then show ?thesis using None sb1(1,2) st cur by (simp add: strbuf_sprintf_def)
    next
      case (Some e)
      have e: "e = int (sb_limit sh)" by (rule sb_limit_end[OF rep st Some])
      have "sb_put sb1 e 0 = Some sb1" if "length s \<ge> sb_limit sh - length T"
      proof -
        let ?sb' = "sb1\<lparr>sb_current := sb_current sb + int (length s)\<rparr>"
        have r: "sb_rep sh ?sb' (T @ s)" by (rule sb_append_rep[OF rep fits sb1(3)])
        have "sb_start sb1 \<noteq> None" using sb1(1) by (auto simp: c_vsprintf_def Option.bind_eq_Some_conv)
        moreover have "min (length (T @ s)) (sb_limit sh) = sb_limit sh" using that by simp
        ultimately have "sb_put ?sb' e 0 = Some ?sb'" using sb_renul[OF r] e by simp
        then show ?thesis by (rule sb_put_same)
      qed
      then show ?thesis using Some sb1(1,2) st cur True e
        by (auto simp: strbuf_sprintf_def c_vsnprintf_def sb_writable_def nat_add_distrib Let_def)
    qed
    then show ?thesis using sb1(3) by blast
  next
    case False
    then have "sb_start sb = None \<or> \<not> length T < sb_limit sh"
      using sb_limit_end[OF rep] rep by (auto simp: sb_writable_def sb_rep_def split: option.splits)
    from sb_no_block[OF rep this, of s] False show ?thesis
      by (auto simp: strbuf_sprintf_def sb_writable_def split: option.splits)
  qed
qed

definition hexpairs :: "byte list \<Rightarrow> byte list" where
  "hexpairs data = concat (map (\<lambda>d. [hexdigit (drop_bit 4 d), hexdigit (d AND 0xf)]) data)"

lemma hexpairs_simps [simp]:
  "hexpairs [] = []" "hexpairs (d # ds) = hexdigit (drop_bit 4 d) # hexdigit (d AND 0xf) # hexpairs ds"
  "length (hexpairs ds) = 2 * length ds"
  by (simp_all add: hexpairs_def) (induction ds; simp)

text \<open>The hex loop writes whole pairs, so it may write the byte at the end pointer, which the
  nul then replaces.\<close>

lemma tohex_loop_block:
  assumes "sb_start sb = Some m" "p \<le> e" "0 \<le> p" "e \<le> p + 2 * int (length data)" "e < int (length m)"
  shows "Option.bind (tohex_loop sb p e data) (\<lambda>sb. sb_put sb e 0) = c_vsprintf sb p (take (nat (e - p)) (hexpairs data))"
  using assms
proof (induction data arbitrary: sb p m)
  case Nil
  then show ?case by (simp add: tohex_loop.simps sb_put_nul)
next
  case (Cons d data)
  let ?a = "hexdigit (drop_bit 4 d)" and ?b = "hexdigit (d AND 0xf)"
  consider "p = e" | "p + 1 = e" | "p + 2 \<le> e" using Cons.prems by linarith
  then show ?case
  proof cases
    case 1
    then show ?thesis by (simp add: tohex_loop.simps sb_put_nul)
  next
    case 2
    have *: "tohex_loop sb (p + 2) e data = Some sb" for sb data using 2 by (simp add: tohex_loop.simps)
    have "nat (e - p) = Suc 0" "nat e = Suc (nat p)" using 2 Cons.prems(3) by auto
    then show ?thesis using 2 Cons.prems
      by (simp add: tohex_loop.simps[of sb p] * c_get_def sb_put_def c_put_def c_vsprintf_def c_putn_def
          upd_conv_take_nth_drop)
  next
    case 3
    obtain sb1 m1 where sb1: "sb_put sb p ?a = Some sb1" "sb_start sb1 = Some m1" "length m1 = length m"
      using Cons.prems 3 by (simp add: sb_put_def c_put_def)
    obtain sb2 m2 where sb2: "sb_put sb1 (p + 1) ?b = Some sb2" "sb_start sb2 = Some m2" "length m2 = length m"
      using Cons.prems 3 sb1 by (simp add: sb_put_def c_put_def)
    have "nat (e - p) = Suc (Suc (nat (e - (p + 2))))" using 3 by simp
    then have tk: "take (nat (e - p)) (hexpairs (d # data)) = ?a # ?b # take (nat (e - (p + 2))) (hexpairs data)" by simp
    have "Option.bind (tohex_loop sb2 (p + 2) e data) (\<lambda>sb. sb_put sb e 0) = c_vsprintf sb2 (p + 2) (take (nat (e - (p + 2))) (hexpairs data))"
      using Cons.IH[OF sb2(2), of "p + 2"] Cons.prems 3 sb2(3) by simp
    then show ?thesis
      using sb1 sb2 3 sb_putn_step[OF Cons.prems(1), of p ?a "?b # take (nat (e - (p + 2))) (hexpairs data)"]
        sb_putn_step[OF sb1(2), of "p + 1" ?b "take (nat (e - (p + 2))) (hexpairs data)"]
      unfolding tk by (simp add: tohex_loop.simps[of sb p] c_get_def add.commute)
  qed
qed

lemma tohex_appends: "appends (sb_rep sh) (sb_fits sh) (\<lambda>sb. strbuf_tohex sb data (length data)) (hexpairs data)"
proof (rule appends_strbufI)
  fix sb T assume rep: "sb_rep sh sb T" and fits: "sb_fits sh (T @ hexpairs data)"
  have cur: "sb_current sb = int (length T)" using rep by (simp add: sb_rep_def)
  let ?s = "hexpairs data" and ?sb = "sb\<lparr>sb_current := sb_current sb + int (length data) * 2\<rparr>"
  show "\<exists>sb'. strbuf_tohex sb data (length data) = Some sb' \<and> sb_append_text sh sb ?s sb'"
  proof (cases "sb_start sb")
    case None
    then show ?thesis by (simp add: strbuf_tohex_def sb_append_text_def mult.commute)
  next
    case (Some m)
    then have st: "sb_start sb \<noteq> None" by simp
    have L: "sb_limit sh < length m" by (rule sb_rep_limit[OF rep Some])
    define e where "e = (case sb_end sb of Some e \<Rightarrow> (if sb_current ?sb > e then e else sb_current ?sb) | None \<Rightarrow> sb_current ?sb)"
    have e: "e = int (min (length (T @ ?s)) (sb_limit sh))"
      using sb_limit_end[OF rep st] sb_limit_none[OF rep st _ fits] cur by (auto simp: e_def split: option.splits)
    have tox: "strbuf_tohex sb data (length data) = Option.bind (tohex_loop ?sb (int (length T)) e data) (\<lambda>sb. sb_put sb e 0)"
      using Some cur by (cases "sb_end sb") (simp_all add: strbuf_tohex_def e_def Let_def)
    show ?thesis
    proof (cases "length T \<le> sb_limit sh")
      case True
      have "take (nat (e - int (length T))) ?s = take (sb_limit sh - length T) ?s" using e True by (auto simp: min_def)
      then have "strbuf_tohex sb data (length data) = c_vsprintf ?sb (int (length T)) (take (sb_limit sh - length T) ?s)"
        using tox tohex_loop_block[of ?sb m "int (length T)" e data] Some e True L by (simp add: min_def)
      moreover have "c_vsprintf ?sb (int (length T)) v = map_option (\<lambda>sb. sb\<lparr>sb_current := sb_current ?sb\<rparr>) (c_vsprintf sb (int (length T)) v)" for v
        by (cases "c_putn m (int (length T)) (v @ [0])") (simp_all add: c_vsprintf_def Some)
      ultimately show ?thesis using sb_block[OF rep st True, of ?s] by (auto simp: mult.commute)
    next
      case False
      then have "strbuf_tohex sb data (length data) = sb_put ?sb e 0"
        using tox e by (simp add: tohex_loop.simps[of _ "int (length T)"])
      also have "\<dots> = Some ?sb"
        using sb_renul[OF rep st] False e sb_put_current[of "sb_current ?sb" sb e 0] by (simp add: min_def)
      finally show ?thesis using sb_no_block[OF rep, of ?s] False by (simp add: mult.commute)
    qed
  qed
qed

text \<open>Truncation keeps a prefix: from the front for an offset, back from the end of the
  string kept for a negative one.\<close>

definition trunc_text :: "sb_shape \<Rightarrow> byte list \<Rightarrow> int \<Rightarrow> byte list" where
  "trunc_text sh T offset =
     (if offset < 0 then take (nat ((case snd sh of Some e \<Rightarrow> min (int (length T)) e | None \<Rightarrow> int (length T)) + offset)) T
      else take (nat offset) T)"

lemma sb_rep_trunc:
  assumes rep: "sb_rep sh sb T" and k: "k \<le> length T"
  shows "\<exists>sb'. (let sb = sb\<lparr>sb_current := int k\<rparr> in if sb_writable sb then sb_put sb (sb_current sb) 0 else Some sb) = Some sb' \<and>
    sb_rep sh sb' (take k T)"
proof (cases "sb_start sb")
  case None
  then show ?thesis using assms by (auto simp: Let_def sb_writable_def sb_rep_def sb_fits_def split: prod.splits option.splits)
next
  case (Some m)
  then have st: "sb_start sb \<noteq> None" by simp
  let ?L = "sb_limit sh" and ?sb = "sb\<lparr>sb_current := int k\<rparr>"
  have L: "?L < length m" by (rule sb_rep_limit[OF rep Some])
  have tk: "take (Suc (min (length T) ?L)) m = take ?L T @ [0]" using rep Some by (simp add: sb_rep_def)
  have fits: "sb_fits sh (take k T)" using rep k by (auto simp: sb_rep_def sb_fits_def split: prod.splits option.splits)
  have w: "sb_writable ?sb \<longleftrightarrow> k < ?L \<or> sb_end sb = None"
    using sb_limit_end[OF rep st] st by (auto simp: sb_writable_def split: option.splits)
  have le: "sb_end sb = None \<Longrightarrow> length T \<le> ?L" using sb_limit_none[OF rep st, of "[]"] rep by (simp add: sb_rep_def)
  show ?thesis
  proof (cases "sb_writable ?sb")
    case True
    then have kL: "k \<le> ?L" using w le k by auto
    have "take k (take (Suc (min (length T) ?L)) m) = take k (take ?L T @ [0])" using tk by simp
    then have "take k m = take k T" using k kL by (simp add: min_def split: if_splits)
    then have "take (Suc k) (m[k := 0]) = take k T @ [0]" using L kL by (simp add: take_Suc_conv_app_nth)
    moreover have "sb_put ?sb (int k) 0 = Some (?sb\<lparr>sb_start := Some (m[k := 0])\<rparr>)"
      using Some L kL by (simp add: sb_put_def c_put_def)
    ultimately show ?thesis using rep True Some k kL fits by (auto simp: sb_rep_def Let_def min_def)
  next
    case False
    then have kL: "?L \<le> k" using w by auto
    then have "take ?L (take k T) = take ?L T" "min (length (take k T)) ?L = min (length T) ?L" using k by (auto simp: min_def)
    then show ?thesis using rep False Some fits tk k by (auto simp: sb_rep_def Let_def min_def)
  qed
qed

lemma trunc_rep:
  assumes rep: "sb_rep sh sb T"
  shows "\<exists>sb'. strbuf_trunc sb offset = Some sb' \<and> sb_rep sh sb' (trunc_text sh T offset)"
proof -
  define k where "k = length (trunc_text sh T offset)"
  have k: "k \<le> length T" by (simp add: k_def trunc_text_def)
  have t: "trunc_text sh T offset = take k T" by (auto simp: k_def trunc_text_def min_def)
  have cur: "sb_current sb = int (length T)" "sb_end sb = snd sh" using rep by (simp_all add: sb_rep_def)
  have "int k = (if offset < 0 then (if offset \<le> 0 - strbuf_end sb then 0 else strbuf_end sb + offset)
      else if offset < sb_current sb then offset else sb_current sb)"
    using cur by (cases "snd sh") (auto simp: k_def trunc_text_def strbuf_end_def)
  moreover have "sb = sb\<lparr>sb_current := sb_current sb\<rparr>" by simp
  ultimately have "strbuf_trunc sb offset = (let sb = sb\<lparr>sb_current := int k\<rparr> in if sb_writable sb then sb_put sb (sb_current sb) 0 else Some sb)"
    by (auto simp: strbuf_trunc_def Let_def)
  then show ?thesis using sb_rep_trunc[OF rep k] t by simp
qed

lemma reset_rep: "sb_rep sh sb T \<Longrightarrow> \<exists>sb'. strbuf_reset sb = Some sb' \<and> sb_rep sh sb' []"
proof -
  assume rep: "sb_rep sh sb T"
  have w: "sb_start sb \<noteq> None \<Longrightarrow> sb_writable (sb\<lparr>sb_current := 0\<rparr>) \<or> sb_limit sh = 0"
    using sb_limit_end[OF rep] by (auto simp: sb_writable_def split: option.splits)
  show ?thesis
  proof (cases "sb_start sb")
    case None
    then show ?thesis using sb_rep_trunc[OF rep, of 0] by (simp add: strbuf_reset_def sb_writable_def Let_def)
  next
    case (Some m)
    then have L: "sb_limit sh < length m" using sb_rep_limit[OF rep] by simp
    then have "strbuf_reset sb = Some (sb\<lparr>sb_start := Some (m[0 := 0]), sb_current := 0\<rparr>)"
      using Some by (auto simp: strbuf_reset_def sb_put_def c_put_def)
    moreover have "take (Suc 0) (m[0 := 0]) = [0]" using L by (cases m) auto
    ultimately show ?thesis using rep Some
      by (auto simp: sb_rep_def sb_fits_def sb_ok_def split: prod.splits option.splits)
  qed
qed

lemma init_rep:
  assumes "1 \<le> sz" "sz \<le> int (length b)"
  shows "\<exists>sb. strbuf_init (Some b) sz = Some sb \<and> sb_rep (Some (length b), Some (sz - 1)) sb []"
proof -
  have "b \<noteq> []" using assms by auto
  then have "take (Suc 0) (b[0 := 0]) = [0]" by (cases b) auto
  then show ?thesis using assms
    by (auto simp: strbuf_init_def strbuf_reset_def sb_put_def c_put_def sb_rep_def sb_ok_def sb_fits_def sb_limit_def)
qed

text \<open>The C string in a buffer.\<close>

definition c_string :: "byte list \<Rightarrow> byte list" where
  "c_string m = takeWhile (\<lambda>c. c \<noteq> 0) m"

definition sb_string :: "strbuf \<Rightarrow> byte list option" where
  "sb_string sb = map_option c_string (sb_start sb)"

lemma sb_string_rep:
  assumes "sb_rep sh sb T" "0 \<notin> set T" "sb_start sb \<noteq> None"
  shows "sb_string sb = Some (take (sb_limit sh) T)"
proof -
  obtain m where m: "sb_start sb = Some m" using assms(3) by auto
  have "take (Suc (min (length T) (sb_limit sh))) m = take (sb_limit sh) T @ [0]"
    using assms(1) m by (simp add: sb_rep_def)
  then obtain r where "m = take (sb_limit sh) T @ 0 # r"
    by (metis append.assoc append_Cons append_Nil append_take_drop_id)
  moreover have "0 \<notin> set (take (sb_limit sh) T)" using assms(2) in_set_takeD by fast
  then have "takeWhile (\<lambda>c. c \<noteq> 0) (take (sb_limit sh) T @ 0 # r) = take (sb_limit sh) T"
    by (subst takeWhile_append2) auto
  ultimately show ?thesis using m by (simp add: sb_string_def c_string_def)
qed

subsection \<open>Sequences of operations\<close>

datatype sb_op =
  SPuts "byte list" | SPutc byte | SNcat "byte list" | STohex "byte list" | SSprintf "byte list"
| STrunc int | SReset

fun sb_exec :: "strbuf \<Rightarrow> sb_op \<Rightarrow> strbuf option" where
  "sb_exec sb (SPuts s) = strbuf_puts sb (s @ [0])"
| "sb_exec sb (SPutc c) = strbuf_putc sb c"
| "sb_exec sb (SNcat s) = strbuf_ncat sb (s @ [0]) (length s)"
| "sb_exec sb (STohex data) = strbuf_tohex sb data (length data)"
| "sb_exec sb (SSprintf out) = strbuf_sprintf sb out"
| "sb_exec sb (STrunc offset) = strbuf_trunc sb offset"
| "sb_exec sb SReset = strbuf_reset sb"

text \<open>What each operation does to the text.\<close>

fun text_exec :: "sb_shape \<Rightarrow> byte list \<Rightarrow> sb_op \<Rightarrow> byte list" where
  "text_exec sh T (SPuts s) = T @ s"
| "text_exec sh T (SPutc c) = T @ [c]"
| "text_exec sh T (SNcat s) = T @ s"
| "text_exec sh T (STohex data) = T @ hexpairs data"
| "text_exec sh T (SSprintf out) = T @ out"
| "text_exec sh T (STrunc offset) = trunc_text sh T offset"
| "text_exec sh T SReset = []"

fun op_chars :: "sb_op \<Rightarrow> byte list" where
  "op_chars (SPuts s) = s"
| "op_chars (SPutc c) = [c]"
| "op_chars (SNcat s) = s"
| "op_chars (SSprintf s) = s"
| "op_chars _ = []"

lemma sb_exec_rep:
  assumes "sb_rep sh sb T" "sb_fits sh (text_exec sh T op)" "0 \<notin> set (op_chars op)"
  shows "\<exists>sb'. sb_exec sb op = Some sb' \<and> sb_rep sh sb' (text_exec sh T op)"
  using assms
proof (cases op)
  case (SPuts s)
  then show ?thesis using assms sb.appendsD[OF puts_appends[of s sh "[]"]] by auto
next
  case (SPutc c)
  then show ?thesis using assms sb.appendsD[OF putc_appends[of sh c]] by auto
next
  case (SNcat s)
  then show ?thesis using assms sb.appendsD[OF ncat_appends[of s sh "[]"]] by auto
next
  case (STohex data)
  then show ?thesis using assms sb.appendsD[OF tohex_appends[of sh data]] by auto
next
  case (SSprintf out)
  then show ?thesis using assms sb.appendsD[OF sprintf_appends[of sh out]] by auto
next
  case (STrunc offset)
  then show ?thesis using assms trunc_rep by auto
next
  case SReset
  then show ?thesis using assms reset_rep by auto
qed

lemma hexdigit_nonzero: "unat n < 16 \<Longrightarrow> hexdigit n \<noteq> 0"
proof -
  assume "unat n < 16"
  then have "hexdigit n \<in> set (cs ''0123456789ABCDEF'')" unfolding hexdigit_def by (intro nth_mem) simp
  moreover have "0 \<notin> set (cs ''0123456789ABCDEF'')" by simp
  ultimately show ?thesis by metis
qed

lemma nibbles_less: "unat (drop_bit 4 (d :: byte)) < 16" "unat (d AND 0xf) < 16"
proof -
  show "unat (drop_bit 4 d) < 16" using unsigned_less[of d, where 'a = nat]
    by (subst unat_drop_bit_eq) (simp add: drop_bit_eq_div)
  have "d AND 0xf = take_bit 4 d" by (simp add: take_bit_eq_mask mask_eq_exp_minus_1)
  moreover have "unat (take_bit 4 d) < 2 ^ 4" by (simp only: unsigned_take_bit_eq take_bit_nat_less_exp)
  ultimately show "unat (d AND 0xf) < 16" by simp
qed

lemma hexpairs_nonzero: "0 \<notin> set (hexpairs data)"
  by (induction data) (use hexdigit_nonzero nibbles_less in \<open>metis hexpairs_simps(1) empty_iff list.set(1), metis hexpairs_simps(2) set_ConsD\<close>)

lemma text_exec_nonzero:
  "0 \<notin> set T \<Longrightarrow> 0 \<notin> set (op_chars op) \<Longrightarrow> 0 \<notin> set (text_exec sh T op)"
  by (cases op) (auto simp: trunc_text_def hexpairs_nonzero dest: in_set_takeD)

lemma sb_foldo_rep:
  assumes "sb_rep sh sb T" "snd sh \<noteq> None" "\<forall>op \<in> set ops. 0 \<notin> set (op_chars op)" "0 \<notin> set T"
  shows "\<exists>sb'. foldo sb_exec sb ops = Some sb' \<and> sb_rep sh sb' (foldl (text_exec sh) T ops) \<and>
    0 \<notin> set (foldl (text_exec sh) T ops)"
  using assms
proof (induction ops arbitrary: sb T)
  case (Cons op ops)
  have "sb_fits sh T" for T using assms(2) by (auto simp: sb_fits_def split: prod.splits option.splits)
  then obtain sb1 where "sb_exec sb op = Some sb1" "sb_rep sh sb1 (text_exec sh T op)"
    using sb_exec_rep[OF Cons.prems(1), of op] Cons.prems(3) by auto
  then show ?case using Cons text_exec_nonzero[of T op sh] by simp
qed simp

subsection \<open>Printable representation\<close>

definition esc :: "byte \<Rightarrow> byte list" where
  "esc c =
     (if c = 0 then [backslash, 0x30] else if c = 0x0A then [backslash, 0x6E]
      else if c = 0x0D then [backslash, 0x72] else if c = 0x09 then [backslash, 0x74]
      else if c = backslash then [backslash, backslash]
      else if c \<ge> 0x20 \<and> c \<le> 0x7E then [c]
      else backslash # 0x78 # printf_02x c)"

definition quoted_esc :: "(byte \<times> byte) option \<Rightarrow> byte \<Rightarrow> byte list" where
  "quoted_esc quotes c =
     (if quotes \<noteq> None \<and> c = snd (the quotes) then [backslash, c] else esc c)"

definition quote_char :: "byte \<Rightarrow> byte list" where
  "quote_char q = (if q \<noteq> 0 then [q] else [])"

definition quoted_text :: "(byte \<times> byte) option \<Rightarrow> byte list \<Rightarrow> byte list" where
  "quoted_text quotes data =
     (case quotes of Some (a, _) \<Rightarrow> quote_char a | None \<Rightarrow> []) @
     concat (map (quoted_esc quotes) data) @
     (case quotes of Some (_, b) \<Rightarrow> quote_char b | None \<Rightarrow> [])"

lemma toprint_char_appends: "appends (sb_rep sh) (sb_fits sh) (\<lambda>sb. toprint_char sb c) (esc c)"
proof -
  note puts = puts_appends[of "[backslash, 0x30]" sh "[]"] puts_appends[of "[backslash, 0x6E]" sh "[]"]
    puts_appends[of "[backslash, 0x72]" sh "[]"] puts_appends[of "[backslash, 0x74]" sh "[]"]
    puts_appends[of "[backslash, backslash]" sh "[]"]
  define printable where "printable \<longleftrightarrow> c \<ge> 0x20 \<and> c \<le> 0x7E"
  have "toprint_char sb c =
     (if c = 0 then strbuf_puts sb [backslash, 0x30, 0] else if c = 0x0A then strbuf_puts sb [backslash, 0x6E, 0]
      else if c = 0x0D then strbuf_puts sb [backslash, 0x72, 0] else if c = 0x09 then strbuf_puts sb [backslash, 0x74, 0]
      else if c = backslash then strbuf_puts sb [backslash, backslash, 0]
      else if printable then strbuf_putc sb c else strbuf_sprintf sb (backslash # 0x78 # printf_02x c))" for sb
    by (simp add: toprint_char_def printable_def cong: if_cong)
  then show ?thesis
    using puts putc_appends[of sh c] sprintf_appends[of sh "backslash # 0x78 # printf_02x c"]
    by (simp add: esc_def printable_def[symmetric])
qed

lemma quoted_char_appends:
  "appends (sb_rep sh) (sb_fits sh) (\<lambda>sb. quoted_char quotes sb c) (quoted_esc quotes c)"
  using sb.appends_seq[OF putc_appends[of sh backslash] putc_appends[of sh c]] toprint_char_appends[of sh c]
  by (cases "quotes \<noteq> None \<and> c = snd (the quotes)") (simp_all only: quoted_char_def quoted_esc_def if_True if_False append_Cons append_Nil simp_thms)

lemma quote_appends:
  "appends (sb_rep sh) (sb_fits sh) (open_quote quotes) (case quotes of Some (a, _) \<Rightarrow> quote_char a | None \<Rightarrow> [])"
  "appends (sb_rep sh) (sb_fits sh) (close_quote quotes) (case quotes of Some (_, b) \<Rightarrow> quote_char b | None \<Rightarrow> [])"
  using putc_appends[of sh] sb.appends_nil[of sh]
  by (auto simp: open_quote_def close_quote_def quote_char_def appends_def split: option.splits)

definition overlong :: "sb_shape \<Rightarrow> byte list \<Rightarrow> bool" where
  "overlong sh T = (case snd sh of Some e \<Rightarrow> int (length T) > e | None \<Rightarrow> False)"

lemma overrun_rep: "sb_rep sh sb T \<Longrightarrow> strbuf_overrun sb = overlong sh T"
  by (auto simp: sb_rep_def strbuf_overrun_def overlong_def split: option.splits)

lemma overlong_mono: "overlong sh T \<Longrightarrow> overlong sh (T @ s)"
  by (auto simp: overlong_def split: option.splits)

text \<open>The loops stop early once the text no longer fits.\<close>

lemma quoted_len_loop_rep:
  assumes "sb_rep sh sb T" "sb_fits sh (T @ concat (map (quoted_esc quotes) data))"
  shows "\<exists>sb' n. quoted_len_loop quotes sb (data @ rest) (length data) = Some sb' \<and>
    sb_rep sh sb' (T @ concat (map (quoted_esc quotes) (take n data))) \<and>
    (take n data \<noteq> data \<longrightarrow> overlong sh (T @ concat (map (quoted_esc quotes) (take n data))))"
  using assms
proof (induction data arbitrary: sb T)
  case Nil
  then show ?case by simp
next
  case (Cons c data)
  show ?case
  proof (cases "strbuf_overrun sb")
    case True
    then show ?thesis using Cons.prems overrun_rep[OF Cons.prems(1)]
      by (intro exI[of _ sb] exI[of _ 0]) simp
  next
    case False
    have f: "sb_fits sh (T @ quoted_esc quotes c)"
      using Cons.prems(2) sb.fits_prefix[of sh "T @ quoted_esc quotes c"] by simp
    obtain sb1 where sb1: "quoted_char quotes sb c = Some sb1" "sb_rep sh sb1 (T @ quoted_esc quotes c)"
      using sb.appendsD[OF quoted_char_appends Cons.prems(1) f] by blast
    from Cons.IH[OF sb1(2)] Cons.prems(2)
    obtain sb' n where "quoted_len_loop quotes sb1 (data @ rest) (length data) = Some sb'"
      "sb_rep sh sb' (T @ concat (map (quoted_esc quotes) (take (Suc n) (c # data))))"
      "take n data \<noteq> data \<longrightarrow> overlong sh (T @ concat (map (quoted_esc quotes) (take (Suc n) (c # data))))"
      by auto
    then show ?thesis using False sb1(1)
      by (intro exI[of _ sb'] exI[of _ "Suc n"]) (simp add: c_get_def)
  qed
qed

lemma quoted_loop_len:
  "0 \<notin> set s \<Longrightarrow> quoted_loop quotes sb (s @ 0 # rest) = quoted_len_loop quotes sb (s @ 0 # rest) (length s)"
  by (induction s arbitrary: sb) (simp_all add: c_get_def cong: if_cong)

lemma toprint_len_is_quoted: "toprint_len_loop sb data len = quoted_len_loop None sb data len"
  by (induction len arbitrary: sb data) (simp_all add: quoted_char_def cong: if_cong)

lemma toprint_is_quoted: "toprint_loop sb str = quoted_loop None sb str"
  by (induction str arbitrary: sb) (simp_all add: quoted_char_def cong: if_cong)

text \<open>The text after the overrun handling: if the text does not fit, its end gives way to
  the quote and the dots.\<close>

definition cut_text :: "sb_shape \<Rightarrow> byte list \<Rightarrow> byte list \<Rightarrow> byte list" where
  "cut_text sh T suffix =
     (if overlong sh T then trunc_text sh T (- int (length suffix)) @ suffix else T)"

lemma overrun_quote_rep:
  assumes "sb_rep sh sb T"
  shows "\<exists>sb'. overrun_quote sb q (lit ''...'') = Some sb' \<and> sb_rep sh sb' (cut_text sh T (quote_char q @ cs ''...''))"
proof (cases "overlong sh T")
  case True
  let ?n = "- int (length (quote_char q @ cs ''...''))"
  have len: "- int (c_strlen (lit ''...'')) - (if q \<noteq> 0 then 1 else 0) = ?n"
    by (simp add: c_strlen_def quote_char_def)
  obtain sb1 where sb1: "strbuf_trunc sb ?n = Some sb1" "sb_rep sh sb1 (trunc_text sh T ?n)"
    using trunc_rep[OF assms] by blast
  have "appends (sb_rep sh) (sb_fits sh) (\<lambda>sb. if q \<noteq> 0 then strbuf_putc sb q else Some sb) (quote_char q)"
    using putc_appends[of sh q] sb.appends_nil[of sh] by (auto simp: quote_char_def appends_def)
  from sb.appends_seq[OF this puts_appends[of "cs ''...''" sh "[]"]]
  have "appends (sb_rep sh) (sb_fits sh)
      (\<lambda>x. Option.bind (if q \<noteq> 0 then strbuf_putc x q else Some x) (\<lambda>sb. strbuf_puts sb (lit ''...'')))
      (quote_char q @ cs ''...'')" by simp
  moreover have "sb_fits sh X" for X using True by (auto simp: overlong_def sb_fits_def split: prod.splits option.splits)
  ultimately show ?thesis using sb1 True overrun_rep[OF assms] len
    by (auto simp: overrun_quote_def cut_text_def appends_def)
next
  case False
  then show ?thesis using assms overrun_rep[OF assms] by (simp add: overrun_quote_def cut_text_def)
qed

lemma cut_text_kept:
  assumes "snd sh = Some (int e)" "overlong sh P" "F = P @ R"
  shows "take e (cut_text sh P s) = take e (cut_text sh F s)"
proof -
  have "overlong sh F" using assms overlong_mono by simp
  moreover have "length P > e" using assms by (simp add: overlong_def)
  ultimately show ?thesis using assms
    by (auto simp: cut_text_def trunc_text_def min_def nat_diff_distrib)
qed

text \<open>What a reader of a buffer of \<open>e + 1\<close> bytes sees.\<close>

definition shown :: "nat \<Rightarrow> byte list \<Rightarrow> byte list \<Rightarrow> byte list" where
  "shown e F suffix = (if length F \<le> e then F else take e (take (e - length suffix) F @ suffix))"

lemma cut_text_shown:
  "snd sh = Some (int e) \<Longrightarrow> s \<noteq> [] \<Longrightarrow> take e (cut_text sh F s) = shown e F s"
  by (auto simp: cut_text_def overlong_def shown_def trunc_text_def min_def nat_diff_distrib)

lemma quoted_len_rep:
  assumes rep: "sb_rep sh sb T" and e: "snd sh = Some (int e)"
  shows "\<exists>sb' X. strbuf_toprint_quoted_len sb quotes (data @ rest) (length data) = Some sb' \<and> sb_rep sh sb' X \<and>
    take e X = shown e (T @ quoted_text quotes data) ((case quotes of Some (_, q) \<Rightarrow> quote_char q | None \<Rightarrow> []) @ cs ''...'')"
proof -
  have fits: "sb_fits sh X" for X using e by (auto simp: sb_fits_def split: prod.splits option.splits)
  let ?o = "case quotes of Some (a, _) \<Rightarrow> quote_char a | None \<Rightarrow> []"
  let ?c = "case quotes of Some (_, b) \<Rightarrow> quote_char b | None \<Rightarrow> []"
  let ?q = "case quotes of Some (_, q) \<Rightarrow> q | None \<Rightarrow> (0 :: byte)"
  have cq: "quote_char ?q = ?c" by (cases quotes) (auto simp: quote_char_def)
  obtain sb1 where sb1: "open_quote quotes sb = Some sb1" "sb_rep sh sb1 (T @ ?o)"
    using sb.appendsD[OF quote_appends(1) rep fits] by blast
  obtain sb2 n where sb2: "quoted_len_loop quotes sb1 (data @ rest) (length data) = Some sb2"
    "sb_rep sh sb2 ((T @ ?o) @ concat (map (quoted_esc quotes) (take n data)))"
    "take n data \<noteq> data \<longrightarrow> overlong sh ((T @ ?o) @ concat (map (quoted_esc quotes) (take n data)))"
    using quoted_len_loop_rep[OF sb1(2) fits] by blast
  let ?P = "(T @ ?o) @ concat (map (quoted_esc quotes) (take n data))"
  obtain sb3 where sb3: "close_quote quotes sb2 = Some sb3" "sb_rep sh sb3 (?P @ ?c)"
    using sb.appendsD[OF quote_appends(2) sb2(2) fits] by blast
  obtain sb4 where sb4: "overrun_quote sb3 ?q (lit ''...'') = Some sb4"
    "sb_rep sh sb4 (cut_text sh (?P @ ?c) (?c @ cs ''...''))"
    using overrun_quote_rep[OF sb3(2), of ?q] unfolding cq by blast
  let ?F = "T @ quoted_text quotes data"
  have "take e (cut_text sh (?P @ ?c) (?c @ cs ''...'')) = take e (cut_text sh ?F (?c @ cs ''...''))"
  proof (cases "take n data = data")
    case True
    then show ?thesis by (simp add: quoted_text_def)
  next
    case False
    have ol: "overlong sh ?P" using sb2(3) False by blast
    have "?F = ?P @ (concat (map (quoted_esc quotes) (drop n data)) @ ?c)"
      by (simp add: quoted_text_def flip: concat_append map_append)
    from cut_text_kept[OF e ol this] have a: "take e (cut_text sh ?P (?c @ cs ''...'')) = take e (cut_text sh ?F (?c @ cs ''...''))" .
    have b: "take e (cut_text sh ?P (?c @ cs ''...'')) = take e (cut_text sh (?P @ ?c) (?c @ cs ''...''))"
      by (rule cut_text_kept[OF e ol refl])
    show ?thesis by (rule trans[OF sym[OF b] a])
  qed
  then have "take e (cut_text sh (?P @ ?c) (?c @ cs ''...'')) = shown e ?F (?c @ cs ''...'')"
    using cut_text_shown[OF e, of "?c @ cs ''...''"] by simp
  then show ?thesis using sb1(1) sb2(1) sb3(1) sb4 by (auto simp: strbuf_toprint_quoted_len_def)
qed

subsection \<open>Shell quoting\<close>

definition shell_text :: "byte list \<Rightarrow> byte list" where
  "shell_text w = apostrophe #
     concat (map (\<lambda>c. if c = apostrophe then [apostrophe, backslash, apostrophe, apostrophe] else [c]) w) @ [apostrophe]"

lemma shell_loop_appends:
  assumes "0 \<notin> set w"
  shows "appends (sb_rep sh) (sb_fits sh) (\<lambda>sb. shell_quote_loop sb (w @ 0 # rest))
    (concat (map (\<lambda>c. if c = apostrophe then [apostrophe, backslash, apostrophe, apostrophe] else [c]) w))"
  using assms
proof (induction w)
  case Nil
  then show ?case using sb.appends_nil[of sh] by (simp add: appends_def)
next
  case (Cons c w)
  have "appends (sb_rep sh) (sb_fits sh)
      (\<lambda>sb. if c = apostrophe then strbuf_puts sb [apostrophe, backslash, apostrophe, apostrophe, 0] else strbuf_putc sb c)
      (if c = apostrophe then [apostrophe, backslash, apostrophe, apostrophe] else [c])"
    using puts_appends[of "[apostrophe, backslash, apostrophe, apostrophe]" sh "[]"] putc_appends[of sh c] by simp
  from sb.appends_seq[OF this Cons.IH] Cons.prems show ?case by simp
qed

lemma shell_quote_appends:
  assumes "0 \<notin> set w"
  shows "appends (sb_rep sh) (sb_fits sh) (\<lambda>sb. strbuf_append_shell_quote sb (w @ 0 # rest)) (shell_text w)"
proof -
  from sb.appends_seq[OF putc_appends[of sh apostrophe] sb.appends_seq[OF shell_loop_appends[OF assms, of sh rest] putc_appends[of sh apostrophe]]]
  show ?thesis by (simp add: strbuf_append_shell_quote_def[abs_def] shell_text_def)
qed

text \<open>A POSIX shell reading one word: within apostrophes every character stands for itself,
  outside a backslash quotes the next character, and an unquoted special character ends the
  word or is expanded (no literal word, \<open>None\<close>).\<close>

definition sh_special :: "byte \<Rightarrow> bool" where
  "sh_special c \<longleftrightarrow> c \<in> set (cs ''|&;<>()$` \<newline>*?[]#~=%!{}^'') \<or> c = 0x09 \<or> c = 0x22 \<or> c = 0"

fun sh_word :: "bool \<Rightarrow> byte list \<Rightarrow> byte list option" where
  "sh_word True [] = None"
| "sh_word True (c # w) = (if c = apostrophe then sh_word False w else map_option ((#) c) (sh_word True w))"
| "sh_word False [] = Some []"
| "sh_word False (c # w) =
     (if c = apostrophe then sh_word True w
      else if c = backslash then (case w of [] \<Rightarrow> None | d # w' \<Rightarrow> map_option ((#) d) (sh_word False w'))
      else if sh_special c then None else map_option ((#) c) (sh_word False w))"

lemma shell_text_word: "sh_word False (shell_text w) = Some w"
proof -
  have "sh_word True (concat (map (\<lambda>c. if c = apostrophe then [apostrophe, backslash, apostrophe, apostrophe] else [c]) w) @ [apostrophe]) = Some w"
    by (induction w) simp_all
  then show ?thesis by (simp add: shell_text_def)
qed

lemma not_shellmeta:
  assumes "\<not> is_shellmeta c"
  shows "\<not> sh_special c" "c \<noteq> apostrophe" "c \<noteq> backslash" "c \<noteq> 0"
proof -
  have r: "c \<le> 0x7A" "c \<ge> 0x2B" using assms by (auto simp: is_shellmeta_def c_isalnum_def word_le_nat_alt)
  show "\<not> sh_special c" "c \<noteq> apostrophe" "c \<noteq> backslash" "c \<noteq> 0"
    using assms by (auto simp: is_shellmeta_def c_isalnum_def sh_special_def word_le_nat_alt)
qed

lemma plain_word: "\<forall>c \<in> set w. \<not> is_shellmeta c \<Longrightarrow> sh_word False w = Some w"
  by (induction w) (simp_all add: not_shellmeta)

lemma hasmeta_eq: "0 \<notin> set w \<Longrightarrow> hasmeta (w @ 0 # rest) = Some (\<exists>c \<in> set w. is_shellmeta c)"
  by (induction w) auto

lemma quotemeta_appends:
  assumes "0 \<notin> set w"
  shows "\<exists>q. appends (sb_rep sh) (sb_fits sh) (\<lambda>sb. strbuf_append_shell_quotemeta sb (w @ 0 # rest)) q \<and>
    sh_word False q = Some w \<and> q \<noteq> []"
proof (cases "w = [] \<or> (\<exists>c \<in> set w. is_shellmeta c)")
  case True
  have "strbuf_append_shell_quotemeta sb (w @ 0 # rest) = strbuf_append_shell_quote sb (w @ 0 # rest)" for sb
    using True hasmeta_eq[OF assms, of rest] by (auto simp: strbuf_append_shell_quotemeta_def c_get_def)
  then show ?thesis using shell_quote_appends[OF assms, of sh rest] shell_text_word[of w]
    by (intro exI[of _ "shell_text w"]) (simp add: shell_text_def)
next
  case False
  moreover have "(w @ 0 # rest) ! 0 \<noteq> 0" using assms False by (cases w) auto
  ultimately have "strbuf_append_shell_quotemeta sb (w @ 0 # rest) = strbuf_puts sb (w @ 0 # rest)" for sb
    using hasmeta_eq[OF assms, of rest] by (simp add: strbuf_append_shell_quotemeta_def c_get_def)
  then show ?thesis using puts_appends[OF assms, of sh rest] plain_word[of w] False
    by (intro exI[of _ w]) simp
qed

subsection \<open>Properties\<close>



text \<open>C26. \<open>strbuf_append_shell_quotemeta\<close> appends text that a POSIX shell reads back as
  exactly the given word, whatever characters it contains; a word of harmless characters is
  left unquoted.\<close>

theorem shell_quotemeta_roundtrip:
  assumes "0 \<notin> set w" "sb_rep sh sb T" "snd sh \<noteq> None"
  shows "\<exists>sb' q. strbuf_append_shell_quotemeta sb (w @ [0]) = Some sb' \<and> sb_rep sh sb' (T @ q) \<and>
    sh_word False q = Some w \<and> q \<noteq> []"
proof -
  have "sb_fits sh X" for X using assms(3) by (auto simp: sb_fits_def split: prod.splits option.splits)
  then show ?thesis
    using quotemeta_appends[OF assms(1), of sh "[]"] sb.appendsD[OF _ assms(2)] by metis
qed

theorem shell_quotemeta_roundtrip_witness:
  "\<exists>sb sb' q. strbuf_init (Some (replicate 30 9)) 30 = Some sb \<and>
    strbuf_append_shell_quotemeta sb (cs ''a'' @ [apostrophe] @ cs ''; ls'' @ [0]) = Some sb' \<and>
    sh_word False q = Some (cs ''a'' @ [apostrophe] @ cs ''; ls'') \<and>
    sb_rep (Some 30, Some 29) sb' q"
proof -
  obtain sb where sb: "strbuf_init (Some (replicate 30 9)) 30 = Some sb" "sb_rep (Some 30, Some 29) sb []"
    using init_rep[of 30 "replicate 30 9"] by auto
  from shell_quotemeta_roundtrip[OF _ sb(2), of "cs ''a'' @ [apostrophe] @ cs ''; ls''"] sb(1)
  show ?thesis by auto
qed

text \<open>\<open>strbuf_ncat\<close> with a length beyond the end of the text appends only the text but
  counts the whole length: the string no longer has the length \<open>strbuf_len\<close> reports, and
  whatever is appended next starts behind the nul.\<close>

lemma strbuf_ncat_short:
  assumes "sb_rep sh sb T" "sb_start sb \<noteq> None" "0 \<notin> set s" "0 \<notin> set T" "length s < len"
    "length T + len \<le> sb_limit sh"
  shows "\<exists>sb'. strbuf_ncat sb (s @ [0]) len = Some sb' \<and> sb_string sb' = Some (T @ s) \<and>
    strbuf_len sb' = int (length T + len)"
proof -
  obtain m where m: "sb_start sb = Some m" using assms(2) by auto
  have cur: "sb_current sb = int (length T)" and fits: "sb_fits sh (T @ s)"
    using assms(1,5,6) by (auto simp: sb_rep_def sb_fits_def sb_limit_def split: prod.splits option.splits)
  have le: "length T \<le> sb_limit sh" using assms(6) by simp
  have tk: "take (sb_limit sh - length T) s = s" using assms(5,6) by simp
  obtain sb1 where sb1: "c_vsprintf sb (int (length T)) s = Some sb1" "sb_current sb1 = sb_current sb"
      "sb_end sb1 = sb_end sb" "sb_append_text sh sb s (sb1\<lparr>sb_current := sb_current sb + int (length s)\<rparr>)"
    using sb_block[OF assms(1,2) le, of s] unfolding tk by blast
  have e: "sb_end sb = Some e \<Longrightarrow> e = int (sb_limit sh)" for e by (rule sb_limit_end[OF assms(1,2)])
  define n where "n = (case sb_end sb of Some e \<Rightarrow> min (nat (e - sb_current sb)) len | None \<Rightarrow> len)"
  have n: "length s < n" using assms(5,6) e cur by (auto simp: n_def split: option.splits)
  have w: "sb_writable sb" using assms(2,5,6) e cur by (auto simp: sb_writable_def split: option.splits)
  have "strbuf_ncat sb (s @ [0]) len = Some (sb1\<lparr>sb_current := sb_current sb + int len\<rparr>)"
    using ncat_loop_block[OF assms(3) m, of "int (length T)" "[]" n] sb1(1,2) n w cur
    by (auto simp: strbuf_ncat_def n_def[symmetric] Option.bind_eq_Some_conv)
  moreover have "sb_string sb1 = Some (T @ s)"
  proof -
    have r: "sb_rep sh (sb1\<lparr>sb_current := sb_current sb + int (length s)\<rparr>) (T @ s)"
      by (rule sb_append_rep[OF assms(1) fits sb1(4)])
    have "sb_start sb1 \<noteq> None" using sb1(1) by (auto simp: c_vsprintf_def Option.bind_eq_Some_conv)
    then show ?thesis using sb_string_rep[OF r] assms(3-6) by (simp add: sb_string_def)
  qed
  ultimately show ?thesis using sb1(2,3) cur e assms(6)
    by (auto simp: sb_string_def strbuf_len_def strbuf_end_def split: option.splits)
qed

text \<open>A buffer of size 0: the first byte is overwritten although nothing may be.\<close>

lemma strbuf_init_size_zero: "strbuf_init (Some (c # bs)) 0 = Some \<lparr>sb_start = Some (0 # bs), sb_end = Some (-1), sb_current = 0\<rparr>"
  by (simp add: strbuf_init_def strbuf_reset_def sb_put_def c_put_def)

end
