(* ===== verification/Str.thy ===== *)
theory Str
  imports Strbuf
begin

text \<open>
  The string utilities of \<open>str.c\<close> and \<open>str.h\<close>: hexadecimal, the printable
  representation and its inverse, scaled integers, prefixes, splitting of command lines and
  the parts of a URI. A \<open>const char *\<close> is the rest of the object it points into; reading
  past the object is a fault (\<open>None\<close>). Destination buffers are byte lists. The character
  classes are those of the C locale.
\<close>

subsection \<open>Character classes\<close>

definition c_isdigit :: "byte \<Rightarrow> bool" where
  "c_isdigit c \<longleftrightarrow> c \<ge> ch CHR ''0'' \<and> c \<le> ch CHR ''9''"

definition c_isalpha :: "byte \<Rightarrow> bool" where
  "c_isalpha c \<longleftrightarrow> (c \<ge> ch CHR ''A'' \<and> c \<le> ch CHR ''Z'') \<or> (c \<ge> ch CHR ''a'' \<and> c \<le> ch CHR ''z'')"

definition c_isxdigit :: "byte \<Rightarrow> bool" where
  "c_isxdigit c \<longleftrightarrow> c_isdigit c \<or> (c \<ge> ch CHR ''A'' \<and> c \<le> ch CHR ''F'') \<or>
     (c \<ge> ch CHR ''a'' \<and> c \<le> ch CHR ''f'')"

definition c_isspace :: "byte \<Rightarrow> bool" where
  "c_isspace c \<longleftrightarrow> c = 0x20 \<or> (c \<ge> 0x09 \<and> c \<le> 0x0D)"

definition c_toupper :: "byte \<Rightarrow> byte" where
  "c_toupper c = (if c \<ge> ch CHR ''a'' \<and> c \<le> ch CHR ''z'' then c - 0x20 else c)"

text \<open>\<open>while (P(*p)) ++p;\<close> The result is the number of characters passed and the rest.\<close>

fun scan :: "(byte \<Rightarrow> bool) \<Rightarrow> byte list \<Rightarrow> (nat \<times> byte list) option" where
  "scan P [] = None"
| "scan P (c # p) = (if P c then map_option (apfst Suc) (scan P p) else Some (0, c # p))"

subsection \<open>Hexadecimal\<close>

definition hexvalue :: "byte \<Rightarrow> int" where
  "hexvalue c =
     (if c \<ge> ch CHR ''0'' \<and> c \<le> ch CHR ''9'' then uint c - 48
      else if c \<ge> ch CHR ''A'' \<and> c \<le> ch CHR ''F'' then uint c - 65 + 10
      else if c \<ge> ch CHR ''a'' \<and> c \<le> ch CHR ''f'' then uint c - 97 + 10
      else -1)"

fun is_xsubstring :: "byte list \<Rightarrow> nat \<Rightarrow> bool option" where
  "is_xsubstring p 0 = Some True"
| "is_xsubstring p (Suc len) = do {
     c \<leftarrow> c_get p 0;
     if \<not> c_isxdigit c then Some False else is_xsubstring (tl p) len
   }"

fun is_xstring :: "byte list \<Rightarrow> nat \<Rightarrow> bool option" where
  "is_xstring p 0 = do { c \<leftarrow> c_get p 0; Some (c = 0) }"
| "is_xstring p (Suc len) = do {
     c \<leftarrow> c_get p 0;
     if \<not> c_isxdigit c then Some False else is_xstring (tl p) len
   }"

text \<open>\<open>p\<close> is the offset of the next write into \<open>dst\<close>.\<close>

fun tohex_fill :: "byte list \<Rightarrow> int \<Rightarrow> byte list \<Rightarrow> nat \<Rightarrow> byte list option" where
  "tohex_fill dst p src 0 = c_put dst p 0"
| "tohex_fill dst p src (Suc n) = do {
     d \<leftarrow> c_get src 0;
     dst \<leftarrow> c_put dst p (hexdigit (drop_bit 4 d));
     dst \<leftarrow> c_put dst (p + 1) (hexdigit (d AND 0xf));
     tohex_fill dst (p + 2) (tl src) n
   }"

definition tohex :: "byte list \<Rightarrow> byte list \<Rightarrow> nat \<Rightarrow> byte list option" where
  "tohex dst src n = tohex_fill dst 0 src n"

text \<open>The result is the return value (-1 for the \<open>(size_t)-1\<close> of an error) and the
  destination.\<close>

fun fromhex_loop :: "byte list \<Rightarrow> byte list \<Rightarrow> nat \<Rightarrow> nat \<Rightarrow> (int \<times> byte list) option" where
  "fromhex_loop dst src count 0 = Some (int count, dst)"
| "fromhex_loop dst src count (Suc n) = do {
     h \<leftarrow> c_get src 0;
     let high = (word_of_int (hexvalue h) :: byte);
     if high AND 0xf0 \<noteq> 0 then Some (-1, dst) else do {
       l \<leftarrow> c_get src 1;
       let low = (word_of_int (hexvalue l) :: byte);
       if low AND 0xf0 \<noteq> 0 then Some (-1, dst) else do {
         dst \<leftarrow> c_put dst (int count) (push_bit 4 high + low);
         fromhex_loop dst (drop 2 src) (Suc count) n
       }
     }
   }"

definition fromhex :: "byte list \<Rightarrow> byte list \<Rightarrow> nat \<Rightarrow> (int \<times> byte list) option" where
  "fromhex dst src nbinary = fromhex_loop dst src 0 nbinary"

definition fromhexstr :: "byte list \<Rightarrow> byte list \<Rightarrow> nat \<Rightarrow> (int \<times> byte list) option" where
  "fromhexstr dst src nbinary = do {
     (n, dst) \<leftarrow> fromhex dst src nbinary;
     if n = int nbinary then do {
       c \<leftarrow> c_get src (int nbinary * 2);
       Some (if c = 0 then 0 else -1, dst)
     } else Some (-1, dst)
   }"

fun is_all_matching :: "byte list \<Rightarrow> nat \<Rightarrow> byte \<Rightarrow> bool option" where
  "is_all_matching p 0 v = Some True"
| "is_all_matching p (Suc len) v = do {
     c \<leftarrow> c_get p 0;
     if c \<noteq> v then Some False else is_all_matching (tl p) len v
   }"

subsection \<open>Searching and prefixes\<close>

text \<open>The result is the offset of the character, \<open>None\<close> for NULL.\<close>

fun strnchr :: "byte list \<Rightarrow> nat \<Rightarrow> byte \<Rightarrow> nat option option" where
  "strnchr s 0 c = Some None"
| "strnchr s (Suc n) c = do {
     d \<leftarrow> c_get s 0;
     if d = c then Some (Some 0)
     else if d = 0 then Some None
     else map_option (map_option Suc) (strnchr (tl s) n c)
   }"

text \<open>The result is what \<open>*afterp\<close> is set to where the function returns 1, and
  \<open>None\<close> where it returns 0.\<close>

fun str_startswith :: "byte list \<Rightarrow> byte list \<Rightarrow> byte list option option" where
  "str_startswith str [] = None"
| "str_startswith str (s # substring) =
     (if s = 0 then Some (Some str)
      else do {
        c \<leftarrow> c_get str 0;
        if s = c then str_startswith (tl str) substring else Some None
      })"

fun strn_startswith :: "byte list \<Rightarrow> nat \<Rightarrow> byte list \<Rightarrow> byte list option option" where
  "strn_startswith str len [] = None"
| "strn_startswith str 0 (s # substring) = Some (if s = 0 then Some str else None)"
| "strn_startswith str (Suc len) (s # substring) =
     (if s = 0 then Some (Some str)
      else do {
        c \<leftarrow> c_get str 0;
        if s = c then strn_startswith (tl str) len substring else Some None
      })"

fun strcase_startswith :: "byte list \<Rightarrow> byte list \<Rightarrow> byte list option option" where
  "strcase_startswith str [] = None"
| "strcase_startswith str (s # substring) =
     (if s = 0 then Some (Some str)
      else do {
        c \<leftarrow> c_get str 0;
        if c \<noteq> 0 \<and> c_toupper s = c_toupper c then strcase_startswith (tl str) substring else Some None
      })"

fun strncase_startswith :: "byte list \<Rightarrow> nat \<Rightarrow> byte list \<Rightarrow> byte list option option" where
  "strncase_startswith str len [] = None"
| "strncase_startswith str 0 (s # substring) = Some (if s = 0 then Some str else None)"
| "strncase_startswith str (Suc len) (s # substring) =
     (if s = 0 then Some (Some str)
      else do {
        c \<leftarrow> c_get str 0;
        if c_toupper s = c_toupper c then strncase_startswith (tl str) len substring else Some None
      })"

text \<open>\<open>parse_argv\<close> overwrites the delimiters with nuls; \<open>argv\<close> holds the offsets of the
  arguments, \<open>i\<close> is the offset \<open>cmdline\<close> points to.\<close>

function parse_argv_loop :: "byte list \<Rightarrow> byte \<Rightarrow> nat \<Rightarrow> nat list \<Rightarrow> nat \<Rightarrow> (nat list \<times> byte list) option" where
  "parse_argv_loop cmd delim max_argv argv i =
     (if i < length cmd then
        (if cmd ! i = 0 then Some (argv, cmd)
         else if cmd ! i = delim then do {
           let cmd = cmd[i := 0];
           c \<leftarrow> c_get cmd (int i + 1);
           parse_argv_loop cmd delim max_argv
             (if c \<noteq> 0 \<and> length argv < max_argv then argv @ [i + 1] else argv) (i + 1)
         } else parse_argv_loop cmd delim max_argv argv (i + 1))
      else None)"
  by pat_completeness auto
termination
  by (relation "measure (\<lambda>(cmd, d, m, a, i). length cmd - i)") auto

declare parse_argv_loop.simps [simp del]

definition parse_argv :: "byte list \<Rightarrow> byte \<Rightarrow> nat \<Rightarrow> (nat list \<times> byte list) option" where
  "parse_argv cmd delim max_argv = do {
     c \<leftarrow> c_get cmd 0;
     parse_argv_loop cmd delim max_argv (if c \<noteq> 0 \<and> 0 < max_argv then [0] else []) 0
   }"

text \<open>\<open>strncmp(haystack, needle, n) == 0\<close>: equal up to \<open>n\<close> characters or a common nul.\<close>

fun c_strneq :: "byte list \<Rightarrow> byte list \<Rightarrow> nat \<Rightarrow> bool option" where
  "c_strneq p q 0 = Some True"
| "c_strneq p q (Suc n) = do {
     c \<leftarrow> c_get p 0;
     d \<leftarrow> c_get q 0;
     if c \<noteq> d then Some False else if c = 0 then Some True else c_strneq (tl p) (tl q) n
   }"

fun str_str_loop :: "byte list \<Rightarrow> byte list \<Rightarrow> nat \<Rightarrow> nat \<Rightarrow> nat option option" where
  "str_str_loop haystack needle needle_len 0 = Some None"
| "str_str_loop haystack needle needle_len (Suc len) = do {
     c \<leftarrow> c_get haystack 0;
     if c \<noteq> 0 \<and> Suc len \<ge> needle_len then do {
       eq \<leftarrow> c_strneq haystack needle needle_len;
       if eq then Some (Some 0)
       else map_option (map_option Suc) (str_str_loop (tl haystack) needle needle_len len)
     } else Some None
   }"

text \<open>The offset of the first occurrence; \<open>haystack_len\<close> is not negative.\<close>

definition str_str :: "byte list \<Rightarrow> byte list \<Rightarrow> nat \<Rightarrow> nat option option" where
  "str_str haystack needle haystack_len =
     (let needle_len = c_strlen needle
      in if needle_len = 0 then Some (Some 0)
         else if haystack_len \<ge> needle_len then str_str_loop haystack needle needle_len haystack_len
         else Some None)"

subsection \<open>Scaled integers\<close>

definition scale_factors :: "(byte \<times> u64) list" where
  "scale_factors =
     [(ch CHR ''G'', 1024 * 1024 * 1024), (ch CHR ''g'', 1000 * 1000 * 1000),
      (ch CHR ''M'', 1024 * 1024), (ch CHR ''m'', 1000 * 1000),
      (ch CHR ''K'', 1024), (ch CHR ''k'', 1000)]"

text \<open>With a non-NULL \<open>afterp\<close>: the factor and the rest of the string.\<close>

definition scale_factor :: "byte list \<Rightarrow> (u64 \<times> byte list) option" where
  "scale_factor str = do {
     c \<leftarrow> c_get str 0;
     Some (case map_of scale_factors c of Some f \<Rightarrow> (f, tl str) | None \<Rightarrow> (1, str))
   }"

text \<open>\<open>strtoull\<close> in base 10: white space, a sign, decimal digits. A value that does not fit
  gives \<open>ULLONG_MAX\<close>; without digits the end pointer is the start. The string ends at a
  nul, which stops every scan.\<close>

definition dec_value :: "byte list \<Rightarrow> nat" where
  "dec_value ds = foldl (\<lambda>v d. v * 10 + (unat d - 48)) 0 ds"

definition c_strtoull :: "byte list \<Rightarrow> (u64 \<times> byte list) option" where
  "c_strtoull str = do {
     (_, p) \<leftarrow> scan c_isspace str;
     c \<leftarrow> c_get p 0;
     let q = (if c = ch CHR ''+'' \<or> c = ch CHR ''-'' then tl p else p);
     (n, r) \<leftarrow> scan c_isdigit q;
     let v = dec_value (take n q);
     Some (if n = 0 then (0, str)
           else if v \<ge> 2 ^ 64 then (-1, r)
           else (if c = ch CHR ''-'' then - of_nat v else of_nat v, r))
   }"

text \<open>With a non-NULL \<open>afterp\<close>: the value and the rest of the string, \<open>None\<close> where it
  returns 0.\<close>

definition str_to_uint64_scaled :: "byte list \<Rightarrow> (u64 \<times> byte list) option option" where
  "str_to_uint64_scaled str = do {
     c \<leftarrow> c_get str 0;
     if c_isspace c then Some None else do {
       (v, e) \<leftarrow> c_strtoull str;
       if e = str then Some None else do {
         (f, e) \<leftarrow> scale_factor e;
         Some (Some (v * f, e))
       }
     }
   }"

text \<open>The output of \<open>%llu\<close>.\<close>

fun dec_digits :: "nat \<Rightarrow> byte list" where
  "dec_digits n = (if n < 10 then [of_nat (48 + n)] else dec_digits (n div 10) @ [of_nat (48 + n mod 10)])"

declare dec_digits.simps [simp del]

definition scale_symbol :: "u64 \<Rightarrow> u64 \<times> byte" where
  "scale_symbol v =
     (case find (\<lambda>(s, f). v mod f = 0) scale_factors of
        Some (s, f) \<Rightarrow> (v div f, s)
      | None \<Rightarrow> (v, 0))"

definition uint64_scaled_to_str :: "byte list \<Rightarrow> nat \<Rightarrow> u64 \<Rightarrow> (bool \<times> strbuf) option" where
  "uint64_scaled_to_str str len v = do {
     let (v, symbol) = scale_symbol v;
     b \<leftarrow> strbuf_init (Some str) (int len);
     b \<leftarrow> strbuf_sprintf b (dec_digits (unat v));
     b \<leftarrow> (if symbol \<noteq> 0 then strbuf_putc b symbol else Some b);
     Some (\<not> strbuf_overrun b, b)
   }"

text \<open>The digits after the decimal point, up to three.\<close>

fun interval_fraction :: "byte list \<Rightarrow> nat \<Rightarrow> u64 \<Rightarrow> (u64 \<times> byte list) option" where
  "interval_fraction p 0 v = Some (v, p)"
| "interval_fraction p factor v = do {
     c \<leftarrow> c_get p 0;
     if c_isdigit c
     then interval_fraction (tl p) (factor div 10) (v + of_nat ((unat c - 48) * factor))
     else Some (v, p)
   }"

definition str_to_uint64_interval_ms :: "byte list \<Rightarrow> (u64 \<times> byte list) option option" where
  "str_to_uint64_interval_ms str = do {
     c \<leftarrow> c_get str 0;
     if c_isspace c then Some None else do {
       (v, e) \<leftarrow> c_strtoull str;
       let v = v * 1000;
       if e = str then Some None else do {
         d \<leftarrow> c_get e 0;
         if d = ch CHR ''.'' then do {
           d \<leftarrow> c_get e 1;
           (v, e) \<leftarrow> (if c_isdigit d then interval_fraction (tl e) 100 v else Some (v, e));
           Some (Some (v, e))
         } else Some (Some (v, e))
       }
     }
   }"

subsection \<open>Printable representation\<close>

definition toprint :: "byte list \<Rightarrow> int \<Rightarrow> byte list \<Rightarrow> nat \<Rightarrow> (byte \<times> byte) option \<Rightarrow> byte list option" where
  "toprint dst dstBufSiz src srcBytes quotes = do {
     b \<leftarrow> strbuf_init (Some dst) dstBufSiz;
     b \<leftarrow> strbuf_toprint_quoted_len b quotes src srcBytes;
     sb_start b
   }"

definition toprint_len :: "byte list \<Rightarrow> nat \<Rightarrow> (byte \<times> byte) option \<Rightarrow> int option" where
  "toprint_len src srcBytes quotes = do {
     b \<leftarrow> strbuf_init None 0;
     b \<leftarrow> strbuf_toprint_quoted_len b quotes src srcBytes;
     Some (strbuf_count b)
   }"

definition toprint_str :: "byte list \<Rightarrow> int \<Rightarrow> byte list option \<Rightarrow> (byte \<times> byte) option \<Rightarrow> byte list option" where
  "toprint_str dst dstBufSiz src quotes = do {
     b \<leftarrow> strbuf_init (Some dst) dstBufSiz;
     b \<leftarrow> (case src of
             Some str \<Rightarrow> strbuf_toprint_quoted b quotes str
           | None \<Rightarrow> strbuf_puts b (lit ''NULL''));
     sb_start b
   }"

definition toprint_str_len :: "byte list option \<Rightarrow> (byte \<times> byte) option \<Rightarrow> int option" where
  "toprint_str_len src quotes =
     (case src of
        Some str \<Rightarrow> do {
          b \<leftarrow> strbuf_init None 0;
          b \<leftarrow> strbuf_toprint_quoted b quotes str;
          Some (strbuf_count b)
        }
      | None \<Rightarrow> Some 4)"

text \<open>\<open>n\<close> is the number of bytes written to \<open>dst\<close>.\<close>

function fromprint_loop :: "byte list \<Rightarrow> nat \<Rightarrow> byte list \<Rightarrow> (nat \<times> byte list) option" where
  "fromprint_loop dst n [] = None"
| "fromprint_loop dst n (c # src) =
     (if c = 0 then Some (n, dst)
      else if c = backslash then do {
        d \<leftarrow> c_get src 0;
        if d = 0 then do { dst \<leftarrow> c_put dst (int n) backslash; fromprint_loop dst (Suc n) src }
        else if d = ch CHR ''0'' then do { dst \<leftarrow> c_put dst (int n) 0; fromprint_loop dst (Suc n) (tl src) }
        else if d = ch CHR ''n'' then do { dst \<leftarrow> c_put dst (int n) 0x0A; fromprint_loop dst (Suc n) (tl src) }
        else if d = ch CHR ''r'' then do { dst \<leftarrow> c_put dst (int n) 0x0D; fromprint_loop dst (Suc n) (tl src) }
        else if d = ch CHR ''t'' then do { dst \<leftarrow> c_put dst (int n) 0x09; fromprint_loop dst (Suc n) (tl src) }
        else do {
          hex \<leftarrow> (if d = ch CHR ''x'' then do {
                    h \<leftarrow> c_get src 1;
                    if c_isxdigit h then do { l \<leftarrow> c_get src 2; Some (c_isxdigit l) } else Some False
                  } else Some False);
          if hex then do {
            (_, v) \<leftarrow> fromhex (drop n dst) (tl src) 1;
            fromprint_loop (take n dst @ v) (Suc n) (drop 3 src)
          } else do { dst \<leftarrow> c_put dst (int n) d; fromprint_loop dst (Suc n) (tl src) }
        }
      } else do { dst \<leftarrow> c_put dst (int n) c; fromprint_loop dst (Suc n) src })"
  by pat_completeness auto
termination
  by (relation "measure (\<lambda>(dst, n, src). length src)") auto

declare fromprint_loop.simps [simp del]

definition str_fromprint :: "byte list \<Rightarrow> byte list \<Rightarrow> (nat \<times> byte list) option" where
  "str_fromprint dst src = fromprint_loop dst 0 src"

subsection \<open>Hexadecimal\<close>

lemma nibble_cases: "0 \<le> v \<Longrightarrow> v < 16 \<Longrightarrow> v \<in> {0, 1, 2, 3, 4, 5, 6, 7, 8, 9, 10, 11, 12, 13, 14, 15 :: int}"
  by (simp, presburger)

lemma nibble_high: "0 \<le> v \<Longrightarrow> v < 16 \<Longrightarrow> (word_of_int v :: byte) AND 0xf0 = 0"
  using nibble_cases[of v] by auto

lemma hexvalue_range: "hexvalue c = -1 \<or> (0 \<le> hexvalue c \<and> hexvalue c < 16)"
  by (auto simp: hexvalue_def word_le_def)

lemma hexvalue_xdigit: "hexvalue c \<ge> 0 \<longleftrightarrow> c_isxdigit c"
  by (auto simp: hexvalue_def c_isxdigit_def c_isdigit_def word_le_def)

lemma hexvalue_ok: "(word_of_int (hexvalue c) :: byte) AND 0xf0 = 0 \<longleftrightarrow> c_isxdigit c"
  using hexvalue_range[of c] nibble_high[of "hexvalue c"] hexvalue_xdigit[of c] by auto

lemma hexdigit_value: "unat n < 16 \<Longrightarrow> hexvalue (hexdigit n) = int (unat n)"
proof -
  assume "unat n < 16"
  moreover have "\<forall>i \<in> set [0..<16]. hexvalue (cs ''0123456789ABCDEF'' ! i) = int i"
    by (simp add: upt_rec hexvalue_def)
  ultimately show ?thesis by (simp add: hexdigit_def)
qed

lemma hexdigit_xdigit: "unat n < 16 \<Longrightarrow> c_isxdigit (hexdigit n)"
  using hexdigit_value[of n] hexvalue_xdigit[of "hexdigit n"] by simp

lemma hex_join: "push_bit 4 (drop_bit 4 d) + (d AND 0xf) = (d :: byte)"
proof -
  have "d AND 0xf = take_bit 4 d" by (simp add: take_bit_eq_mask mask_eq_exp_minus_1)
  then show ?thesis using bits_ident[of 4 d] by simp
qed

text \<open>Decoding one pair of hex digits.\<close>

definition hex_byte :: "byte \<Rightarrow> byte \<Rightarrow> byte" where
  "hex_byte h l = push_bit 4 (word_of_int (hexvalue h)) + word_of_int (hexvalue l)"

lemma hex_byte_digits: "hex_byte (hexdigit (drop_bit 4 d)) (hexdigit (d AND 0xf)) = d"
  using hexdigit_value[OF nibbles_less(1), of d] hexdigit_value[OF nibbles_less(2), of d] hex_join[of d]
  by (simp add: hex_byte_def)

lemma fromhex_loop_ok:
  assumes "count + length data \<le> length dst"
  shows "fromhex_loop dst (hexpairs data @ rest) count (length data) =
    Some (int (count + length data), take count dst @ data @ drop (count + length data) dst)"
  using assms
proof (induction data arbitrary: dst count)
  case Nil
  then show ?case by simp
next
  case (Cons d data)
  let ?h = "hexdigit (drop_bit 4 d)" and ?l = "hexdigit (d AND 0xf)"
  have ok: "(word_of_int (hexvalue ?h) :: byte) AND 0xf0 = 0" "(word_of_int (hexvalue ?l) :: byte) AND 0xf0 = 0"
    using hexdigit_xdigit nibbles_less hexvalue_ok by blast+
  have v: "push_bit 4 (word_of_int (hexvalue ?h)) + word_of_int (hexvalue ?l) = d"
    using hex_byte_digits[of d] by (simp add: hex_byte_def)
  have "fromhex_loop dst (hexpairs (d # data) @ rest) count (length (d # data)) =
      fromhex_loop (dst[count := d]) (hexpairs data @ rest) (Suc count) (length data)"
    using ok v Cons.prems by (simp add: c_get_def c_put_def numeral_2_eq_2)
  also have "\<dots> = Some (int (Suc count + length data), take (Suc count) (dst[count := d]) @ data @ drop (Suc count + length data) (dst[count := d]))"
    using Cons.IH[of "Suc count" "dst[count := d]"] Cons.prems by simp
  also have "take (Suc count) (dst[count := d]) = take count dst @ [d]"
    using Cons.prems by (simp add: take_Suc_conv_app_nth)
  finally show ?case by (simp add: drop_update_cancel)
qed

text \<open>\<open>fromhexstr\<close> accepts exactly the strings \<open>is_xstring\<close> accepts.\<close>

lemma fromhex_accepts:
  assumes "count + n \<le> length dst" "0 \<notin> set s"
  shows "\<exists>r dst'. fromhex_loop dst (s @ 0 # rest) count n = Some (r, dst') \<and> length dst' = length dst \<and>
    (r = int (count + n) \<and> 2 * n \<le> length s \<and> (\<forall>c \<in> set (take (2 * n) s). c_isxdigit c) \<or>
     r = -1 \<and> \<not> (2 * n \<le> length s \<and> (\<forall>c \<in> set (take (2 * n) s). c_isxdigit c)))"
  using assms
proof (induction n arbitrary: dst count s)
  case 0
  then show ?case by simp
next
  case (Suc n)
  have nx: "\<not> c_isxdigit 0" by (simp add: c_isxdigit_def c_isdigit_def word_le_def)
  consider "s = []" | h where "s = [h]" | h l t where "s = h # l # t" by (metis list.exhaust)
  then show ?case
  proof cases
    case 1
    then show ?thesis using nx hexvalue_ok[of 0] by (simp add: c_get_def)
  next
    case (2 h)
    then show ?thesis using nx hexvalue_ok[of 0] hexvalue_ok[of h] by (simp add: c_get_def)
  next
    case (3 h l t)
    show ?thesis
    proof (cases "c_isxdigit h \<and> c_isxdigit l")
      case True
      let ?d = "dst[count := hex_byte h l]"
      have "fromhex_loop dst (s @ 0 # rest) count (Suc n) = fromhex_loop ?d (t @ 0 # rest) (Suc count) n"
        using 3 True hexvalue_ok[of h] hexvalue_ok[of l] Suc.prems(1)
        by (simp add: c_get_def c_put_def hex_byte_def numeral_2_eq_2)
      moreover have "Suc count + n \<le> length ?d" "0 \<notin> set t" using Suc.prems 3 by auto
      ultimately show ?thesis using Suc.IH[of "Suc count" ?d t] 3 True by (auto simp: numeral_2_eq_2)
    next
      case False
      then show ?thesis using 3 hexvalue_ok[of h] hexvalue_ok[of l] by (auto simp: c_get_def)
    qed
  qed
qed

lemma is_xstring_iff:
  "0 \<notin> set s \<Longrightarrow> is_xstring (s @ 0 # rest) n = Some (length s = n \<and> (\<forall>c \<in> set s. c_isxdigit c))"
proof (induction n arbitrary: s)
  case 0
  then show ?case by (cases s) (auto simp: c_get_def)
next
  case (Suc n)
  have "\<not> c_isxdigit 0" by (simp add: c_isxdigit_def c_isdigit_def word_le_def)
  then show ?case using Suc by (cases s) (auto simp: c_get_def)
qed

lemma tohex_fill_eq:
  assumes "0 \<le> p" "p + 2 * int (length data) < int (length dst)"
  shows "tohex_fill dst p (data @ rest) (length data) = c_putn dst p (hexpairs data @ [0])"
  using assms
proof (induction data arbitrary: dst p)
  case Nil
  then show ?case by (simp add: c_putn_single)
next
  case (Cons d data)
  let ?h = "hexdigit (drop_bit 4 d)" and ?l = "hexdigit (d AND 0xf)"
  obtain d1 where d1: "c_put dst p ?h = Some d1" "length d1 = length dst"
    using Cons.prems by (simp add: c_put_def)
  obtain d2 where d2: "c_put d1 (p + 1) ?l = Some d2" "length d2 = length dst"
    using Cons.prems d1(2) by (simp add: c_put_def)
  have "c_putn dst p (hexpairs (d # data) @ [0]) = c_putn d2 (p + 2) (hexpairs data @ [0])"
    using c_put_putn[of dst p ?h "?l # hexpairs data @ [0]"] c_put_putn[of d1 "p + 1" ?l "hexpairs data @ [0]"] d1 d2
    by (simp add: add.commute)
  then show ?case using Cons.IH[of "p + 2" d2] Cons.prems d1 d2 by (simp add: c_get_def)
qed

subsection \<open>Printable representation\<close>

lemma hexdigit_lower_value: "unat n < 16 \<Longrightarrow> hexvalue (hexdigit_lower n) = int (unat n)"
proof -
  assume "unat n < 16"
  moreover have "\<forall>i \<in> set [0..<16]. hexvalue (cs ''0123456789abcdef'' ! i) = int i"
    by (simp add: upt_rec hexvalue_def)
  ultimately show ?thesis by (simp add: hexdigit_lower_def)
qed

lemma hexdigit_lower_xdigit: "unat n < 16 \<Longrightarrow> c_isxdigit (hexdigit_lower n)"
  using hexdigit_lower_value[of n] hexvalue_xdigit[of "hexdigit_lower n"] by simp

lemma hex_byte_lower: "hex_byte (hexdigit_lower (drop_bit 4 d)) (hexdigit_lower (d AND 0xf)) = d"
  using hexdigit_lower_value[OF nibbles_less(1), of d] hexdigit_lower_value[OF nibbles_less(2), of d] hex_join[of d]
  by (simp add: hex_byte_def)

lemma fromprint_esc:
  assumes "n < length dst"
  shows "fromprint_loop dst n (esc c @ X) = fromprint_loop (dst[n := c]) (Suc n) X"
proof -
  consider "c = 0" | "c = 0x0A" | "c = 0x0D" | "c = 0x09" | "c = backslash"
    | "c \<ge> 0x20" "c \<le> 0x7E" "c \<noteq> backslash" "c \<noteq> 0"
    | "\<not> (c \<ge> 0x20 \<and> c \<le> 0x7E)" "c \<noteq> 0" "c \<noteq> 0x0A" "c \<noteq> 0x0D" "c \<noteq> 0x09" "c \<noteq> backslash"
    by blast
  then show ?thesis
  proof cases
    case 6
    then have "esc c = [c]" by (auto simp: esc_def word_le_def)
    then show ?thesis using 6 assms by (simp add: fromprint_loop.simps c_put_def)
  next
    case 7
    let ?h = "hexdigit_lower (drop_bit 4 c)" and ?l = "hexdigit_lower (c AND 0xf)"
    have e: "esc c = [backslash, 0x78, ?h, ?l]" using 7 by (simp add: esc_def printf_02x_def)
    have x: "c_isxdigit ?h" "c_isxdigit ?l" using hexdigit_lower_xdigit nibbles_less by blast+
    have "fromhex (drop n dst) (?h # ?l # X) 1 = Some (1, (drop n dst)[0 := c])"
      using x hexvalue_ok[of ?h] hexvalue_ok[of ?l] hex_byte_lower[of c] assms
      by (simp add: fromhex_def c_get_def c_put_def hex_byte_def)
    moreover have "take n dst @ (drop n dst)[0 := c] = dst[n := c]"
      using assms by (simp add: upd_conv_take_nth_drop drop_Suc flip: Cons_nth_drop_Suc)
    ultimately show ?thesis using x by (simp add: e fromprint_loop.simps c_get_def numeral_3_eq_3)
  qed (use assms in \<open>simp_all add: esc_def fromprint_loop.simps c_get_def c_put_def\<close>)
qed

lemma fromprint_text:
  assumes "n + length data \<le> length dst"
  shows "fromprint_loop dst n (concat (map esc data) @ 0 # rest) =
    Some (n + length data, take n dst @ data @ drop (n + length data) dst)"
  using assms
proof (induction data arbitrary: dst n)
  case Nil
  then show ?case by (simp add: fromprint_loop.simps)
next
  case (Cons c data)
  have "take (Suc n) (dst[n := c]) = take n dst @ [c]" using Cons.prems by (simp add: take_Suc_conv_app_nth)
  then show ?case using Cons.IH[of "Suc n" "dst[n := c]"] Cons.prems fromprint_esc[of n dst c]
    by (simp add: drop_update_cancel)
qed

lemma esc_nonzero: "0 \<notin> set (esc c)"
proof -
  have "hexdigit_lower n \<noteq> 0" if "unat n < 16" for n :: byte
  proof -
    have "hexdigit_lower n \<in> set (cs ''0123456789abcdef'')" unfolding hexdigit_lower_def using that by (intro nth_mem) simp
    moreover have "0 \<notin> set (cs ''0123456789abcdef'')" by simp
    ultimately show ?thesis by metis
  qed
  then have "0 \<notin> set (printf_02x c)" using nibbles_less[of c] by (auto simp: printf_02x_def)
  then show ?thesis by (auto simp: esc_def)
qed

lemma quoted_text_None: "quoted_text None data = concat (map esc data)"
  by (simp add: quoted_text_def quoted_esc_def cong: map_cong)

lemma quoted_text_nonzero:
  "quotes = None \<or> snd (the quotes) \<noteq> 0 \<Longrightarrow> 0 \<notin> set (quoted_text quotes data)"
  using esc_nonzero by (auto simp: quoted_text_def quoted_esc_def quote_char_def split: option.splits if_splits)

text \<open>A buffer of NULL counts without storing.\<close>

lemma toprint_len_exact:
  assumes "length (quoted_text quotes data) < 2 ^ 64 - 1"
  shows "toprint_len (data @ rest) (length data) quotes = Some (int (length (quoted_text quotes data)))"
proof -
  define e :: nat where "e = 2 ^ 64 - 1"
  let ?sh = "(None, Some (int e)) :: sb_shape" and ?sb = "\<lparr>sb_start = None, sb_end = Some (int e), sb_current = 0\<rparr>"
  have "(- 1 :: int) mod 2 ^ 64 = int e" by (simp add: e_def)
  then have i: "strbuf_init None 0 = Some ?sb" by (simp add: strbuf_init_def strbuf_reset_def)
  have r: "sb_rep ?sh ?sb []" by (simp add: sb_rep_def sb_ok_def sb_fits_def)
  have F: "length (quoted_text quotes data) < e" using assms by (simp add: e_def)
  obtain sb' X where sb': "strbuf_toprint_quoted_len ?sb quotes (data @ rest) (length data) = Some sb'"
    "sb_rep ?sh sb' X" "take e X = quoted_text quotes data"
    using quoted_len_rep[OF r, of e quotes data rest] F by (auto simp: shown_def)
  then have "length X = length (quoted_text quotes data)" using F by (metis length_take min_def nat_neq_iff)
  then show ?thesis using i sb'(1,2) by (simp add: toprint_len_def strbuf_count_def sb_rep_def)
qed

lemma toprint_shown:
  assumes "1 \<le> sz" "sz \<le> int (length b)" "quotes = None \<or> snd (the quotes) \<noteq> 0"
  shows "\<exists>out. toprint b sz (data @ rest) (length data) quotes = Some out \<and> length out = length b \<and>
    c_string out = shown (nat sz - 1) (quoted_text quotes data)
      ((case quotes of Some (_, q) \<Rightarrow> quote_char q | None \<Rightarrow> []) @ cs ''...'') \<and>
    (\<exists>r. out = c_string out @ 0 # r)"
proof -
  let ?sh = "(Some (length b), Some (int (nat sz - 1))) :: sb_shape"
  let ?S = "(case quotes of Some (_, q) \<Rightarrow> quote_char q | None \<Rightarrow> []) @ cs ''...''"
  have sz: "sz - 1 = int (nat sz - 1)" using assms(1) by simp
  obtain sb where sb: "strbuf_init (Some b) sz = Some sb" "sb_rep ?sh sb []"
    using init_rep[OF assms(1,2)] unfolding sz by blast
  obtain sb' X where sb': "strbuf_toprint_quoted_len sb quotes (data @ rest) (length data) = Some sb'"
    "sb_rep ?sh sb' X" "take (nat sz - 1) X = shown (nat sz - 1) (quoted_text quotes data) ?S"
    using quoted_len_rep[OF sb(2), of "nat sz - 1" quotes data rest] by auto
  obtain m where m: "sb_start sb' = Some m" "length m = length b" using sb'(2) by (auto simp: sb_rep_def)
  have lim: "sb_limit ?sh = nat sz - 1" by (simp add: sb_limit_def)
  let ?W = "shown (nat sz - 1) (quoted_text quotes data) ?S"
  have tk: "take (Suc (min (length X) (nat sz - 1))) m = ?W @ [0]" using sb'(2,3) m lim by (simp add: sb_rep_def)
  have "0 \<notin> set ?S" using assms(3) by (auto simp: quote_char_def split: option.splits)
  then have nz: "0 \<notin> set ?W"
    using quoted_text_nonzero[OF assms(3), of data] by (auto simp: shown_def dest!: in_set_takeD)
  obtain r where r: "m = ?W @ 0 # r"
    using tk by (metis append.assoc append_Cons append_Nil append_take_drop_id)
  have c: "c_string m = ?W" unfolding c_string_def by (subst r, subst takeWhile_append2) (use nz in auto)
  show ?thesis using sb(1) sb'(1) m c r by (auto simp: toprint_def)
qed

subsection \<open>Scaled integers\<close>

lemma scan_ok: "\<forall>c \<in> set s. P c \<Longrightarrow> \<not> P c \<Longrightarrow> scan P (s @ c # r) = Some (length s, c # r)"
  by (induction s) auto

lemma digit_byte: "d < 10 \<Longrightarrow> unat (of_nat (48 + d) :: byte) = 48 + d"
  by (simp add: unat_of_nat take_bit_nat_eq_self del: of_nat_add)

lemma digit_isdigit: "d < 10 \<Longrightarrow> c_isdigit (of_nat (48 + d))"
  using digit_byte[of d] by (simp add: c_isdigit_def word_le_nat_alt del: of_nat_add)

lemma dec_value_snoc: "dec_value (ds @ [d]) = dec_value ds * 10 + (unat d - 48)"
  by (simp add: dec_value_def)

lemma dec_digits_value: "dec_value (dec_digits n) = n"
proof (induction n rule: dec_digits.induct)
  case (1 n)
  show ?case
  proof (cases "n < 10")
    case True
    then show ?thesis using digit_byte[of n] by (subst dec_digits.simps) (simp add: dec_value_def del: of_nat_add)
  next
    case False
    then show ?thesis using 1 digit_byte[of "n mod 10"]
      by (subst dec_digits.simps) (simp add: dec_value_snoc del: of_nat_add)
  qed
qed

lemma dec_digits_isdigit: "c \<in> set (dec_digits n) \<Longrightarrow> c_isdigit c"
proof (induction n rule: dec_digits.induct)
  case (1 n)
  show ?case
  proof (cases "n < 10")
    case True
    then show ?thesis using "1.prems" digit_isdigit[of n] by (subst (asm) dec_digits.simps) (simp del: of_nat_add)
  next
    case False
    then show ?thesis using 1 digit_isdigit[of "n mod 10"]
      by (subst (asm) (2) dec_digits.simps) (auto simp del: of_nat_add)
  qed
qed

lemma dec_digits_nonempty: "dec_digits n \<noteq> []"
  by (subst dec_digits.simps) simp

lemma dec_digits_length: "n < 10 ^ k \<Longrightarrow> 0 < k \<Longrightarrow> length (dec_digits n) \<le> k"
proof (induction n arbitrary: k rule: dec_digits.induct)
  case (1 n)
  show ?case
  proof (cases "n < 10")
    case True
    then show ?thesis using "1.prems" by (subst dec_digits.simps) simp
  next
    case False
    then obtain j where k: "k = Suc j" "0 < j" using "1.prems" by (cases k; cases "k - 1") auto
    then have "length (dec_digits (n div 10)) \<le> j" using "1.IH"[OF False, of j] "1.prems"(1) by (simp add: less_mult_imp_div_less mult.commute)
    then show ?thesis using False k by (subst dec_digits.simps) simp
  qed
qed

lemma digit_not: "c_isdigit c \<Longrightarrow> \<not> c_isspace c \<and> c \<noteq> ch CHR ''+'' \<and> c \<noteq> ch CHR ''-'' \<and> c \<noteq> 0"
  by (auto simp: c_isdigit_def c_isspace_def word_le_nat_alt)

lemma strtoull_digits:
  assumes "v < 2 ^ 64" "\<not> c_isdigit c"
  shows "c_strtoull (dec_digits v @ c # r) = Some (of_nat v, c # r)"
proof -
  obtain d ds where d: "dec_digits v = d # ds" using dec_digits_nonempty[of v] by (cases "dec_digits v") auto
  have dd: "c_isdigit d" using dec_digits_isdigit[of d v] d by simp
  have s1: "scan c_isspace (dec_digits v @ c # r) = Some (0, dec_digits v @ c # r)"
    using d digit_not[OF dd] by simp
  have s2: "scan c_isdigit (dec_digits v @ c # r) = Some (length (dec_digits v), c # r)"
    by (rule scan_ok) (use dec_digits_isdigit assms(2) in auto)
  have g: "c_get (dec_digits v @ c # r) 0 = Some d" using d by (simp add: c_get_def)
  show ?thesis unfolding c_strtoull_def s1
    using g s2 digit_not[OF dd] assms(1) dec_digits_value[of v] dec_digits_nonempty[of v] by simp
qed

lemma scale_factor_value:
  "(s, f) \<in> set scale_factors \<Longrightarrow> map_of scale_factors s = Some f \<and> s \<noteq> 0 \<and> \<not> c_isdigit s \<and> f \<noteq> 0"
  by (auto simp: scale_factors_def c_isdigit_def word_le_nat_alt)

lemma scale_symbol_value:
  "scale_symbol v = (w, s) \<Longrightarrow>
   (s = 0 \<and> w = v) \<or> (\<exists>f. (s, f) \<in> set scale_factors \<and> w * f = v)"
proof -
  assume a: "scale_symbol v = (w, s)"
  show ?thesis
  proof (cases "find (\<lambda>(s, f). v mod f = 0) scale_factors")
    case None
    then show ?thesis using a by (simp add: scale_symbol_def)
  next
    case (Some p)
    obtain s' f where p: "p = (s', f)" by fastforce
    have "(s', f) \<in> set scale_factors \<and> v mod f = 0"
      using Some unfolding p by (metis (mono_tags, lifting) case_prod_conv find_Some_iff nth_mem)
    moreover have "w = v div f" "s = s'" using a Some p by (simp_all add: scale_symbol_def)
    moreover have "v div f * f = v - v mod f" by (simp add: minus_mod_eq_div_mult)
    ultimately show ?thesis by auto
  qed
qed

lemma scaled_parse:
  assumes "scale_symbol v = (w, s)"
  shows "str_to_uint64_scaled (dec_digits (unat w) @ (if s \<noteq> 0 then [s] else []) @ 0 # r) = Some (Some (v, 0 # r))"
proof -
  let ?t = "(if s \<noteq> 0 then [s] else []) @ 0 # r"
  have u: "unat w < 2 ^ 64" using unsigned_less[of w, where 'a = nat] by simp
  obtain c t where ct: "?t = c # t" "\<not> c_isdigit c"
    using scale_symbol_value[OF assms] scale_factor_value[of s]
    by (cases "s = 0") (auto simp: c_isdigit_def word_le_nat_alt)
  have st: "c_strtoull (dec_digits (unat w) @ c # t) = Some (w, c # t)"
    using strtoull_digits[OF u ct(2), of t] by simp
  obtain d ds where d: "dec_digits (unat w) = d # ds" using dec_digits_nonempty by (cases "dec_digits (unat w)") auto
  have dd: "c_isdigit d" using dec_digits_isdigit[of d "unat w"] d by simp
  have "\<exists>f. scale_factor (c # t) = Some (f, 0 # r) \<and> w * f = v"
  proof (cases "s = 0")
    case True
    have "map_of scale_factors 0 = None" by (simp add: scale_factors_def)
    then show ?thesis using True ct(1) scale_symbol_value[OF assms] scale_factor_value[of s]
      by (auto simp: scale_factor_def c_get_def)
  next
    case False
    then obtain f where "(s, f) \<in> set scale_factors" "w * f = v" using scale_symbol_value[OF assms] by blast
    then show ?thesis using False ct(1) scale_factor_value[of s f] by (simp add: scale_factor_def c_get_def)
  qed
  moreover have "length (c # t) \<noteq> length (dec_digits (unat w) @ c # t)" using d by simp
  then have "c # t \<noteq> dec_digits (unat w) @ c # t" by (rule contrapos_nn) (rule arg_cong)
  ultimately show ?thesis using st ct(1) d digit_not[OF dd]
    by (auto simp: str_to_uint64_scaled_def c_get_def)
qed

lemma scaled_print:
  assumes "scale_symbol v = (w, s)" "22 \<le> length b"
  shows "\<exists>sb m r. uint64_scaled_to_str b (length b) v = Some (True, sb) \<and> sb_start sb = Some m \<and>
    m = dec_digits (unat w) @ (if s \<noteq> 0 then [s] else []) @ 0 # r"
proof -
  let ?sh = "(Some (length b), Some (int (length b) - 1)) :: sb_shape"
  let ?s = "if s \<noteq> 0 then [s] else []" and ?d = "dec_digits (unat w)"
  have u: "unat w < 10 ^ 20" using unsigned_less[of w, where 'a = nat] by simp
  have len: "length ?d \<le> 20" by (rule dec_digits_length[OF u]) simp
  obtain sb0 where sb0: "strbuf_init (Some b) (int (length b)) = Some sb0" "sb_rep ?sh sb0 []"
    using init_rep[of "int (length b)" b] assms(2) by auto
  have fits: "sb_fits ?sh X" for X by (simp add: sb_fits_def)
  obtain sb1 where sb1: "strbuf_sprintf sb0 ?d = Some sb1" "sb_rep ?sh sb1 ?d"
    using sb.appendsD[OF sprintf_appends sb0(2) fits, of ?d] by auto
  obtain sb2 where sb2: "(if s \<noteq> 0 then strbuf_putc sb1 s else Some sb1) = Some sb2" "sb_rep ?sh sb2 (?d @ ?s)"
    using sb.appendsD[OF putc_appends sb1(2) fits, of s] sb1(2) by (cases "s = 0") auto
  have lim: "sb_limit ?sh = length b - 1" by (simp add: sb_limit_def)
  have l2: "length (?d @ ?s) \<le> length b - 1" proof -
    have "length ?s \<le> 1" by simp
    then show ?thesis using len assms(2) unfolding length_append by linarith
  qed
  obtain m where m: "sb_start sb2 = Some m" using sb2(2) by (auto simp: sb_rep_def)
  have "take (Suc (length (?d @ ?s))) m = (?d @ ?s) @ [0]"
    using sb2(2) m l2 lim by (simp add: sb_rep_def min_def split: if_splits)
  then obtain r where "m = ?d @ ?s @ 0 # r"
    by (metis append.assoc append_Cons append_Nil append_take_drop_id)
  moreover have "\<not> strbuf_overrun sb2"
    using overrun_rep[OF sb2(2)] l2 assms(2) by (simp add: overlong_def)
  ultimately show ?thesis using sb0(1) sb1(1) sb2(1) m assms(1)
    by (auto simp: uint64_scaled_to_str_def)
qed

subsection \<open>Splitting command lines\<close>

fun split_on :: "byte \<Rightarrow> byte list \<Rightarrow> byte list list" where
  "split_on d [] = [[]]"
| "split_on d (c # s) =
     (if c = d then [] # split_on d s else (c # hd (split_on d s)) # tl (split_on d s))"

text \<open>A trailing empty field is no argument.\<close>

definition trim_last :: "byte list list \<Rightarrow> byte list list" where
  "trim_last fs = (if length fs > 1 \<and> last fs = [] then butlast fs else fs)"

definition nulled :: "byte \<Rightarrow> byte list \<Rightarrow> byte list" where
  "nulled d s = map (\<lambda>c. if c = d then 0 else c) s"

fun arg_starts :: "byte \<Rightarrow> byte list \<Rightarrow> nat \<Rightarrow> nat list" where
  "arg_starts d [] i = []"
| "arg_starts d (c # s) i = (if c = d \<and> s \<noteq> [] then [i + 1] else []) @ arg_starts d s (i + 1)"

lemma split_on_nonempty [simp]: "split_on d s \<noteq> []"
  by (cases s) auto

lemma parse_argv_loop_eq:
  assumes "0 \<notin> set s" "d \<noteq> 0" "length argv \<le> m"
  shows "parse_argv_loop (pre @ s @ 0 # rest) d m argv (length pre) =
    Some (argv @ take (m - length argv) (arg_starts d s (length pre)), pre @ nulled d s @ 0 # rest)"
  using assms
proof (induction s arbitrary: pre argv)
  case Nil
  then show ?case by (subst parse_argv_loop.simps) (simp add: nulled_def)
next
  case (Cons c s)
  show ?case
  proof (cases "c = d")
    case True
    let ?argv = "if s \<noteq> [] \<and> length argv < m then argv @ [length pre + 1] else argv"
    have nz: "(s @ 0 # rest) ! 0 \<noteq> 0 \<longleftrightarrow> s \<noteq> []" using Cons.prems(1) by (cases s) auto
    have upd: "(pre @ (c # s) @ 0 # rest)[length pre := 0] = (pre @ [0]) @ s @ 0 # rest" by simp
    have "parse_argv_loop (pre @ (c # s) @ 0 # rest) d m argv (length pre) =
        parse_argv_loop ((pre @ [0]) @ s @ 0 # rest) d m ?argv (length (pre @ [0]))"
      using True Cons.prems nz
      by (subst parse_argv_loop.simps) (simp add: c_get_def nth_append upd nat_add_distrib Let_def)
    also have "\<dots> = Some (?argv @ take (m - length ?argv) (arg_starts d s (length (pre @ [0]))), (pre @ [0]) @ nulled d s @ 0 # rest)"
      by (rule Cons.IH) (use Cons.prems in auto)
    finally show ?thesis using True Cons.prems(3)
      by (auto simp: nulled_def take_Cons' Suc_diff_Suc)
  next
    case False
    have "parse_argv_loop (pre @ (c # s) @ 0 # rest) d m argv (length pre) =
        parse_argv_loop ((pre @ [c]) @ s @ 0 # rest) d m argv (length (pre @ [c]))"
      using False Cons.prems by (subst parse_argv_loop.simps) simp
    also have "\<dots> = Some (argv @ take (m - length argv) (arg_starts d s (length (pre @ [c]))), (pre @ [c]) @ nulled d s @ 0 # rest)"
      by (rule Cons.IH) (use Cons.prems in auto)
    finally show ?thesis using False by (simp add: nulled_def)
  qed
qed

lemma trim_Cons_empty: "fs \<noteq> [] \<Longrightarrow> fs \<noteq> [[]] \<Longrightarrow> trim_last ([] # fs) = [] # trim_last fs"
  by (cases fs) (auto simp: trim_last_def)

lemma trim_extend: "fs \<noteq> [] \<Longrightarrow> trim_last ((c # hd fs) # tl fs) = (c # hd (trim_last fs)) # tl (trim_last fs)"
  by (cases fs) (auto simp: trim_last_def)

lemma split_on_single_empty: "split_on d s = [[]] \<longleftrightarrow> s = []"
  by (cases s) auto

lemma arg_strings:
  assumes "0 \<notin> set s" "d \<noteq> 0" "w = pre @ nulled d s @ 0 # rest"
  shows "map (\<lambda>i. c_string (drop i w)) (length pre # arg_starts d s (length pre)) = trim_last (split_on d s)"
  using assms
proof (induction s arbitrary: pre)
  case Nil
  then show ?case by (simp add: nulled_def c_string_def trim_last_def)
next
  case (Cons c s)
  show ?case
  proof (cases "c = d")
    case True
    have w: "w = (pre @ [0]) @ nulled d s @ 0 # rest" using Cons.prems(3) True by (simp add: nulled_def)
    have IH: "map (\<lambda>i. c_string (drop i w)) (length (pre @ [0]) # arg_starts d s (length (pre @ [0]))) = trim_last (split_on d s)"
      by (rule Cons.IH[OF _ _ w]) (use Cons.prems in auto)
    have "c_string (drop (length pre) w) = []" using w by (simp add: c_string_def)
    then show ?thesis using True IH trim_Cons_empty[of "split_on d s"] split_on_single_empty[of d s]
      by (cases "s = []") (auto simp: trim_last_def)
  next
    case False
    have w: "w = (pre @ [c]) @ nulled d s @ 0 # rest" using Cons.prems(3) False by (simp add: nulled_def)
    have IH: "map (\<lambda>i. c_string (drop i w)) (length (pre @ [c]) # arg_starts d s (length (pre @ [c]))) = trim_last (split_on d s)"
      by (rule Cons.IH[OF _ _ w]) (use Cons.prems in auto)
    have "c_string (drop (length pre) w) = c # c_string (drop (length (pre @ [c])) w)"
      using w Cons.prems(1) by (simp add: c_string_def)
    then show ?thesis using False IH trim_extend[of "split_on d s" c] by (auto simp flip: IH)
  qed
qed

lemma fromhexstr_result:
  assumes "0 \<notin> set s" "n \<le> length dst"
  shows "\<exists>r dst'. fromhexstr dst (s @ 0 # rest) n = Some (r, dst') \<and> r \<in> {0, -1} \<and>
    (r = 0 \<longleftrightarrow> length s = 2 * n \<and> (\<forall>c \<in> set s. c_isxdigit c))"
proof -
  obtain r dst' where f: "fromhex_loop dst (s @ 0 # rest) 0 n = Some (r, dst')"
    "(r = int n \<and> 2 * n \<le> length s \<and> (\<forall>c \<in> set (take (2 * n) s). c_isxdigit c)) \<or>
     (r = -1 \<and> \<not> (2 * n \<le> length s \<and> (\<forall>c \<in> set (take (2 * n) s). c_isxdigit c)))"
    using fromhex_accepts[of 0 n dst s rest] assms by auto
  show ?thesis
  proof (cases "r = -1")
    case True
    then show ?thesis using f by (auto simp: fromhexstr_def fromhex_def)
  next
    case False
    then have n: "r = int n" "2 * n \<le> length s" "\<forall>c \<in> set (take (2 * n) s). c_isxdigit c" using f(2) by auto
    have g: "c_get (s @ 0 # rest) (int n * 2) = Some ((s @ [0]) ! (2 * n))"
      using n(2) by (auto simp: c_get_def nth_append nat_mult_distrib mult.commute)
    have "(s @ [0]) ! (2 * n) = 0 \<longleftrightarrow> length s = 2 * n"
      using n(2) assms(1) by (auto simp: nth_append in_set_conv_nth)
    then show ?thesis using f(1) n g by (auto simp: fromhexstr_def fromhex_def)
  qed
qed

subsection \<open>Properties\<close>

text \<open>C32. Bytes printed with \<open>tohex\<close> are read back by \<open>fromhexstr\<close>: it returns 0 and the
  destination holds the bytes; the text is exactly two digits per byte and its nul.\<close>

theorem hex_roundtrip:
  assumes "2 * length data < length h" "length dst = length data"
  shows "\<exists>h'. tohex h data (length data) = Some h' \<and> c_string h' = hexpairs data \<and>
    fromhexstr dst h' (length data) = Some (0, data)"
proof -
  have "tohex h data (length data) = c_putn h 0 (hexpairs data @ [0])"
    using tohex_fill_eq[of 0 data h "[]"] assms(1) by (simp add: tohex_def)
  then obtain r where h': "tohex h data (length data) = Some (hexpairs data @ 0 # r)"
    using assms(1) by (simp add: c_putn_def)
  have "c_string (hexpairs data @ 0 # r) = hexpairs data"
    unfolding c_string_def by (subst takeWhile_append2) (use hexpairs_nonzero[of data] in \<open>auto simp: in_set_conv_decomp\<close>)
  moreover have "fromhexstr dst (hexpairs data @ 0 # r) (length data) = Some (0, data)"
    using fromhex_loop_ok[of 0 data dst "0 # r"] assms(2)
    by (simp add: fromhexstr_def fromhex_def c_get_def nth_append nat_mult_distrib)
  ultimately show ?thesis using h' by blast
qed

theorem hex_roundtrip_witness:
  "\<exists>h'. tohex (replicate 5 9) [0x2F, 0xA0] 2 = Some h' \<and> c_string h' = hexpairs [0x2F, 0xA0] \<and>
    fromhexstr [1, 1] h' 2 = Some (0, [0x2F, 0xA0])"
  using hex_roundtrip[of "[0x2F, 0xA0]" "replicate 5 9" "[1, 1]"] by (simp add: numeral_2_eq_2)

text \<open>C33. \<open>fromhexstr\<close> succeeds on exactly the strings that \<open>is_xstring\<close> accepts, and
  never reads past the terminating nul of its source or writes past its destination.\<close>

theorem fromhexstr_accepts_xstring:
  assumes "0 \<notin> set s" "n \<le> length dst"
  shows "\<exists>r dst'. fromhexstr dst (s @ 0 # rest) n = Some (r, dst') \<and> r \<in> {0, -1} \<and>
    (r = 0 \<longleftrightarrow> is_xstring (s @ 0 # rest) (2 * n) = Some True)"
  using fromhexstr_result[OF assms, of rest] is_xstring_iff[OF assms(1), of rest "2 * n"] by auto

theorem fromhexstr_accepts_xstring_witness:
  "\<exists>r dst'. fromhexstr [1] (cs ''2g'' @ [0]) 1 = Some (r, dst') \<and> r \<in> {0, -1} \<and>
    (r = 0 \<longleftrightarrow> is_xstring (cs ''2g'' @ [0]) 2 = Some True)"
  using fromhexstr_accepts_xstring[of "cs ''2g''" 1 "[1]" "[]"] by (simp del: is_xstring.simps)



text \<open>C34. A 64-bit value printed with its largest exact scale suffix parses back to itself,
  and 22 bytes are always enough for it.\<close>

theorem uint64_scaled_roundtrip:
  assumes "22 \<le> length b"
  shows "\<exists>sb m rest. uint64_scaled_to_str b (length b) v = Some (True, sb) \<and> sb_start sb = Some m \<and>
    str_to_uint64_scaled m = Some (Some (v, 0 # rest))"
proof -
  obtain w s where ws: "scale_symbol v = (w, s)" by fastforce
  from scaled_print[OF ws assms] scaled_parse[OF ws] show ?thesis by metis
qed

theorem uint64_scaled_roundtrip_witness:
  "\<exists>sb m rest. uint64_scaled_to_str (replicate 22 9) 22 3072 = Some (True, sb) \<and> sb_start sb = Some m \<and>
    str_to_uint64_scaled m = Some (Some (3072, 0 # rest))"
  using uint64_scaled_roundtrip[of "replicate 22 9" 3072] by simp

text \<open>\<open>parse_argv\<close> splits a command line at the delimiter: the strings at the returned
  offsets are the fields in order, empty ones included except a trailing one, up to the
  number of arguments asked for.\<close>

lemma parse_argv_fields:
  assumes "0 \<notin> set s" "s \<noteq> []" "d \<noteq> 0" "0 < max_argv"
  shows "\<exists>argv cmd. parse_argv (s @ 0 # rest) d max_argv = Some (argv, cmd) \<and>
    map (\<lambda>i. c_string (drop i cmd)) argv = take max_argv (trim_last (split_on d s))"
proof -
  have nz: "c_get (s @ 0 # rest) 0 = Some (hd s)" "hd s \<noteq> 0"
    using assms(1,2) by (cases s; auto simp: c_get_def)+
  have p: "parse_argv (s @ 0 # rest) d max_argv =
      Some (take max_argv (0 # arg_starts d s 0), nulled d s @ 0 # rest)"
    using parse_argv_loop_eq[OF assms(1,3), of "[0]" max_argv "[]" rest] nz assms(4)
    by (cases max_argv) (simp_all add: parse_argv_def)
  show ?thesis using p arg_strings[OF assms(1,3), of "nulled d s @ 0 # rest" "[]" rest]
    by (simp flip: take_map)
qed

end
