(* ===== verification/Dataformats.thy ===== *)
theory Dataformats
  imports Str
begin

text \<open>
  The textual and binary identifiers of \<open>dataformats.c\<close>: subscriber ids, rhizome ids and
  keys, phone numbers (DIDs), and little-endian integers in memory.
\<close>

subsection \<open>Subscriber ids\<close>

abbreviation SID_SIZE :: nat where "SID_SIZE \<equiv> 32"
abbreviation SID_STRLEN :: nat where "SID_STRLEN \<equiv> 64"

definition SID_BROADCAST :: "byte list" where
  "SID_BROADCAST = replicate SID_SIZE 0xFF"

text \<open>\<open>strcmp(p, q) == 0\<close> against a string constant, and \<open>strncasecmp(p, q, n) == 0\<close>.\<close>

definition c_streq :: "byte list \<Rightarrow> byte list \<Rightarrow> bool option" where
  "c_streq p q = c_strneq p q (c_strlen q + 1)"

fun c_strncaseeq :: "byte list \<Rightarrow> byte list \<Rightarrow> nat \<Rightarrow> bool option" where
  "c_strncaseeq p q 0 = Some True"
| "c_strncaseeq p q (Suc n) = do {
     c \<leftarrow> c_get p 0;
     d \<leftarrow> c_get q 0;
     if c_toupper c \<noteq> c_toupper d then Some False
     else if c = 0 then Some True else c_strncaseeq (tl p) (tl q) n
   }"

text \<open>The result is the return value and \<open>*sid\<close>.\<close>

definition str_to_sid_t :: "byte list \<Rightarrow> byte list \<Rightarrow> (int \<times> byte list) option" where
  "str_to_sid_t sid hex = do {
     eq \<leftarrow> c_streq hex (lit ''broadcast'');
     if eq then Some (0, SID_BROADCAST) else fromhexstr sid hex SID_SIZE
   }"

text \<open>\<open>tmp\<close> stands for the uninitialised local variable; the third component is what
  \<open>*endp\<close> is set to (\<open>None\<close>: unchanged), \<open>endp\<close> not being NULL.\<close>

definition strn_to_sid_t ::
  "byte list \<Rightarrow> byte list \<Rightarrow> byte list \<Rightarrow> (int \<times> byte list \<times> byte list option) option" where
  "strn_to_sid_t tmp sid hex = do {
     r \<leftarrow> str_startswith hex (lit ''broadcast'');
     if r = None then Some (0, SID_BROADCAST, None)
     else do {
       (n, tmp) \<leftarrow> fromhex tmp hex SID_SIZE;
       if n \<noteq> int SID_SIZE then Some (-1, sid, r) else Some (0, tmp, Some (drop SID_STRLEN hex))
     }
   }"

text \<open>The length \<open>*lenp\<close> is set to where the function returns 1.\<close>

definition strn_is_subscriber_id :: "byte list \<Rightarrow> nat option option" where
  "strn_is_subscriber_id sid = do {
     b \<leftarrow> c_strncaseeq sid (lit ''broadcast'') 9;
     if b then Some (Some 9)
     else do {
       x \<leftarrow> is_xsubstring sid SID_STRLEN;
       Some (if x then Some SID_STRLEN else None)
     }
   }"

definition str_is_subscriber_id :: "byte list \<Rightarrow> bool option" where
  "str_is_subscriber_id sid = do {
     r \<leftarrow> strn_is_subscriber_id sid;
     case r of
       Some len \<Rightarrow> do { c \<leftarrow> c_get sid (int len); Some (c = 0) }
     | None \<Rightarrow> Some False
   }"

subsection \<open>Rhizome ids and keys\<close>

definition rhizome_strn_is_manifest_id :: "byte list \<Rightarrow> bool option" where
  "rhizome_strn_is_manifest_id s = is_xsubstring s 64"

definition rhizome_str_is_manifest_id :: "byte list \<Rightarrow> bool option" where
  "rhizome_str_is_manifest_id s = is_xstring s 64"

definition rhizome_strn_is_bundle_key :: "byte list \<Rightarrow> bool option" where
  "rhizome_strn_is_bundle_key s = is_xsubstring s 64"

definition rhizome_str_is_bundle_key :: "byte list \<Rightarrow> bool option" where
  "rhizome_str_is_bundle_key s = is_xstring s 64"

definition rhizome_strn_is_bundle_crypt_key :: "byte list \<Rightarrow> bool option" where
  "rhizome_strn_is_bundle_crypt_key s = is_xsubstring s 64"

definition rhizome_str_is_bundle_crypt_key :: "byte list \<Rightarrow> bool option" where
  "rhizome_str_is_bundle_crypt_key s = is_xstring s 64"

definition rhizome_strn_is_file_hash :: "byte list \<Rightarrow> bool option" where
  "rhizome_strn_is_file_hash s = is_xsubstring s 128"

definition rhizome_str_is_file_hash :: "byte list \<Rightarrow> bool option" where
  "rhizome_str_is_file_hash s = is_xstring s 128"

subsection \<open>Phone numbers\<close>

definition is_didchar :: "byte \<Rightarrow> bool" where
  "is_didchar c \<longleftrightarrow> c_isdigit c \<or> c = ch CHR ''*'' \<or> c = ch CHR ''#'' \<or> c = ch CHR ''+''"

text \<open>\<open>for (i = 0; i < DID_MAXSIZE && is_didchar(did[i]); ++i);\<close>\<close>

fun did_scan :: "byte list \<Rightarrow> nat \<Rightarrow> nat option" where
  "did_scan p 0 = Some 0"
| "did_scan p (Suc n) = do {
     c \<leftarrow> c_get p 0;
     if is_didchar c then map_option Suc (did_scan (tl p) n) else Some 0
   }"

definition strn_is_did :: "byte list \<Rightarrow> nat option option" where
  "strn_is_did did = do {
     i \<leftarrow> did_scan did 32;
     Some (if i < 5 then None else Some i)
   }"

definition str_is_did :: "byte list \<Rightarrow> bool option" where
  "str_is_did did = do {
     r \<leftarrow> strn_is_did did;
     case r of
       Some len \<Rightarrow> do { c \<leftarrow> c_get did (int len); Some (c = 0) }
     | None \<Rightarrow> Some False
   }"

subsection \<open>Integers in memory\<close>

fun write_uint :: "byte list \<Rightarrow> int \<Rightarrow> 'w::len word \<Rightarrow> nat \<Rightarrow> byte list option" where
  "write_uint m p v 0 = Some m"
| "write_uint m p v (Suc n) = do {
     m \<leftarrow> c_put m p (ucast (v AND 0xff));
     write_uint m (p + 1) (drop_bit 8 v) n
   }"

text \<open>\<open>for (i = 0; i < n; i++) v = (v << 8) | o[n-1-i];\<close>\<close>

fun read_uint :: "byte list \<Rightarrow> int \<Rightarrow> 'w::len word \<Rightarrow> nat \<Rightarrow> 'w word option" where
  "read_uint m p v 0 = Some v"
| "read_uint m p v (Suc n) = do {
     c \<leftarrow> c_get m (p + int n);
     read_uint m p (push_bit 8 v OR ucast c) n
   }"

definition write_uint64 :: "byte list \<Rightarrow> int \<Rightarrow> u64 \<Rightarrow> byte list option" where
  "write_uint64 m p v = write_uint m p v 8"

definition write_uint32 :: "byte list \<Rightarrow> int \<Rightarrow> u32 \<Rightarrow> byte list option" where
  "write_uint32 m p v = write_uint m p v 4"

definition write_uint16 :: "byte list \<Rightarrow> int \<Rightarrow> u16 \<Rightarrow> byte list option" where
  "write_uint16 m p v = write_uint m p v 2"

definition read_uint64 :: "byte list \<Rightarrow> int \<Rightarrow> u64 option" where
  "read_uint64 m p = read_uint m p 0 8"

definition read_uint32 :: "byte list \<Rightarrow> int \<Rightarrow> u32 option" where
  "read_uint32 m p = read_uint m p 0 4"

definition read_uint16 :: "byte list \<Rightarrow> int \<Rightarrow> u16 option" where
  "read_uint16 m p = read_uint m p 0 2"

subsection \<open>Little-endian integers\<close>

fun le_bytes :: "'w::len word \<Rightarrow> nat \<Rightarrow> byte list" where
  "le_bytes v 0 = []"
| "le_bytes v (Suc n) = ucast (v AND 0xff) # le_bytes (drop_bit 8 v) n"

lemma le_bytes_length [simp]: "length (le_bytes v n) = n"
  by (induction n arbitrary: v) auto

lemma write_uint_eq:
  "0 \<le> p \<Longrightarrow> p + int n \<le> int (length m) \<Longrightarrow> write_uint m p v n = c_putn m p (le_bytes v n)"
proof (induction n arbitrary: m p v)
  case 0
  then show ?case by (simp add: c_putn_Nil)
next
  case (Suc n)
  then obtain m1 where m1: "c_put m p (ucast (v AND 0xff)) = Some m1" "length m1 = length m"
    by (simp add: c_put_def)
  then show ?case using Suc c_put_putn[of m p "ucast (v AND 0xff)" "le_bytes (drop_bit 8 v) n"] by simp
qed

lemma read_uint_eq:
  assumes "\<And>i. i < n \<Longrightarrow> c_get m (p + int i) = Some (bs ! i)" "length bs = n"
  shows "read_uint m p v n = Some (foldr (\<lambda>b v. push_bit 8 v OR ucast b) bs v)"
  using assms
proof (induction n arbitrary: v bs)
  case 0
  then show ?case by simp
next
  case (Suc n)
  then obtain xs b where bs: "bs = xs @ [b]" "length xs = n" by (metis length_Suc_conv_rev)
  have "c_get m (p + int i) = Some (xs ! i)" if "i < n" for i
    using Suc.prems(1)[of i] that bs by (simp add: nth_append)
  then show ?case using Suc.IH[of xs] Suc.prems(1)[of n] bs by (simp add: nth_append)
qed

lemma read_le_bytes:
  "foldr (\<lambda>b v. push_bit 8 v OR ucast b) (le_bytes v n) 0 = take_bit (8 * n) (v :: 'w::len word)"
proof (induction n arbitrary: v)
  case (Suc n)
  have "push_bit 8 (take_bit (8 * n) (drop_bit 8 v)) OR ucast (ucast (v AND 0xff) :: byte) = take_bit (8 * Suc n) v"
  proof (rule bit_word_eqI)
    fix i assume "i < LENGTH('w)"
    then show "bit (push_bit 8 (take_bit (8 * n) (drop_bit 8 v)) OR ucast (ucast (v AND 0xff) :: byte)) i = bit (take_bit (8 * Suc n) v) i"
      using bit_byte_at_0[of v i, where 'a = 'w] by (cases "i < 8") (auto simp: bit_simps)
  qed
  then show ?case using Suc by simp
qed simp

lemma uint_roundtrip:
  assumes "0 \<le> p" "p + int n \<le> int (length m)" "LENGTH('w) \<le> 8 * n"
  shows "\<exists>m'. write_uint m p (v :: 'w::len word) n = Some m' \<and> read_uint m' p 0 n = Some v \<and> length m' = length m"
proof -
  let ?m = "take (nat p) m @ le_bytes v n @ drop (nat p + n) m"
  have w: "write_uint m p v n = Some ?m" using write_uint_eq[OF assms(1,2)] assms by (simp add: c_putn_def)
  have "c_get ?m (p + int i) = Some (le_bytes v n ! i)" if "i < n" for i
    using that assms(1,2) by (auto simp: c_get_def nth_append nat_add_distrib min_def)
  then have "read_uint ?m p 0 n = Some (take_bit (8 * n) v)"
    using read_uint_eq[of n ?m p "le_bytes v n" "0 :: 'w word"] read_le_bytes[of v n] by simp
  moreover have "take_bit (8 * n) v = v" using assms(3) by (rule take_bit_word_eq_self)
  moreover have "length ?m = length m" using assms(1,2) by simp
  ultimately show ?thesis using w by auto
qed

subsection \<open>Comparing strings\<close>

lemma c_strneq_iff:
  assumes "0 \<notin> set s" "0 \<notin> set t"
  shows "c_strneq (s @ 0 # r) (t @ 0 # u) n = Some (take n (s @ [0]) = take n (t @ [0]))"
  using assms
proof (induction n arbitrary: s t)
  case (Suc n)
  show ?case
  proof (cases s; cases t)
    fix a s' b t' assume st: "s = a # s'" "t = b # t'"
    then show ?thesis using Suc by (auto simp: c_get_def)
  qed (use Suc.prems in \<open>auto simp: c_get_def\<close>)
qed simp

lemma c_streq_iff: "0 \<notin> set s \<Longrightarrow> 0 \<notin> set t \<Longrightarrow> c_streq (s @ 0 # r) (t @ [0]) = Some (s = t)"
proof -
  assume a: "0 \<notin> set s" "0 \<notin> set t"
  have l: "c_strlen (t @ [0]) = length t"
    unfolding c_strlen_def using a(2) by (subst takeWhile_append2) auto
  have "take (length t + 1) (s @ [0]) = take (length t + 1) (t @ [0]) \<longleftrightarrow> s = t"
  proof
    assume eq: "take (length t + 1) (s @ [0]) = take (length t + 1) (t @ [0])"
    then have eq': "take (length t + 1) (s @ [0]) = t @ [0]" by simp
    then have "0 \<in> set (take (length t + 1) (s @ [0]))" by simp
    then have "length s \<le> length t" using a(1) by (auto dest: in_set_takeD simp: take_Cons' split: if_splits)
    then show "s = t" using eq' by (auto dest: arg_cong[where f = length])
  qed simp
  then show ?thesis using c_strneq_iff[OF a, of r "[]" "length t + 1"] l by (simp add: c_streq_def)
qed

lemma c_toupper_zero: "c_toupper c = 0 \<longleftrightarrow> c = 0"
proof -
  have "c - 0x20 \<noteq> 0" if "c \<ge> 0x61" for c :: byte using that by (auto simp: word_le_nat_alt)
  then show ?thesis by (auto simp: c_toupper_def)
qed

lemma c_strncaseeq_iff:
  assumes "0 \<notin> set s" "0 \<notin> set t"
  shows "c_strncaseeq (s @ 0 # r) (t @ 0 # u) n = Some (take n (map c_toupper s @ [0]) = take n (map c_toupper t @ [0]))"
  using assms
proof (induction n arbitrary: s t)
  case (Suc n)
  have z: "c_toupper 0 = 0" by (simp add: c_toupper_def word_le_nat_alt)
  show ?case
  proof (cases s; cases t)
    fix a s' b t' assume st: "s = a # s'" "t = b # t'"
    then show ?thesis using Suc by (auto simp: c_get_def)
  qed (use Suc.prems z c_toupper_zero c_toupper_zero[THEN sym] in \<open>simp_all add: c_get_def, metis+\<close>)
qed simp

lemma is_xsubstring_iff:
  "0 \<notin> set s \<Longrightarrow> is_xsubstring (s @ 0 # rest) n = Some (n \<le> length s \<and> (\<forall>c \<in> set (take n s). c_isxdigit c))"
proof (induction n arbitrary: s)
  case (Suc n)
  have "\<not> c_isxdigit 0" by (simp add: c_isxdigit_def c_isdigit_def word_le_def)
  then show ?case using Suc by (cases s) (auto simp: c_get_def)
qed simp

lemma str_startswith_iff:
  "0 \<notin> set s \<Longrightarrow> 0 \<notin> set t \<Longrightarrow>
   str_startswith (s @ 0 # r) (t @ 0 # u) = Some (if take (length t) s = t then Some (drop (length t) s @ 0 # r) else None)"
proof (induction t arbitrary: s)
  case (Cons b t)
  then show ?case by (cases s) (auto simp: c_get_def)
qed simp

abbreviation broadcast :: "byte list" where
  "broadcast \<equiv> cs ''broadcast''"

lemma broadcast_nonzero: "0 \<notin> set broadcast" by simp

lemma upper_prefix_nine:
  assumes "0 \<notin> set s" "length t = 9" "0 \<notin> set t"
  shows "take 9 (map c_toupper s @ [0]) = take 9 (map c_toupper t @ [0]) \<longleftrightarrow> map c_toupper (take 9 s) = map c_toupper t"
proof -
  have r: "take 9 (map c_toupper t @ [0]) = map c_toupper t" using assms(2) by simp
  show ?thesis
  proof (cases "9 \<le> length s")
    case True
    then show ?thesis using r by (simp add: take_map)
  next
    case False
    then have "take 9 (map c_toupper s @ [0]) = map c_toupper s @ [0]" by simp
    moreover have "0 \<notin> set (map c_toupper t)" using assms(3) c_toupper_zero by force
    then have "map c_toupper s @ [0] \<noteq> map c_toupper t" by (metis in_set_conv_decomp)
    moreover have "map c_toupper (take 9 s) \<noteq> map c_toupper t"
      using False assms(2) by (metis length_map length_take min.cobounded2 min_def nat_le_linear)
    ultimately show ?thesis using r by simp
  qed
qed

text \<open>What \<open>str_is_subscriber_id\<close> accepts.\<close>

lemma str_is_subscriber_id_iff:
  assumes "0 \<notin> set s"
  shows "str_is_subscriber_id (s @ 0 # rest) =
    Some (map c_toupper s = map c_toupper broadcast \<or> (length s = 64 \<and> (\<forall>c \<in> set s. c_isxdigit c)))"
proof -
  have b: "c_strncaseeq (s @ 0 # rest) (lit ''broadcast'') 9 = Some (map c_toupper (take 9 s) = map c_toupper broadcast)"
    using c_strncaseeq_iff[OF assms broadcast_nonzero, of rest "[]" 9] upper_prefix_nine[OF assms, of broadcast] by simp
  have nx: "\<not> c_isxdigit (of_char CHR ''r'')" "\<not> c_isxdigit (of_char CHR ''R'')"
    by (simp_all add: c_isxdigit_def c_isdigit_def word_le_nat_alt)
  have end_iff: "(s @ 0 # rest) ! n = 0 \<longleftrightarrow> length s = n" if "n \<le> length s" for n
    using that assms by (auto simp: nth_append in_set_conv_nth)
  show ?thesis
  proof (cases "map c_toupper (take 9 s) = map c_toupper broadcast")
    case True
    have "length (take 9 s) = 9" using arg_cong[OF True, of length] by simp
    then have len: "9 \<le> length s" by simp
    have "c_toupper (s ! 1) = c_toupper (of_char CHR ''r'')"
      using arg_cong[OF True, of "\<lambda>l. l ! 1"] len by simp
    then have "\<not> c_isxdigit (s ! 1)"
      by (auto simp: c_toupper_def c_isxdigit_def c_isdigit_def word_le_nat_alt split: if_splits)
    then have "\<not> (length s = 64 \<and> (\<forall>c \<in> set s. c_isxdigit c))" using nth_mem[of 1 s] len by auto
    moreover have "map c_toupper s = map c_toupper broadcast \<longleftrightarrow> length s = 9"
      using True len by (metis \<open>length (take 9 s) = 9\<close> length_map take_all_iff order_refl)
    ultimately show ?thesis
      using True b len end_iff[OF len] by (auto simp: str_is_subscriber_id_def strn_is_subscriber_id_def c_get_def)
  next
    case False
    then have "map c_toupper s \<noteq> map c_toupper broadcast" by (auto simp: take_map)
    then show ?thesis
      using False b is_xsubstring_iff[OF assms, of rest 64] end_iff[of 64]
      by (auto simp: str_is_subscriber_id_def strn_is_subscriber_id_def c_get_def)
  qed
qed

subsection \<open>Properties\<close>

text \<open>C39. \<open>str_to_sid_t\<close> parses exactly the texts that \<open>str_is_subscriber_id\<close> accepts, with
  one exception: other spellings of "broadcast" than lower case pass the check and fail to
  parse.\<close>

theorem str_to_sid_t_accepts:
  assumes "0 \<notin> set s" "length sid = SID_SIZE"
  shows "\<exists>r sid'. str_to_sid_t sid (s @ 0 # rest) = Some (r, sid') \<and>
    (r = 0 \<longleftrightarrow> str_is_subscriber_id (s @ 0 # rest) = Some True \<and>
      (s = broadcast \<or> map c_toupper s \<noteq> map c_toupper broadcast))"
proof -
  have eq: "c_streq (s @ 0 # rest) (lit ''broadcast'') = Some (s = broadcast)"
    by (rule c_streq_iff[OF assms(1) broadcast_nonzero])
  obtain r sid' where f: "fromhexstr sid (s @ 0 # rest) SID_SIZE = Some (r, sid')"
    "r = 0 \<longleftrightarrow> length s = 2 * SID_SIZE \<and> (\<forall>c \<in> set s. c_isxdigit c)"
    using fromhexstr_result[OF assms(1), of SID_SIZE sid rest] assms(2) by auto
  have ne: "map c_toupper s \<noteq> map c_toupper broadcast" if "length s = 64"
    using that by (auto dest: arg_cong[where f = length])
  show ?thesis
  proof (cases "s = broadcast")
    case True
    have "str_to_sid_t sid (s @ 0 # rest) = Some (0, SID_BROADCAST)" using True eq by (simp add: str_to_sid_t_def)
    moreover have "str_is_subscriber_id (s @ 0 # rest) = Some True"
      using str_is_subscriber_id_iff[OF assms(1), of rest] True by simp
    ultimately show ?thesis using True by blast
  next
    case False
    have "str_to_sid_t sid (s @ 0 # rest) = Some (r, sid')" using False eq f(1) by (simp add: str_to_sid_t_def)
    moreover have "r = 0 \<longleftrightarrow> str_is_subscriber_id (s @ 0 # rest) = Some True \<and> map c_toupper s \<noteq> map c_toupper broadcast"
      using f(2) str_is_subscriber_id_iff[OF assms(1), of rest] ne by auto
    ultimately show ?thesis using False by blast
  qed
qed

theorem str_to_sid_t_accepts_witness:
  "\<exists>r sid'. str_to_sid_t (replicate 32 0) (lit ''Broadcast'') = Some (r, sid') \<and>
    (r = 0 \<longleftrightarrow> str_is_subscriber_id (lit ''Broadcast'') = Some True \<and>
      (cs ''Broadcast'' = broadcast \<or> map c_toupper (cs ''Broadcast'') \<noteq> map c_toupper broadcast))"
  using str_to_sid_t_accepts[of "cs ''Broadcast''" "replicate 32 0" "[]"] by simp

text \<open>C40. \<open>strn_to_sid_t\<close> tests the result of \<open>str_startswith\<close> the wrong way round: every
  text that does not start with "broadcast", a well-formed subscriber id included, is
  reported as the broadcast address, and a text that does is an error.\<close>

theorem strn_to_sid_t_inverted:
  assumes "0 \<notin> set s" "length tmp = SID_SIZE"
  shows "(take 9 s \<noteq> broadcast \<longrightarrow> strn_to_sid_t tmp sid (s @ 0 # rest) = Some (0, SID_BROADCAST, None)) \<and>
    (take 9 s = broadcast \<longrightarrow> (\<exists>e. strn_to_sid_t tmp sid (s @ 0 # rest) = Some (-1, sid, e)))"
proof -
  have st: "str_startswith (s @ 0 # rest) (lit ''broadcast'') = Some (if take 9 s = broadcast then Some (drop 9 s @ 0 # rest) else None)"
  proof -
    have "length broadcast = 9" by simp
    from str_startswith_iff[OF assms(1) broadcast_nonzero, of rest "[]", unfolded this] show ?thesis .
  qed
  have "\<exists>d. fromhex tmp (s @ 0 # rest) SID_SIZE = Some (-1, d)" if b: "take 9 s = broadcast"
  proof -
    have len: "9 \<le> length s" using arg_cong[OF b, of length] by simp
    have "s ! 1 = of_char CHR ''r''" using arg_cong[OF b, of "\<lambda>l. l ! 1"] len by simp
    then have "\<not> c_isxdigit (s ! 1)" by (simp add: c_isxdigit_def c_isdigit_def word_le_nat_alt)
    moreover have "s ! 1 \<in> set (take (2 * SID_SIZE) s)" using len by (auto simp: in_set_conv_nth intro!: exI[of _ 1])
    ultimately show ?thesis using fromhex_accepts[of 0 SID_SIZE tmp s rest] assms
      by (auto simp: fromhex_def)
  qed
  then show ?thesis using st by (auto simp: strn_to_sid_t_def)
qed

theorem strn_to_sid_t_inverted_witness:
  "strn_to_sid_t (replicate 32 0) [] (replicate 64 (ch CHR ''A'') @ [0]) = Some (0, SID_BROADCAST, None)"
proof -
  have "take 9 (replicate 64 (ch CHR ''A'')) ! 0 \<noteq> broadcast ! 0" by simp
  then have "take 9 (replicate 64 (ch CHR ''A'')) \<noteq> broadcast" by metis
  then show ?thesis using strn_to_sid_t_inverted[of "replicate 64 (ch CHR ''A'')" "replicate 32 0" "[]" "[]"] by simp
qed

text \<open>16-, 32- and 64-bit integers stored in memory read back as stored.\<close>

lemma uint_memory_roundtrip:
  assumes "0 \<le> p" "p + 8 \<le> int (length m)"
  shows "(\<exists>m'. write_uint64 m p v = Some m' \<and> read_uint64 m' p = Some v) \<and>
    (\<exists>m'. write_uint32 m p w = Some m' \<and> read_uint32 m' p = Some w) \<and>
    (\<exists>m'. write_uint16 m p x = Some m' \<and> read_uint16 m' p = Some x)"
  using uint_roundtrip[of p 8 m v] uint_roundtrip[of p 4 m w] uint_roundtrip[of p 2 m x] assms
  by (auto simp: write_uint64_def read_uint64_def write_uint32_def read_uint32_def write_uint16_def read_uint16_def)

end
