(* ===== verification/Crc32.thy ===== *)
theory Crc32
  imports Serval_Prelude
begin

text \<open>
  The table-driven CRC-32 of \<open>crc32.c\<close>, which guards the frames of packet radio links, and
  the bit-by-bit definition of CRC-32 it implements.
\<close>

definition crcTable :: "u32 list" where
  "crcTable =
     [0x00000000, 0x77073096, 0xEE0E612C, 0x990951BA, 0x076DC419, 0x706AF48F, 0xE963A535, 0x9E6495A3,
      0x0EDB8832, 0x79DCB8A4, 0xE0D5E91E, 0x97D2D988, 0x09B64C2B, 0x7EB17CBD, 0xE7B82D07, 0x90BF1D91,
      0x1DB71064, 0x6AB020F2, 0xF3B97148, 0x84BE41DE, 0x1ADAD47D, 0x6DDDE4EB, 0xF4D4B551, 0x83D385C7,
      0x136C9856, 0x646BA8C0, 0xFD62F97A, 0x8A65C9EC, 0x14015C4F, 0x63066CD9, 0xFA0F3D63, 0x8D080DF5,
      0x3B6E20C8, 0x4C69105E, 0xD56041E4, 0xA2677172, 0x3C03E4D1, 0x4B04D447, 0xD20D85FD, 0xA50AB56B,
      0x35B5A8FA, 0x42B2986C, 0xDBBBC9D6, 0xACBCF940, 0x32D86CE3, 0x45DF5C75, 0xDCD60DCF, 0xABD13D59,
      0x26D930AC, 0x51DE003A, 0xC8D75180, 0xBFD06116, 0x21B4F4B5, 0x56B3C423, 0xCFBA9599, 0xB8BDA50F,
      0x2802B89E, 0x5F058808, 0xC60CD9B2, 0xB10BE924, 0x2F6F7C87, 0x58684C11, 0xC1611DAB, 0xB6662D3D,
      0x76DC4190, 0x01DB7106, 0x98D220BC, 0xEFD5102A, 0x71B18589, 0x06B6B51F, 0x9FBFE4A5, 0xE8B8D433,
      0x7807C9A2, 0x0F00F934, 0x9609A88E, 0xE10E9818, 0x7F6A0DBB, 0x086D3D2D, 0x91646C97, 0xE6635C01,
      0x6B6B51F4, 0x1C6C6162, 0x856530D8, 0xF262004E, 0x6C0695ED, 0x1B01A57B, 0x8208F4C1, 0xF50FC457,
      0x65B0D9C6, 0x12B7E950, 0x8BBEB8EA, 0xFCB9887C, 0x62DD1DDF, 0x15DA2D49, 0x8CD37CF3, 0xFBD44C65,
      0x4DB26158, 0x3AB551CE, 0xA3BC0074, 0xD4BB30E2, 0x4ADFA541, 0x3DD895D7, 0xA4D1C46D, 0xD3D6F4FB,
      0x4369E96A, 0x346ED9FC, 0xAD678846, 0xDA60B8D0, 0x44042D73, 0x33031DE5, 0xAA0A4C5F, 0xDD0D7CC9,
      0x5005713C, 0x270241AA, 0xBE0B1010, 0xC90C2086, 0x5768B525, 0x206F85B3, 0xB966D409, 0xCE61E49F,
      0x5EDEF90E, 0x29D9C998, 0xB0D09822, 0xC7D7A8B4, 0x59B33D17, 0x2EB40D81, 0xB7BD5C3B, 0xC0BA6CAD,
      0xEDB88320, 0x9ABFB3B6, 0x03B6E20C, 0x74B1D29A, 0xEAD54739, 0x9DD277AF, 0x04DB2615, 0x73DC1683,
      0xE3630B12, 0x94643B84, 0x0D6D6A3E, 0x7A6A5AA8, 0xE40ECF0B, 0x9309FF9D, 0x0A00AE27, 0x7D079EB1,
      0xF00F9344, 0x8708A3D2, 0x1E01F268, 0x6906C2FE, 0xF762575D, 0x806567CB, 0x196C3671, 0x6E6B06E7,
      0xFED41B76, 0x89D32BE0, 0x10DA7A5A, 0x67DD4ACC, 0xF9B9DF6F, 0x8EBEEFF9, 0x17B7BE43, 0x60B08ED5,
      0xD6D6A3E8, 0xA1D1937E, 0x38D8C2C4, 0x4FDFF252, 0xD1BB67F1, 0xA6BC5767, 0x3FB506DD, 0x48B2364B,
      0xD80D2BDA, 0xAF0A1B4C, 0x36034AF6, 0x41047A60, 0xDF60EFC3, 0xA867DF55, 0x316E8EEF, 0x4669BE79,
      0xCB61B38C, 0xBC66831A, 0x256FD2A0, 0x5268E236, 0xCC0C7795, 0xBB0B4703, 0x220216B9, 0x5505262F,
      0xC5BA3BBE, 0xB2BD0B28, 0x2BB45A92, 0x5CB36A04, 0xC2D7FFA7, 0xB5D0CF31, 0x2CD99E8B, 0x5BDEAE1D,
      0x9B64C2B0, 0xEC63F226, 0x756AA39C, 0x026D930A, 0x9C0906A9, 0xEB0E363F, 0x72076785, 0x05005713,
      0x95BF4A82, 0xE2B87A14, 0x7BB12BAE, 0x0CB61B38, 0x92D28E9B, 0xE5D5BE0D, 0x7CDCEFB7, 0x0BDBDF21,
      0x86D3D2D4, 0xF1D4E242, 0x68DDB3F8, 0x1FDA836E, 0x81BE16CD, 0xF6B9265B, 0x6FB077E1, 0x18B74777,
      0x88085AE6, 0xFF0F6A70, 0x66063BCA, 0x11010B5C, 0x8F659EFF, 0xF862AE69, 0x616BFFD3, 0x166CCF45,
      0xA00AE278, 0xD70DD2EE, 0x4E048354, 0x3903B3C2, 0xA7672661, 0xD06016F7, 0x4969474D, 0x3E6E77DB,
      0xAED16A4A, 0xD9D65ADC, 0x40DF0B66, 0x37D83BF0, 0xA9BCAE53, 0xDEBB9EC5, 0x47B2CF7F, 0x30B5FFE9,
      0xBDBDF21C, 0xCABAC28A, 0x53B39330, 0x24B4A3A6, 0xBAD03605, 0xCDD70693, 0x54DE5729, 0x23D967BF,
      0xB3667A2E, 0xC4614AB8, 0x5D681B02, 0x2A6F2B94, 0xB40BBE37, 0xC30C8EA1, 0x5A05DF1B, 0x2D02EF8D]"

definition crc_byte :: "u32 \<Rightarrow> byte \<Rightarrow> u32" where
  "crc_byte crc b = drop_bit 8 crc XOR (crcTable ! unat ((crc XOR ucast b) AND 0xFF))"

definition Crc32_ComputeBuf :: "u32 \<Rightarrow> byte list \<Rightarrow> int \<Rightarrow> u32 option" where
  "Crc32_ComputeBuf inCrc32 buf bufLen = do {
     data \<leftarrow> c_getn buf 0 bufLen;
     Some (foldl crc_byte (inCrc32 XOR 0xFFFFFFFF) data XOR 0xFFFFFFFF)
   }"

text \<open>The polynomial division, one bit at a time.\<close>

definition crc_bit :: "u32 \<Rightarrow> u32" where
  "crc_bit c = (if bit c 0 then 0xEDB88320 XOR drop_bit 1 c else drop_bit 1 c)"

fun crc_bits :: "nat \<Rightarrow> u32 \<Rightarrow> u32" where
  "crc_bits 0 c = c"
| "crc_bits (Suc n) c = crc_bits n (crc_bit c)"

text \<open>The register after each byte of a message.\<close>

definition crc_ref :: "u32 \<Rightarrow> byte list \<Rightarrow> u32" where
  "crc_ref c data = foldl (\<lambda>c b. crc_bits 8 (c XOR ucast b)) c data"

subsection \<open>The division is linear and invertible\<close>

lemma crc_bit_xor: "crc_bit (a XOR b) = crc_bit a XOR crc_bit b"
  by (auto simp: crc_bit_def bit_xor_iff drop_bit_xor xor.assoc xor.left_commute)

lemma crc_bits_xor: "crc_bits n (a XOR b) = crc_bits n a XOR crc_bits n b"
  by (induction n arbitrary: a b) (simp_all add: crc_bit_xor)

lemma crc_bits_zero [simp]: "crc_bits n 0 = 0"
  by (induction n) (simp_all add: crc_bit_def)

lemma crc_bits_add: "crc_bits (m + n) c = crc_bits n (crc_bits m c)"
  by (induction m arbitrary: c) simp_all

lemma crc_bit_eq_0: "crc_bit c = 0 \<longleftrightarrow> c = 0"
proof
  assume z: "crc_bit c = 0"
  have no: "\<not> bit c 0"
  proof
    assume "bit c 0"
    then have x: "crc_bit c = 0xEDB88320 XOR drop_bit 1 c" by (simp add: crc_bit_def)
    have "bit (0xEDB88320 :: u32) 31" "\<not> bit (drop_bit 1 c) 31" using bit_imp_le_length[of c 32] by (auto simp: bit_drop_bit_eq)
    then have "bit (crc_bit c) 31" unfolding x bit_xor_iff by blast
    then show False using z by simp
  qed
  then have "drop_bit 1 c = 0" using z by (simp add: crc_bit_def)
  show "c = 0"
  proof (rule bit_word_eqI)
    fix n assume "n < LENGTH(32)"
    show "bit c n = bit 0 n"
    proof (cases n)
      case 0
      then show ?thesis using no by simp
    next
      case (Suc k)
      have "bit (drop_bit 1 c) k = bit (0 :: u32) k" using \<open>drop_bit 1 c = 0\<close> by (rule arg_cong)
      then show ?thesis using Suc by (simp add: bit_drop_bit_eq)
    qed
  qed
qed (simp add: crc_bit_def)

lemma crc_bits_eq_0: "crc_bits n c = 0 \<longleftrightarrow> c = 0"
  by (induction n arbitrary: c) (simp_all add: crc_bit_eq_0)

lemma xor_cancel: "(a :: u32) XOR c = b XOR c \<longleftrightarrow> a = b"
proof
  assume "a XOR c = b XOR c"
  then have "(a XOR c) XOR c = (b XOR c) XOR c" by (rule arg_cong)
  then show "a = b" by (simp add: xor.assoc)
qed simp

lemma crc_bits_inj: "crc_bits n a = crc_bits n b \<longleftrightarrow> a = b"
proof
  assume "crc_bits n a = crc_bits n b"
  then have "crc_bits n (a XOR b) = 0" by (simp add: crc_bits_xor)
  then have "a XOR b = 0" by (simp add: crc_bits_eq_0)
  moreover have "a = (a XOR b) XOR b" by (simp add: xor.assoc)
  ultimately show "a = b" by simp
qed simp

text \<open>Shifting out bits that are zero is a plain shift.\<close>

lemma crc_bits_shift: "(\<And>i. i < n \<Longrightarrow> \<not> bit c i) \<Longrightarrow> crc_bits n c = drop_bit n c"
proof (induction n arbitrary: c)
  case (Suc n)
  then have "crc_bit c = drop_bit 1 c" by (simp add: crc_bit_def)
  moreover have "\<not> bit (drop_bit 1 c) i" if "i < n" for i using Suc.prems[of "Suc i"] that by (simp add: bit_drop_bit_eq)
  ultimately show ?case using Suc.IH[of "drop_bit 1 c"] by (simp add: drop_bit_drop_bit)
qed simp

subsection \<open>The table\<close>

text \<open>By linearity the table is generated by its entries at the powers of two.\<close>

fun dbl :: "int list \<Rightarrow> int list \<Rightarrow> int list" where
  "dbl [] t = t"
| "dbl (b # bs) t = dbl bs (t @ map (\<lambda>x. b XOR x) t)"

definition crc_basis :: "int list" where
  "crc_basis = [0x77073096, 0xEE0E612C, 0x076DC419, 0x0EDB8832, 0x1DB71064, 0x3B6E20C8, 0x76DC4190, 0xEDB88320]"

lemma crcTable_dbl: "dbl crc_basis [0] = map uint crcTable"
proof -
  have "map uint crcTable = [0x00000000, 0x77073096, 0xEE0E612C, 0x990951BA, 0x076DC419, 0x706AF48F, 0xE963A535, 0x9E6495A3, 0x0EDB8832, 0x79DCB8A4, 0xE0D5E91E, 0x97D2D988, 0x09B64C2B, 0x7EB17CBD, 0xE7B82D07, 0x90BF1D91, 0x1DB71064, 0x6AB020F2, 0xF3B97148, 0x84BE41DE, 0x1ADAD47D, 0x6DDDE4EB, 0xF4D4B551, 0x83D385C7, 0x136C9856, 0x646BA8C0, 0xFD62F97A, 0x8A65C9EC, 0x14015C4F, 0x63066CD9, 0xFA0F3D63, 0x8D080DF5, 0x3B6E20C8, 0x4C69105E, 0xD56041E4, 0xA2677172, 0x3C03E4D1, 0x4B04D447, 0xD20D85FD, 0xA50AB56B, 0x35B5A8FA, 0x42B2986C, 0xDBBBC9D6, 0xACBCF940, 0x32D86CE3, 0x45DF5C75, 0xDCD60DCF, 0xABD13D59, 0x26D930AC, 0x51DE003A, 0xC8D75180, 0xBFD06116, 0x21B4F4B5, 0x56B3C423, 0xCFBA9599, 0xB8BDA50F, 0x2802B89E, 0x5F058808, 0xC60CD9B2, 0xB10BE924, 0x2F6F7C87, 0x58684C11, 0xC1611DAB, 0xB6662D3D, 0x76DC4190, 0x01DB7106, 0x98D220BC, 0xEFD5102A, 0x71B18589, 0x06B6B51F, 0x9FBFE4A5, 0xE8B8D433, 0x7807C9A2, 0x0F00F934, 0x9609A88E, 0xE10E9818, 0x7F6A0DBB, 0x086D3D2D, 0x91646C97, 0xE6635C01, 0x6B6B51F4, 0x1C6C6162, 0x856530D8, 0xF262004E, 0x6C0695ED, 0x1B01A57B, 0x8208F4C1, 0xF50FC457, 0x65B0D9C6, 0x12B7E950, 0x8BBEB8EA, 0xFCB9887C, 0x62DD1DDF, 0x15DA2D49, 0x8CD37CF3, 0xFBD44C65, 0x4DB26158, 0x3AB551CE, 0xA3BC0074, 0xD4BB30E2, 0x4ADFA541, 0x3DD895D7, 0xA4D1C46D, 0xD3D6F4FB, 0x4369E96A, 0x346ED9FC, 0xAD678846, 0xDA60B8D0, 0x44042D73, 0x33031DE5, 0xAA0A4C5F, 0xDD0D7CC9, 0x5005713C, 0x270241AA, 0xBE0B1010, 0xC90C2086, 0x5768B525, 0x206F85B3, 0xB966D409, 0xCE61E49F, 0x5EDEF90E, 0x29D9C998, 0xB0D09822, 0xC7D7A8B4, 0x59B33D17, 0x2EB40D81, 0xB7BD5C3B, 0xC0BA6CAD, 0xEDB88320, 0x9ABFB3B6, 0x03B6E20C, 0x74B1D29A, 0xEAD54739, 0x9DD277AF, 0x04DB2615, 0x73DC1683, 0xE3630B12, 0x94643B84, 0x0D6D6A3E, 0x7A6A5AA8, 0xE40ECF0B, 0x9309FF9D, 0x0A00AE27, 0x7D079EB1, 0xF00F9344, 0x8708A3D2, 0x1E01F268, 0x6906C2FE, 0xF762575D, 0x806567CB, 0x196C3671, 0x6E6B06E7, 0xFED41B76, 0x89D32BE0, 0x10DA7A5A, 0x67DD4ACC, 0xF9B9DF6F, 0x8EBEEFF9, 0x17B7BE43, 0x60B08ED5, 0xD6D6A3E8, 0xA1D1937E, 0x38D8C2C4, 0x4FDFF252, 0xD1BB67F1, 0xA6BC5767, 0x3FB506DD, 0x48B2364B, 0xD80D2BDA, 0xAF0A1B4C, 0x36034AF6, 0x41047A60, 0xDF60EFC3, 0xA867DF55, 0x316E8EEF, 0x4669BE79, 0xCB61B38C, 0xBC66831A, 0x256FD2A0, 0x5268E236, 0xCC0C7795, 0xBB0B4703, 0x220216B9, 0x5505262F, 0xC5BA3BBE, 0xB2BD0B28, 0x2BB45A92, 0x5CB36A04, 0xC2D7FFA7, 0xB5D0CF31, 0x2CD99E8B, 0x5BDEAE1D, 0x9B64C2B0, 0xEC63F226, 0x756AA39C, 0x026D930A, 0x9C0906A9, 0xEB0E363F, 0x72076785, 0x05005713, 0x95BF4A82, 0xE2B87A14, 0x7BB12BAE, 0x0CB61B38, 0x92D28E9B, 0xE5D5BE0D, 0x7CDCEFB7, 0x0BDBDF21, 0x86D3D2D4, 0xF1D4E242, 0x68DDB3F8, 0x1FDA836E, 0x81BE16CD, 0xF6B9265B, 0x6FB077E1, 0x18B74777, 0x88085AE6, 0xFF0F6A70, 0x66063BCA, 0x11010B5C, 0x8F659EFF, 0xF862AE69, 0x616BFFD3, 0x166CCF45, 0xA00AE278, 0xD70DD2EE, 0x4E048354, 0x3903B3C2, 0xA7672661, 0xD06016F7, 0x4969474D, 0x3E6E77DB, 0xAED16A4A, 0xD9D65ADC, 0x40DF0B66, 0x37D83BF0, 0xA9BCAE53, 0xDEBB9EC5, 0x47B2CF7F, 0x30B5FFE9, 0xBDBDF21C, 0xCABAC28A, 0x53B39330, 0x24B4A3A6, 0xBAD03605, 0xCDD70693, 0x54DE5729, 0x23D967BF, 0xB3667A2E, 0xC4614AB8, 0x5D681B02, 0x2A6F2B94, 0xB40BBE37, 0xC30C8EA1, 0x5A05DF1B, 0x2D02EF8D]"
    by (simp add: crcTable_def)
  also have "\<dots> = dbl crc_basis [0]" by code_simp
  finally show ?thesis by simp
qed

lemma crc_bits_8: "crc_bits 8 c = crc_bit (crc_bit (crc_bit (crc_bit (crc_bit (crc_bit (crc_bit (crc_bit c)))))))"
  by (simp add: eval_nat_numeral)

definition crc_entry :: "nat \<Rightarrow> int" where
  "crc_entry i = uint (crc_bits 8 (of_nat i))"

lemma crc_basis_eq: "crc_basis = map (\<lambda>k. crc_entry (2 ^ k)) [0, 1, 2, 3, 4, 5, 6, 7]"
  by (simp add: crc_basis_def crc_entry_def crc_bits_8 crc_bit_def)

lemma crc_entry_add: "i < 2 ^ k \<Longrightarrow> crc_entry (2 ^ k + i) = crc_entry (2 ^ k) XOR crc_entry i"
proof -
  assume i: "i < 2 ^ k"
  have b: "bit (2 ^ k + i) n \<longleftrightarrow> bit (2 ^ k XOR i) n" for n
  proof -
    have "take_bit k i = i" using i by (simp add: take_bit_nat_eq_self)
    then have "\<not> bit i n" if "\<not> n < k" for n using that by (metis bit_take_bit_iff)
    then have "2 ^ k + i = 2 ^ k OR i" by (intro disjunctive_add) (auto simp: bit_exp_iff)
    moreover have "2 ^ k XOR i = 2 ^ k OR i"
      using \<open>\<And>n. \<not> n < k \<Longrightarrow> \<not> bit i n\<close> by (intro bit_eqI) (auto simp: bit_simps)
    ultimately show ?thesis by simp
  qed
  then have "2 ^ k + i = 2 ^ k XOR i" by (intro bit_eqI)
  then have "(of_nat (2 ^ k + i) :: u32) = of_nat (2 ^ k) XOR of_nat i" by (simp only: of_nat_xor_eq)
  then show ?thesis by (simp only: crc_entry_def crc_bits_xor unsigned_xor_eq)
qed

lemma dbl_table:
  "dbl (map (\<lambda>k. crc_entry (2 ^ k)) [a..<a + n]) (map crc_entry [0..<2 ^ a]) = map crc_entry [0..<2 ^ (a + n)]"
proof (induction n arbitrary: a)
  case (Suc n)
  have "[0..<2 ^ Suc a] = [0..<2 ^ a] @ [2 ^ a..<2 ^ a + 2 ^ a]"
    unfolding power_Suc mult_2 by (rule upt_add_eq_append) simp
  also have "[2 ^ a..<2 ^ a + 2 ^ a] = map (\<lambda>i. i + 2 ^ a) [0..<2 ^ a]" by (rule map_add_upt[symmetric])
  finally have "map crc_entry [0..<2 ^ Suc a] = map crc_entry [0..<2 ^ a] @ map (\<lambda>i. crc_entry (2 ^ a + i)) [0..<2 ^ a]"
    by (simp only: map_append map_map comp_def add.commute)
  also have "map (\<lambda>i. crc_entry (2 ^ a + i)) [0..<2 ^ a] = map (\<lambda>x. crc_entry (2 ^ a) XOR x) (map crc_entry [0..<2 ^ a])"
    by (simp add: crc_entry_add)
  finally have "map crc_entry [0..<2 ^ Suc a] = map crc_entry [0..<2 ^ a] @ map (\<lambda>x. crc_entry (2 ^ a) XOR x) (map crc_entry [0..<2 ^ a])" .
  moreover have "[a..<a + Suc n] = a # [Suc a..<Suc a + n]" by (simp add: upt_conv_Cons)
  ultimately show ?case using Suc.IH[of "Suc a"] by simp
qed simp

lemma crcTable_entry: "i < 256 \<Longrightarrow> crcTable ! i = crc_bits 8 (of_nat i)"
proof -
  assume i: "i < 256"
  have l: "[0, 1, 2, 3, 4, 5, 6, 7] = [0..<0 + 8]" by (simp add: upt_rec)
  have "map uint crcTable = map crc_entry [0..<2 ^ (0 + 8)]"
    unfolding crcTable_dbl[symmetric] crc_basis_eq l dbl_table[symmetric] by (simp add: crc_entry_def del: upt_rec_numeral)
  then have e: "map uint crcTable ! i = map crc_entry [0..<2 ^ (0 + 8)] ! i" by (rule arg_cong)
  have "length crcTable = 256" by (simp add: crcTable_def)
  then have "uint (crcTable ! i) = crc_entry i"
    using e i by (simp del: upt_rec_numeral)
  then show ?thesis by (simp add: crc_entry_def word_uint_eq_iff)
qed

subsection \<open>The byte step\<close>

lemma crc_byte_eq: "crc_byte c b = crc_bits 8 (c XOR ucast b)"
proof -
  let ?x = "c XOR ucast b :: u32" and ?lo = "(c XOR ucast b) AND 0xFF :: u32"
  have ff: "(0xFF :: u32) = mask 8" by (simp add: mask_eq_exp_minus_1)
  have lo: "?lo = take_bit 8 ?x" unfolding ff by (simp add: take_bit_eq_mask)
  have "unat (take_bit 8 ?x) < 2 ^ 8" by (simp only: unsigned_take_bit_eq take_bit_nat_less_exp)
  then have t: "crcTable ! unat ?lo = crc_bits 8 ?lo" using crcTable_entry[of "unat ?lo"] unfolding lo by simp
  define hi where "hi = push_bit 8 (drop_bit 8 ?x)"
  have x: "?x = hi XOR ?lo" unfolding lo hi_def by (rule bit_word_eqI) (auto simp: bit_simps)
  have h: "crc_bits 8 hi = drop_bit 8 hi" by (rule crc_bits_shift) (auto simp: hi_def bit_simps)
  have "drop_bit 8 hi = drop_bit 8 c" unfolding hi_def
    by (rule bit_word_eqI) (auto simp: bit_simps dest: bit_imp_le_length)
  then have "crc_bits 8 ?x = drop_bit 8 c XOR crc_bits 8 ?lo" by (subst x) (simp only: crc_bits_xor h)
  then show ?thesis using t by (simp add: crc_byte_def)
qed

lemma crc_fold_ref: "foldl crc_byte c data = crc_ref c data"
  by (simp add: crc_ref_def crc_byte_eq[abs_def])

lemma crc_ref_append: "crc_ref c (a @ b) = crc_ref (crc_ref c a) b"
  by (simp add: crc_ref_def)

lemma crc_ref_inj: "crc_ref c data = crc_ref d data \<longleftrightarrow> c = d"
proof (induction data arbitrary: c d)
  case (Cons b data)
  then show ?case by (simp add: crc_ref_def crc_bits_inj xor_cancel)
qed (simp add: crc_ref_def)

text \<open>Up to four bytes enter the register like one 32-bit word.\<close>

fun le_word :: "byte list \<Rightarrow> u32" where
  "le_word [] = 0"
| "le_word (b # bs) = ucast b XOR push_bit 8 (le_word bs)"

lemma le_word_bits: "bit (le_word bs) n \<Longrightarrow> n < 8 * length bs"
proof (induction bs arbitrary: n)
  case (Cons b bs)
  then have "bit b n \<or> (8 \<le> n \<and> bit (le_word bs) (n - 8))" by (auto simp: bit_simps)
  then show ?case using Cons.IH[of "n - 8"] bit_imp_le_length[of b n] by auto
qed simp

lemma crc_ref_word: "length data \<le> 4 \<Longrightarrow> crc_ref c data = crc_bits (8 * length data) (c XOR le_word data)"
proof (induction data arbitrary: c)
  case (Cons b data)
  let ?w = "le_word data"
  have "drop_bit 8 (push_bit 8 ?w) = ?w"
    using le_word_bits[of data] Cons.prems by (intro bit_word_eqI) (force simp: bit_simps)
  moreover have "crc_bits 8 (push_bit 8 ?w) = drop_bit 8 (push_bit 8 ?w)"
    by (rule crc_bits_shift) (simp add: bit_push_bit_iff)
  ultimately have "crc_bits 8 (c XOR ucast b) XOR ?w = crc_bits 8 (c XOR le_word (b # data))"
    by (simp add: crc_bits_xor flip: xor.assoc)
  moreover have "crc_ref c (b # data) = crc_ref (crc_bits 8 (c XOR ucast b)) data" by (simp add: crc_ref_def)
  moreover have "8 * length (b # data) = 8 + 8 * length data" by simp
  ultimately show ?case using Cons by (simp add: crc_bits_add)
qed (simp add: crc_ref_def)

lemma le_word_inj: "length x = length y \<Longrightarrow> length x \<le> 4 \<Longrightarrow> le_word x = le_word y \<longleftrightarrow> x = y"
proof (induction x y rule: list_induct2)
  case (Cons a x b y)
  have lo: "bit (le_word (d # ds)) n \<longleftrightarrow> bit d n" if "n < 8" for d ds n
    using that by (simp add: bit_simps)
  have hi: "bit (le_word (d # ds)) (n + 8) \<longleftrightarrow> bit (le_word ds) n" if "n < 24" for d ds n
    using that bit_imp_le_length[of d "n + 8"] by (auto simp: bit_simps)
  show ?case
  proof
    assume eq: "le_word (a # x) = le_word (b # y)"
    have "bit a n = bit b n" if "n < 8" for n using lo[OF that, of a x] lo[OF that, of b y] eq by simp
    then have "a = b" by (intro bit_word_eqI) simp
    moreover have "le_word x = le_word y"
    proof (rule bit_word_eqI)
      fix n
      show "bit (le_word x) n = bit (le_word y) n"
      proof (cases "n < 24")
        case True
        then show ?thesis using hi[OF True, of a x] hi[OF True, of b y] eq by simp
      next
        case False
        then show ?thesis using le_word_bits[of x n] le_word_bits[of y n] Cons by auto
      qed
    qed
    ultimately show "a # x = b # y" using Cons by simp
  qed simp
qed simp

subsection \<open>Properties\<close>

text \<open>C8. The table-driven routine computes CRC-32: the remainder of the bit-by-bit division
  by the reflected polynomial 0xEDB88320 with the register inverted before and after. Checksums
  can be accumulated over consecutive buffers.\<close>

theorem Crc32_ComputeBuf_correct:
  assumes "0 \<le> n" "n \<le> int (length data)"
  shows "Crc32_ComputeBuf c data n = Some (NOT (crc_ref (NOT c) (take (nat n) data))) \<and>
    Option.bind (Crc32_ComputeBuf 0 data n) (\<lambda>c. Crc32_ComputeBuf c more (int (length more))) =
      Crc32_ComputeBuf 0 (take (nat n) data @ more) (n + int (length more))"
proof -
  have x: "c XOR 0xFFFFFFFF = NOT c" for c :: u32
  proof -
    have "(0xFFFFFFFF :: u32) = - 1" by simp
    then show ?thesis by (simp only: bit.xor_one_right)
  qed
  have f: "Crc32_ComputeBuf c d (int (length d)) = Some (NOT (crc_ref (NOT c) d))" for c d
    by (simp only: Crc32_ComputeBuf_def c_getn_all x crc_fold_ref bind.bind_lunit)
  have p: "Crc32_ComputeBuf c data n = Some (NOT (crc_ref (NOT c) (take (nat n) data)))" for c
    using assms by (simp only: Crc32_ComputeBuf_def c_getn_Some x crc_fold_ref bind.bind_lunit) (simp add: c_getn_def)
  have l: "n + int (length more) = int (length (take (nat n) data @ more))" using assms by simp
  show ?thesis unfolding l f p by (simp only: bind.bind_lunit f crc_ref_append bit.double_compl simp_thms)
qed

theorem Crc32_ComputeBuf_correct_witness:
  "Crc32_ComputeBuf 0 [0x61, 0x62] 1 = Some (NOT (crc_ref (NOT 0) [0x61])) \<and>
    Option.bind (Crc32_ComputeBuf 0 [0x61, 0x62] 1) (\<lambda>c. Crc32_ComputeBuf c [0x63] 1) = Crc32_ComputeBuf 0 [0x61, 0x63] 2"
  using Crc32_ComputeBuf_correct[of 1 "[0x61, 0x62]" 0 "[0x63]"] by force

text \<open>C24. Any corruption confined to four consecutive bytes changes the checksum.\<close>

theorem crc32_detects_burst:
  assumes "length x = length y" "length x \<le> 4" "x \<noteq> y"
  shows "Crc32_ComputeBuf 0 (a @ x @ b) (int (length (a @ x @ b))) \<noteq>
    Crc32_ComputeBuf 0 (a @ y @ b) (int (length (a @ x @ b)))"
proof -
  let ?i = "0 XOR 0xFFFFFFFF :: u32"
  have l: "length (a @ x @ b) = length (a @ y @ b)" using assms(1) by simp
  have "le_word x \<noteq> le_word y" using le_word_inj assms by blast
  then have "crc_ref ?i a XOR le_word x \<noteq> crc_ref ?i a XOR le_word y"
    unfolding xor.commute[of "crc_ref ?i a"] by (simp only: xor_cancel not_False_eq_True)
  then have "crc_ref (crc_ref ?i a) x \<noteq> crc_ref (crc_ref ?i a) y"
    using crc_ref_word[of x "crc_ref ?i a"] crc_ref_word[of y "crc_ref ?i a"] assms crc_bits_inj by metis
  then have ne: "crc_ref ?i (a @ x @ b) \<noteq> crc_ref ?i (a @ y @ b)" by (simp only: crc_ref_append crc_ref_inj not_False_eq_True)
  have g: "Crc32_ComputeBuf 0 d (int (length d)) = Some (crc_ref ?i d XOR 0xFFFFFFFF)" for d
    by (simp only: Crc32_ComputeBuf_def c_getn_all crc_fold_ref bind.bind_lunit)
  have "crc_ref ?i (a @ x @ b) XOR 0xFFFFFFFF \<noteq> crc_ref ?i (a @ y @ b) XOR 0xFFFFFFFF"
    using ne by (simp only: xor_cancel not_False_eq_True)
  then show ?thesis using g[of "a @ x @ b"] g[of "a @ y @ b"] l by simp
qed

theorem crc32_detects_burst_witness:
  "Crc32_ComputeBuf 0 [1, 2, 3] 3 \<noteq> Crc32_ComputeBuf 0 [1, 7, 3] 3"
  using crc32_detects_burst[of "[2]" "[7]" "[1]" "[3]"] by simp

end
