(* ===== verification/Slip.thy ===== *)
theory Slip
  imports Crc32 Dataformats
begin

text \<open>
  The framing of packets on stream links: \<open>slip.c\<close> (the SLIP and UPPER7 encoders and the
  incremental decoders) and the receiving loop of a stream interface in
  \<open>overlay_interface.c\<close>. The decoder state is a record with the fields of
  \<open>struct slip_decode_state\<close>; its two arrays are lists of their fixed lengths, so a write
  outside them is a fault. Logging is left out, and so is the effect of a complete RSSI line
  on the radio statistics (\<open>parse_rfd900_rssi\<close>), which no other part of the decoder reads.
  The checksum bytes are assembled at 32 bits.
\<close>

abbreviation RX_BUFFER_SIZE :: int where "RX_BUFFER_SIZE \<equiv> 2048"
abbreviation RSSI_TEXT_SIZE :: int where "RSSI_TEXT_SIZE \<equiv> 256"

record slip_decode_state =
  sd_encapsulator :: int
  sd_state :: int
  sd_src :: "byte list"
  sd_src_size :: int
  sd_rssi_text :: "byte list"
  sd_rssi_len :: int
  sd_packet_length :: int
  sd_dst :: "byte list"
  sd_crc :: u32
  sd_src_offset :: int
  sd_dst_offset :: int

text \<open>The state of an interface that has just been set up, in zeroed memory.\<close>

definition slip_decode_init :: slip_decode_state where
  "slip_decode_init = \<lparr>sd_encapsulator = 1, sd_state = 0, sd_src = [], sd_src_size = 0,
     sd_rssi_text = replicate 256 0, sd_rssi_len = 0, sd_packet_length = 0, sd_dst = replicate 2048 0,
     sd_crc = 0, sd_src_offset = 0, sd_dst_offset = 0\<rparr>"

subsection \<open>Encoders\<close>

definition slip_escape :: "byte \<Rightarrow> byte list" where
  "slip_escape c =
     (if c = 0xc0 then [0xdb, 0xdc] else if c = 0xdb then [0xdb, 0xdd]
      else if c = 0x0a then [0xdb, 0x7a] else if c = 0x0d then [0xdb, 0x7d]
      else if c = 0x0f then [0xdb, 0x7f] else if c = 0x1b then [0xdb, 0x6b] else [c])"

fun slip_encode_loop :: "byte list \<Rightarrow> byte list \<Rightarrow> int \<Rightarrow> int \<Rightarrow> (int \<times> byte list) option" where
  "slip_encode_loop [] dst offset dst_len = do {
     dst \<leftarrow> c_put dst offset 0xc0;
     Some (offset + 1, dst)
   }"
| "slip_encode_loop (c # src) dst offset dst_len =
     (if offset + 3 > dst_len then Some (-1, dst)
      else do {
        dst \<leftarrow> c_putn dst offset (slip_escape c);
        slip_encode_loop src dst (offset + int (length (slip_escape c))) dst_len
      })"

text \<open>The result is the return value, the source (whose four bytes after the packet are
  overwritten with the checksum) and the destination.\<close>

definition slip_encode_slip :: "byte list \<Rightarrow> int \<Rightarrow> byte list \<Rightarrow> int \<Rightarrow> (int \<times> byte list \<times> byte list) option" where
  "slip_encode_slip src src_bytes dst dst_len =
     (if 2 > dst_len then Some (-1, src, dst)
      else do {
        dst \<leftarrow> c_put dst 0 0xc0;
        crc \<leftarrow> Crc32_ComputeBuf 0 src src_bytes;
        src \<leftarrow> write_uint32 src src_bytes crc;
        data \<leftarrow> c_getn src 0 (src_bytes + 4);
        (r, dst) \<leftarrow> slip_encode_loop data dst 1 dst_len;
        Some (r, src, dst)
      })"

text \<open>Eight bytes of seven bits from seven bytes.\<close>

definition upper7_block :: "byte list \<Rightarrow> byte list" where
  "upper7_block v =
     [0x80 OR drop_bit 1 (v ! 0),
      0x80 OR push_bit 6 (v ! 0 AND 0x01) OR drop_bit 2 (v ! 1),
      0x80 OR push_bit 5 (v ! 1 AND 0x03) OR drop_bit 3 (v ! 2),
      0x80 OR push_bit 4 (v ! 2 AND 0x07) OR drop_bit 4 (v ! 3),
      0x80 OR push_bit 3 (v ! 3 AND 0x0f) OR drop_bit 5 (v ! 4),
      0x80 OR push_bit 2 (v ! 4 AND 0x1f) OR drop_bit 6 (v ! 5),
      0x80 OR push_bit 1 (v ! 5 AND 0x3f) OR drop_bit 7 (v ! 6),
      0x80 OR push_bit 0 (v ! 6 AND 0x7f)]"

text \<open>The loop over the packet, \<open>src\<close> being the bytes from index \<open>i\<close> on: seven at a
  time, the last group padded with zeros.\<close>

function upper7_encode_loop :: "byte list \<Rightarrow> byte list \<Rightarrow> int \<Rightarrow> int \<Rightarrow> (int \<times> byte list) option" where
  "upper7_encode_loop src dst out_len dst_len =
     (if src = [] then do {
        dst \<leftarrow> c_put dst out_len 0x7D;
        if out_len + 1 > dst_len then None else Some (out_len + 1, dst)
      } else do {
        let v = take 7 (src @ replicate 7 0);
        if out_len + 8 > dst_len then Some (-1, dst)
        else do {
          dst \<leftarrow> c_putn dst out_len (upper7_block v);
          upper7_encode_loop (drop 7 src) dst (out_len + 8) dst_len
        }
      })"
  by pat_completeness auto
termination
  by (relation "measure (\<lambda>(src, dst, out, l). length src)") (auto simp: length_greater_0_conv[symmetric] simp del: length_greater_0_conv)

declare upper7_encode_loop.simps [simp del]

definition upper7_header :: "int \<Rightarrow> u32 \<Rightarrow> byte list" where
  "upper7_header n crc =
     [0x7B,
      word_of_int (0x80 + (drop_bit 7 n AND 0x7f)),
      word_of_int (0x80 + (n AND 0x7f)),
      ucast (0x80 OR (drop_bit 25 crc AND 0x7f)),
      ucast (0x80 OR (drop_bit 18 crc AND 0x7f)),
      ucast (0x80 OR (drop_bit 11 crc AND 0x7f)),
      ucast (0x80 OR (drop_bit 4 crc AND 0x7f)),
      ucast (0x80 OR (crc AND 0x7f))]"

text \<open>The final \<open>FATALF\<close> aborts the program: \<open>None\<close>.\<close>

definition slip_encode_upper7 :: "byte list \<Rightarrow> int \<Rightarrow> byte list \<Rightarrow> int \<Rightarrow> (int \<times> byte list) option" where
  "slip_encode_upper7 src src_bytes dst dst_len =
     (if src_bytes < 1 then Some (0, dst)
      else if src_bytes > 0x3fff then Some (-1, dst)
      else if dst_len < 9 + src_bytes + src_bytes div 7 + 1 then Some (-1, dst)
      else do {
        crc \<leftarrow> Crc32_ComputeBuf 0 src src_bytes;
        dst \<leftarrow> c_putn dst 0 (upper7_header src_bytes crc);
        data \<leftarrow> c_getn src 0 src_bytes;
        upper7_encode_loop data dst 8 dst_len
      })"

text \<open>Formats 0 (SLIP) and 1 (UPPER7); any other is an error.\<close>

definition slip_encode :: "int \<Rightarrow> byte list \<Rightarrow> int \<Rightarrow> byte list \<Rightarrow> int \<Rightarrow> (int \<times> byte list \<times> byte list) option" where
  "slip_encode format src src_bytes dst dst_len =
     (if format = 0 then slip_encode_slip src src_bytes dst dst_len
      else if format = 1 then do {
        (r, dst) \<leftarrow> slip_encode_upper7 src src_bytes dst dst_len;
        Some (r, src, dst)
      } else Some (-1, src, dst))"

subsection \<open>The UPPER7 decoder\<close>

definition sd_set :: "slip_decode_state \<Rightarrow> int \<Rightarrow> byte \<Rightarrow> slip_decode_state option" where
  "sd_set st i v = do { d \<leftarrow> c_put (sd_dst st) (sd_dst_offset st + i) v; Some (st\<lparr>sd_dst := d\<rparr>) }"

definition sd_or :: "slip_decode_state \<Rightarrow> int \<Rightarrow> byte \<Rightarrow> slip_decode_state option" where
  "sd_or st i v = do { c \<leftarrow> c_get (sd_dst st) (sd_dst_offset st + i); sd_set st i (c OR v) }"

definition sd_next :: "slip_decode_state \<Rightarrow> slip_decode_state" where
  "sd_next st = st\<lparr>sd_state := sd_state st + 1\<rparr>"

text \<open>The guard on the buffer, and what happens when it fails.\<close>

definition upper7_overflow :: "slip_decode_state \<Rightarrow> bool" where
  "upper7_overflow st \<longleftrightarrow> sd_packet_length st \<ge> RX_BUFFER_SIZE \<or>
     sd_dst_offset st + 7 \<ge> RX_BUFFER_SIZE \<or> sd_dst_offset st < 0"

definition upper7_reset :: "slip_decode_state \<Rightarrow> slip_decode_state" where
  "upper7_reset st = st\<lparr>sd_state := 0, sd_dst_offset := 0, sd_packet_length := 0\<rparr>"

text \<open>The bytes of an inline RSSI report.\<close>

definition rssi_char :: "slip_decode_state \<Rightarrow> byte \<Rightarrow> slip_decode_state option" where
  "rssi_char st c = do {
     let st = (if sd_rssi_len st < 0 then st\<lparr>sd_rssi_len := 0\<rparr> else st);
     if sd_rssi_len st < RSSI_TEXT_SIZE then do {
       t \<leftarrow> c_put (sd_rssi_text st) (sd_rssi_len st) c;
       Some (st\<lparr>sd_rssi_text := t, sd_rssi_len := sd_rssi_len st + 1\<rparr>)
     } else Some st
   }"

definition rssi_end :: "slip_decode_state \<Rightarrow> slip_decode_state option" where
  "rssi_end st = do {
     let n = (if sd_rssi_len st \<ge> RSSI_TEXT_SIZE then RSSI_TEXT_SIZE - 1 else sd_rssi_len st);
     let n = (if n < 0 then 0 else n);
     t \<leftarrow> c_put (sd_rssi_text st) n 0;
     Some (st\<lparr>sd_rssi_text := t, sd_rssi_len := 0\<rparr>)
   }"

text \<open>The state machine on a data byte, its top bit cleared. States: 0 not in a packet, 1-2
  length, 3-7 checksum, 8-15 the eight bytes of a block.\<close>

definition upper7_data :: "slip_decode_state \<Rightarrow> byte \<Rightarrow> slip_decode_state option" where
  "upper7_data st b =
     (if sd_state st = 0 then Some st
      else if sd_state st = 1 then Some (sd_next (st\<lparr>sd_packet_length := push_bit 7 (uint b)\<rparr>))
      else if sd_state st = 2 then
        (let st = st\<lparr>sd_packet_length := sd_packet_length st OR uint b\<rparr> in
         if sd_packet_length st + 7 < RX_BUFFER_SIZE then Some ((sd_next st)\<lparr>sd_dst_offset := 0\<rparr>)
         else Some (st\<lparr>sd_state := 0\<rparr>))
      else if sd_state st = 3 then Some (sd_next (st\<lparr>sd_crc := push_bit 25 (ucast b)\<rparr>))
      else if sd_state st = 4 then Some (sd_next (st\<lparr>sd_crc := sd_crc st OR push_bit 18 (ucast b)\<rparr>))
      else if sd_state st = 5 then Some (sd_next (st\<lparr>sd_crc := sd_crc st OR push_bit 11 (ucast b)\<rparr>))
      else if sd_state st = 6 then Some (sd_next (st\<lparr>sd_crc := sd_crc st OR push_bit 4 (ucast b)\<rparr>))
      else if sd_state st = 7 then Some (sd_next (st\<lparr>sd_crc := sd_crc st OR ucast b\<rparr>))
      else if sd_state st = 8 then
        (if upper7_overflow st then Some (upper7_reset st)
         else do { st \<leftarrow> sd_set st 0 (push_bit 1 b); Some (sd_next st) })
      else if sd_state st = 9 then do {
        st \<leftarrow> sd_or st 0 (drop_bit 6 b AND 0x01); st \<leftarrow> sd_set st 1 (push_bit 2 b); Some (sd_next st) }
      else if sd_state st = 10 then do {
        st \<leftarrow> sd_or st 1 (drop_bit 5 b AND 0x03); st \<leftarrow> sd_set st 2 (push_bit 3 b); Some (sd_next st) }
      else if sd_state st = 11 then do {
        st \<leftarrow> sd_or st 2 (drop_bit 4 b AND 0x07); st \<leftarrow> sd_set st 3 (push_bit 4 b); Some (sd_next st) }
      else if sd_state st = 12 then do {
        st \<leftarrow> sd_or st 3 (drop_bit 3 b AND 0x0f); st \<leftarrow> sd_set st 4 (push_bit 5 b); Some (sd_next st) }
      else if sd_state st = 13 then do {
        st \<leftarrow> sd_or st 4 (drop_bit 2 b AND 0x1f); st \<leftarrow> sd_set st 5 (push_bit 6 b); Some (sd_next st) }
      else if sd_state st = 14 then do {
        st \<leftarrow> sd_or st 5 (drop_bit 1 b AND 0x3f); st \<leftarrow> sd_set st 6 (push_bit 7 b); Some (sd_next st) }
      else if sd_state st = 15 then do {
        st \<leftarrow> sd_or st 6 (b AND 0x7f);
        Some (st\<lparr>sd_dst_offset := sd_dst_offset st + 7, sd_state := 8\<rparr>) }
      else Some (st\<lparr>sd_state := 0\<rparr>))"

text \<open>The result 1 reports the end of a packet.\<close>

definition upper7_decode :: "slip_decode_state \<Rightarrow> byte \<Rightarrow> (int \<times> slip_decode_state) option" where
  "upper7_decode st b =
     (if b = 0x7B then Some (0, st\<lparr>sd_state := 1, sd_packet_length := 0\<rparr>)
      else if b = 0x7D then Some (1, st\<lparr>sd_state := 0\<rparr>)
      else if b \<ge> 0x20 \<and> b \<le> 0x7f then do { st \<leftarrow> rssi_char st b; Some (0, st) }
      else do {
        st \<leftarrow> (if b = 0x0D \<or> b = 0x0A then rssi_end st else Some st);
        if b < 0x80 then Some (0, st)
        else if upper7_overflow st then Some (0, upper7_reset st)
        else do { st \<leftarrow> upper7_data st (b AND 0x7f); Some (0, st) }
      })"

function slip_decode_upper7 :: "slip_decode_state \<Rightarrow> (int \<times> slip_decode_state) option" where
  "slip_decode_upper7 st =
     (if sd_src_offset st < sd_src_size st then
        (case c_get (sd_src st) (sd_src_offset st) of
           None \<Rightarrow> None
         | Some b \<Rightarrow>
             (case upper7_decode (st\<lparr>sd_src_offset := sd_src_offset st + 1\<rparr>) b of
                None \<Rightarrow> None
              | Some (r, st') \<Rightarrow>
                  (if r = 1 then
                     (case Crc32_ComputeBuf 0 (sd_dst st') (sd_packet_length st') of
                        None \<Rightarrow> None
                      | Some crc \<Rightarrow>
                          if crc \<noteq> sd_crc st' then slip_decode_upper7 st' else Some (1, st'))
                   else slip_decode_upper7 st')))
      else Some (0, st))"
  by pat_completeness auto

text \<open>The decoder never moves the source backwards, so the loop ends.\<close>

definition sd_source :: "slip_decode_state \<Rightarrow> int \<times> byte list \<times> int \<times> int" where
  "sd_source st = (sd_encapsulator st, sd_src st, sd_src_size st, sd_src_offset st)"

lemma sd_source_set: "sd_set st i v = Some st' \<Longrightarrow> sd_source st' = sd_source st"
  by (auto simp: sd_set_def sd_source_def Option.bind_eq_Some_conv)

lemma sd_source_or: "sd_or st i v = Some st' \<Longrightarrow> sd_source st' = sd_source st"
  by (auto simp: sd_or_def Option.bind_eq_Some_conv dest: sd_source_set)

lemma sd_source_upd [simp]:
  "sd_source (sd_next st) = sd_source st"
  "sd_source (upper7_reset st) = sd_source st"
  "sd_source (st\<lparr>sd_state := s\<rparr>) = sd_source st"
  "sd_source (st\<lparr>sd_packet_length := n\<rparr>) = sd_source st"
  "sd_source (st\<lparr>sd_dst_offset := n\<rparr>) = sd_source st"
  "sd_source (st\<lparr>sd_crc := c\<rparr>) = sd_source st"
  "sd_source (st\<lparr>sd_rssi_text := t\<rparr>) = sd_source st"
  "sd_source (st\<lparr>sd_rssi_len := l\<rparr>) = sd_source st"
  by (simp_all add: sd_source_def sd_next_def upper7_reset_def)

lemma sd_source_or_set:
  assumes "do { st \<leftarrow> sd_or st i v; st \<leftarrow> sd_set st j w; Some (sd_next st) } = Some st'"
  shows "sd_source st' = sd_source st"
  using assms by (auto simp: Option.bind_eq_Some_conv dest!: sd_source_set sd_source_or)

lemma upper7_data_source:
  assumes "upper7_data st b = Some st'"
  shows "sd_source st' = sd_source st"
  using assms unfolding upper7_data_def
  by (auto simp: Let_def Option.bind_eq_Some_conv split: if_split_asm dest!: sd_source_set sd_source_or)

lemma upper7_decode_source:
  assumes "upper7_decode st b = Some (r, st')"
  shows "sd_source st' = sd_source st"
  using assms unfolding upper7_decode_def rssi_char_def rssi_end_def
  by (auto simp: Let_def Option.bind_eq_Some_conv split: if_split_asm dest!: upper7_data_source)

termination slip_decode_upper7
proof (relation "measure (\<lambda>st. nat (sd_src_size st - sd_src_offset st))", goal_cases)
  case (2 st b x r st' crc)
  then show ?case using upper7_decode_source[of "st\<lparr>sd_src_offset := sd_src_offset st + 1\<rparr>" b r st']
    by (auto simp: sd_source_def)
next
  case (3 st b x r st')
  then show ?case using upper7_decode_source[of "st\<lparr>sd_src_offset := sd_src_offset st + 1\<rparr>" b r st']
    by (auto simp: sd_source_def)
qed simp

declare slip_decode_upper7.simps [simp del]

subsection \<open>The SLIP decoder\<close>

definition sd_push :: "slip_decode_state \<Rightarrow> byte \<Rightarrow> slip_decode_state option" where
  "sd_push st v = do { st \<leftarrow> sd_set st 0 v; Some (st\<lparr>sd_dst_offset := sd_dst_offset st + 1\<rparr>) }"

text \<open>A full destination clears the valid bit.\<close>

definition slip_bound :: "slip_decode_state \<Rightarrow> slip_decode_state" where
  "slip_bound st = (if sd_dst_offset st < 0 \<or> sd_dst_offset st \<ge> RX_BUFFER_SIZE
     then st\<lparr>sd_state := sd_state st AND NOT 1\<rparr> else st)"

text \<open>The byte after an escape.\<close>

definition slip_unescape :: "slip_decode_state \<Rightarrow> byte \<Rightarrow> slip_decode_state option" where
  "slip_unescape st c =
     (if c = 0xdc then sd_push st 0xc0
      else if c = 0xdd then sd_push st 0xdb
      else if c = 0x7a then sd_push st 0x0a
      else if c = 0x7d then sd_push st 0x0d
      else if c = 0x7f then sd_push st 0x0f
      else if c = 0x6b then sd_push st 0x1b
      else Some (st\<lparr>sd_dst_offset := 0, sd_state := 0\<rparr>))"

text \<open>The end of a frame; \<open>True\<close> when the decoder returns with a packet.\<close>

definition slip_end :: "slip_decode_state \<Rightarrow> (bool \<times> slip_decode_state) option" where
  "slip_end st =
     (if sd_dst_offset st > 4 then do {
        src_crc \<leftarrow> read_uint32 (sd_dst st) (sd_dst_offset st - 4);
        crc \<leftarrow> Crc32_ComputeBuf 0 (sd_dst st) (sd_dst_offset st - 4);
        if src_crc \<noteq> crc then Some (False, st\<lparr>sd_dst_offset := 0, sd_state := 0\<rparr>)
        else Some (True, st\<lparr>sd_packet_length := sd_dst_offset st - 4\<rparr>)
      } else Some (False, st\<lparr>sd_state := 1\<rparr>))"

text \<open>One round of the loop on the byte \<open>c\<close>, without the advance of the source.\<close>

definition slip_round :: "slip_decode_state \<Rightarrow> byte \<Rightarrow> (bool \<times> slip_decode_state) option" where
  "slip_round st c =
     (if sd_state st AND 2 \<noteq> 0 then do {
        st \<leftarrow> slip_unescape (st\<lparr>sd_state := sd_state st AND NOT 2\<rparr>) c;
        Some (False, st)
      } else if c = 0xdb then Some (False, st\<lparr>sd_state := sd_state st OR 2\<rparr>)
      else if c = 0xc0 then slip_end st
      else if sd_state st AND 1 \<noteq> 0 then do { st \<leftarrow> sd_push st c; Some (False, st) }
      else Some (False, st))"

definition slip_byte :: "slip_decode_state \<Rightarrow> byte \<Rightarrow> (bool \<times> slip_decode_state) option" where
  "slip_byte st c = slip_round (slip_bound st) c"

lemma sd_source_push: "sd_push st v = Some st' \<Longrightarrow> sd_source st' = sd_source st"
  by (auto simp: sd_push_def Option.bind_eq_Some_conv dest!: sd_source_set)

lemma slip_byte_source:
  assumes "slip_byte st c = Some (r, st')"
  shows "sd_source st' = sd_source st"
  using assms unfolding slip_byte_def slip_round_def slip_unescape_def slip_end_def slip_bound_def
  by (auto simp: Option.bind_eq_Some_conv split: if_split_asm dest!: sd_source_push)

function slip_decode_slip :: "slip_decode_state \<Rightarrow> (int \<times> slip_decode_state) option" where
  "slip_decode_slip st =
     (if sd_src_offset st < sd_src_size st then
        (case c_get (sd_src st) (sd_src_offset st) of
           None \<Rightarrow> None
         | Some c \<Rightarrow>
             (case slip_byte st c of
                None \<Rightarrow> None
              | Some (done_, st') \<Rightarrow>
                  (if done_ then Some (1, st')
                   else slip_decode_slip (st'\<lparr>sd_src_offset := sd_src_offset st' + 1\<rparr>))))
      else Some (0, st))"
  by pat_completeness auto
termination
proof (relation "measure (\<lambda>st. nat (sd_src_size st - sd_src_offset st))", goal_cases)
  case (2 st c x d st')
  then show ?case using slip_byte_source[of st c d st'] by (auto simp: sd_source_def)
qed simp

declare slip_decode_slip.simps [simp del]

definition slip_decode :: "slip_decode_state \<Rightarrow> (int \<times> slip_decode_state) option" where
  "slip_decode st =
     (if sd_encapsulator st = 0 then slip_decode_slip st
      else if sd_encapsulator st = 1 then slip_decode_upper7 st
      else Some (-1, st))"

subsection \<open>The receiving loop of a stream interface\<close>

text \<open>The result lists the packets handed to \<open>packetOkOverlay\<close>. The decoder rejects an
  encapsulation it does not know without consuming anything, so this loop may not end.\<close>

partial_function (option) stream_read_loop ::
    "slip_decode_state \<Rightarrow> (byte list list \<times> slip_decode_state) option" where
  "stream_read_loop st =
     (if sd_src_offset st < sd_src_size st then do {
        (ret, st) \<leftarrow> slip_decode st;
        if ret = 1 then do {
          p \<leftarrow> c_getn (sd_dst st) 0 (sd_packet_length st);
          (ps, st) \<leftarrow> stream_read_loop (st\<lparr>sd_dst_offset := 0\<rparr>);
          Some (p # ps, st)
        } else stream_read_loop st
      } else Some ([], st))"

definition overlay_interface_read_stream ::
    "slip_decode_state \<Rightarrow> byte list \<Rightarrow> (byte list list \<times> slip_decode_state) option" where
  "overlay_interface_read_stream st buffer =
     stream_read_loop (st\<lparr>sd_src := buffer, sd_src_size := int (length buffer), sd_src_offset := 0\<rparr>)"

subsection \<open>The decoders byte by byte\<close>

type_synonym 's byte_step = "'s \<Rightarrow> byte \<Rightarrow> (byte list list \<times> 's) option"

fun feed :: "'s byte_step \<Rightarrow> 's \<Rightarrow> byte list \<Rightarrow> (byte list list \<times> 's) option" where
  "feed f st [] = Some ([], st)"
| "feed f st (b # bs) = do { (p, st) \<leftarrow> f st b; (ps, st) \<leftarrow> feed f st bs; Some (p @ ps, st) }"

lemma feed_append:
  "feed f st (a @ b) = do { (p, st) \<leftarrow> feed f st a; (q, st) \<leftarrow> feed f st b; Some (p @ q, st) }"
proof (induction a arbitrary: st)
  case (Cons x a)
  then show ?case by (cases "f st x") (auto simp: split_beta split: Option.bind_splits)
qed (auto split: Option.bind_splits)

definition u7_byte :: "slip_decode_state byte_step" where
  "u7_byte st b = do {
     (r, st) \<leftarrow> upper7_decode st b;
     if r = 1 then do {
       crc \<leftarrow> Crc32_ComputeBuf 0 (sd_dst st) (sd_packet_length st);
       if crc \<noteq> sd_crc st then Some ([], st)
       else do {
         p \<leftarrow> c_getn (sd_dst st) 0 (sd_packet_length st);
         Some ([p], st\<lparr>sd_dst_offset := 0\<rparr>)
       }
     } else Some ([], st)
   }"

definition slip_feed :: "slip_decode_state byte_step" where
  "slip_feed st b = do {
     (d, st) \<leftarrow> slip_byte st b;
     if d then do {
       p \<leftarrow> c_getn (sd_dst st) 0 (sd_packet_length st);
       Some ([p], st\<lparr>sd_dst_offset := 0, sd_state := 1\<rparr>)
     } else Some ([], st)
   }"

text \<open>The decoding core reads neither the source fields nor the RSSI text: it commutes with
  any change of them.\<close>

locale core_frame =
  fixes g :: "slip_decode_state \<Rightarrow> slip_decode_state"
  assumes g_sel [simp]:
    "sd_state (g st) = sd_state st"
    "sd_packet_length (g st) = sd_packet_length st"
    "sd_dst (g st) = sd_dst st"
    "sd_dst_offset (g st) = sd_dst_offset st"
    "sd_crc (g st) = sd_crc st"
  and g_upd [simp]:
    "(g st)\<lparr>sd_state := s\<rparr> = g (st\<lparr>sd_state := s\<rparr>)"
    "(g st)\<lparr>sd_packet_length := m\<rparr> = g (st\<lparr>sd_packet_length := m\<rparr>)"
    "(g st)\<lparr>sd_dst_offset := m\<rparr> = g (st\<lparr>sd_dst_offset := m\<rparr>)"
    "(g st)\<lparr>sd_dst := d\<rparr> = g (st\<lparr>sd_dst := d\<rparr>)"
    "(g st)\<lparr>sd_crc := c\<rparr> = g (st\<lparr>sd_crc := c\<rparr>)"
begin

lemma map_option_bind: "map_option f (Option.bind x h) = Option.bind x (\<lambda>y. map_option f (h y))"
  by (cases x) auto

lemma bind_map_option: "Option.bind (map_option f x) h = Option.bind x (\<lambda>y. h (f y))"
  by (cases x) auto

lemma g_step [simp]:
  "sd_next (g st) = g (sd_next st)"
  "upper7_reset (g st) = g (upper7_reset st)"
  "upper7_overflow (g st) = upper7_overflow st"
  by (simp_all add: sd_next_def upper7_reset_def upper7_overflow_def)

lemma sd_set_g: "sd_set (g st) i v = map_option g (sd_set st i v)"
  by (auto simp: sd_set_def split: Option.bind_splits)

lemma sd_or_g: "sd_or (g st) i v = map_option g (sd_or st i v)"
  by (cases "c_get (sd_dst st) (sd_dst_offset st + i)") (auto simp: sd_or_def sd_set_g)

lemma sd_push_g: "sd_push (g st) v = map_option g (sd_push st v)"
  by (simp add: sd_push_def sd_set_g bind_map_option map_option_bind)

lemma upper7_data_g: "upper7_data (g st) b = map_option g (upper7_data st b)"
  unfolding upper7_data_def
  by (simp only: g_sel g_upd g_step sd_set_g sd_or_g Let_def bind_map_option map_option_bind
      option.map if_distrib[of "map_option g"])

lemma slip_bound_g: "slip_bound (g st) = g (slip_bound st)"
  by (simp add: slip_bound_def)

lemma slip_unescape_g: "slip_unescape (g st) b = map_option g (slip_unescape st b)"
  unfolding slip_unescape_def
  by (simp only: g_upd sd_push_g option.map if_distrib[of "map_option g"])

lemma slip_end_g: "slip_end (g st) = map_option (map_prod id g) (slip_end st)"
  by (simp add: slip_end_def map_option_bind if_distrib[of "map_option (map_prod id g)"] cong: if_cong)

lemma slip_round_g: "slip_round (g st) b = map_option (map_prod id g) (slip_round st b)"
  unfolding slip_round_def
  by (simp only: g_sel g_upd sd_push_g slip_unescape_g slip_end_g bind_map_option map_option_bind
      option.map if_distrib[of "map_option (map_prod id g)"] map_prod_simp id_apply)

lemma slip_byte_g: "slip_byte (g st) b = map_option (map_prod id g) (slip_byte st b)"
  by (simp add: slip_byte_def slip_bound_g slip_round_g)

end

definition sd_at :: "byte list \<Rightarrow> int \<Rightarrow> int \<Rightarrow> slip_decode_state \<Rightarrow> slip_decode_state" where
  "sd_at src n k st = st\<lparr>sd_src := src, sd_src_size := n, sd_src_offset := k\<rparr>"

definition sd_heard :: "byte list \<Rightarrow> int \<Rightarrow> slip_decode_state \<Rightarrow> slip_decode_state" where
  "sd_heard t l st = st\<lparr>sd_rssi_text := t, sd_rssi_len := l\<rparr>"

interpretation at: core_frame "sd_at src n k" for src n k
  by unfold_locales (simp_all add: sd_at_def)

interpretation heard: core_frame "sd_heard t l" for t l
  by unfold_locales (simp_all add: sd_heard_def)

lemma sd_at_sel [simp]:
  "sd_src (sd_at src n k st) = src" "sd_src_size (sd_at src n k st) = n"
  "sd_src_offset (sd_at src n k st) = k" "sd_encapsulator (sd_at src n k st) = sd_encapsulator st"
  "(sd_at src n k st)\<lparr>sd_src_offset := j\<rparr> = sd_at src n j st"
  "sd_rssi_text (sd_at src n k st) = sd_rssi_text st" "sd_rssi_len (sd_at src n k st) = sd_rssi_len st"
  "(sd_at src n k st)\<lparr>sd_rssi_text := t\<rparr> = sd_at src n k (st\<lparr>sd_rssi_text := t\<rparr>)"
  "(sd_at src n k st)\<lparr>sd_rssi_len := l\<rparr> = sd_at src n k (st\<lparr>sd_rssi_len := l\<rparr>)"
  by (simp_all add: sd_at_def)

lemma rssi_at:
  "rssi_char (sd_at src n k st) b = map_option (sd_at src n k) (rssi_char st b)"
  "rssi_end (sd_at src n k st) = map_option (sd_at src n k) (rssi_end st)"
  by (auto simp: rssi_char_def rssi_end_def Let_def split: Option.bind_splits)

lemma upper7_decode_at:
  "upper7_decode (sd_at src n k st) b = map_option (map_prod id (sd_at src n k)) (upper7_decode st b)"
proof (cases "rssi_end st")
  case None
  then show ?thesis
    by (auto simp: upper7_decode_def rssi_at at.upper7_data_g at.bind_map_option at.map_option_bind)
next
  case (Some st')
  then show ?thesis
    by (auto simp: upper7_decode_def rssi_at at.upper7_data_g at.bind_map_option at.map_option_bind)
qed

lemma upper7_decode_encapsulator:
  "upper7_decode st b = Some (r, st') \<Longrightarrow> sd_encapsulator st' = sd_encapsulator st"
  by (drule upper7_decode_source) (simp add: sd_source_def)

lemma stream_read_loop_done: "n \<le> k \<Longrightarrow> stream_read_loop (sd_at src n k st) = Some ([], sd_at src n k st)"
  by (subst stream_read_loop.simps) simp

lemma stream_read_loop_upper7:
  assumes e: "sd_encapsulator st = 1" and k: "0 \<le> k" "k < n" "n \<le> int (length src)"
  shows "stream_read_loop (sd_at src n k st) = do {
     (ps, st') \<leftarrow> u7_byte st (src ! nat k);
     (qs, st') \<leftarrow> stream_read_loop (sd_at src n (k + 1) st');
     Some (ps @ qs, st')
   }"
proof -
  have g: "c_get src k = Some (src ! nat k)" using k by (simp add: c_mem)
  show ?thesis
  proof (cases "upper7_decode st (src ! nat k)")
    case None
    then show ?thesis
      using k e by (subst stream_read_loop.simps)
        (simp add: slip_decode_def slip_decode_upper7.simps g upper7_decode_at u7_byte_def)
  next
    case (Some x)
    obtain r st' where x: "x = (r, st')" by force
    have e': "sd_encapsulator st' = 1" using upper7_decode_encapsulator Some e by (simp add: x)
    have unf: "slip_decode_upper7 (sd_at src n k st) =
      (if r = 1 then
         (case Crc32_ComputeBuf 0 (sd_dst st') (sd_packet_length st') of
            None \<Rightarrow> None
          | Some crc \<Rightarrow>
              if crc \<noteq> sd_crc st' then slip_decode_upper7 (sd_at src n (k + 1) st')
              else Some (1, sd_at src n (k + 1) st'))
       else slip_decode_upper7 (sd_at src n (k + 1) st'))"
      using k by (subst slip_decode_upper7.simps) (simp add: g upper7_decode_at Some x cong: option.case_cong)
    have skip: "do { (ret, st) \<leftarrow> slip_decode_upper7 (sd_at src n (k + 1) st');
        if ret = 1 then do {
          p \<leftarrow> c_getn (sd_dst st) 0 (sd_packet_length st);
          (ps, st) \<leftarrow> stream_read_loop (st\<lparr>sd_dst_offset := 0\<rparr>);
          Some (p # ps, st)
        } else stream_read_loop st } = stream_read_loop (sd_at src n (k + 1) st')"
    proof (cases "k + 1 < n")
      case True
      then show ?thesis by (subst (3) stream_read_loop.simps) (simp add: slip_decode_def e')
    next
      case False
      then show ?thesis by (subst slip_decode_upper7.simps) (simp add: stream_read_loop_done)
    qed
    show ?thesis
      using k e skip
      by (subst stream_read_loop.simps)
        (simp add: slip_decode_def unf u7_byte_def Some x at.bind_map_option split: option.split)
  qed
qed

lemma slip_byte_done:
  assumes "slip_byte st b = Some (True, st')"
  shows "b = 0xc0 \<and> st' = (slip_bound st)\<lparr>sd_packet_length := sd_packet_length st'\<rparr> \<and>
    sd_state st' AND 2 = 0"
  using assms
  by (auto simp: slip_byte_def slip_round_def slip_end_def Option.bind_eq_Some_conv split: if_splits)

lemma slip_byte_restart:
  assumes "slip_byte st b = Some (True, st')"
  shows "slip_byte (st'\<lparr>sd_dst_offset := 0\<rparr>) b = Some (False, st'\<lparr>sd_dst_offset := 0, sd_state := 1\<rparr>)"
  using slip_byte_done[OF assms] by (simp add: slip_byte_def slip_round_def slip_bound_def slip_end_def)

lemma slip_byte_encapsulator:
  "slip_byte st b = Some (r, st') \<Longrightarrow> sd_encapsulator st' = sd_encapsulator st"
  by (drule slip_byte_source) (simp add: sd_source_def)

lemma slip_skip:
  assumes "sd_encapsulator st = 0"
  shows "do { (ret, st) \<leftarrow> slip_decode_slip (sd_at src n k st);
        if ret = 1 then do {
          p \<leftarrow> c_getn (sd_dst st) 0 (sd_packet_length st);
          (ps, st) \<leftarrow> stream_read_loop (st\<lparr>sd_dst_offset := 0\<rparr>);
          Some (p # ps, st)
        } else stream_read_loop st } = stream_read_loop (sd_at src n k st)"
proof (cases "k < n")
  case True
  then show ?thesis by (subst (3) stream_read_loop.simps) (simp add: slip_decode_def assms)
next
  case False
  then show ?thesis by (subst slip_decode_slip.simps) (simp add: stream_read_loop_done)
qed

lemma slip_decode_slip_unfold:
  assumes k: "0 \<le> k" "k < n" "n \<le> int (length src)"
  shows "slip_decode_slip (sd_at src n k st) =
    (case slip_byte st (src ! nat k) of
       None \<Rightarrow> None
     | Some (d, st') \<Rightarrow> if d then Some (1, sd_at src n k st') else slip_decode_slip (sd_at src n (k + 1) st'))"
proof -
  have "c_get src k = Some (src ! nat k)" using k by (simp add: c_mem)
  then show ?thesis
    using k by (subst slip_decode_slip.simps) (simp add: at.slip_byte_g split: option.split)
qed

lemma stream_read_loop_slip:
  assumes e: "sd_encapsulator st = 0" and k: "0 \<le> k" "k < n" "n \<le> int (length src)"
  shows "stream_read_loop (sd_at src n k st) = do {
     (ps, st') \<leftarrow> slip_feed st (src ! nat k);
     (qs, st') \<leftarrow> stream_read_loop (sd_at src n (k + 1) st');
     Some (ps @ qs, st')
   }"
proof (cases "slip_byte st (src ! nat k)")
  case None
  then show ?thesis
    using k e by (subst stream_read_loop.simps) (simp add: slip_decode_def slip_decode_slip_unfold slip_feed_def)
next
  case (Some x)
  obtain r st' where x: "x = (r, st')" by force
  have e': "sd_encapsulator st' = 0" using slip_byte_encapsulator Some e by (simp add: x)
  show ?thesis
  proof (cases r)
    case False
    then show ?thesis
      using k e slip_skip[OF e', of src n "k + 1"]
      by (subst stream_read_loop.simps)
        (simp add: slip_decode_def slip_decode_slip_unfold slip_feed_def Some x)
  next
    case True
    then have b: "slip_byte st (src ! nat k) = Some (True, st')" using Some x by simp
    have again: "stream_read_loop (sd_at src n k (st'\<lparr>sd_dst_offset := 0\<rparr>)) =
        stream_read_loop (sd_at src n (k + 1) (st'\<lparr>sd_dst_offset := 0, sd_state := 1\<rparr>))"
      using k e' slip_skip[of "st'\<lparr>sd_dst_offset := 0, sd_state := 1\<rparr>" src n "k + 1"]
      by (subst stream_read_loop.simps)
        (simp add: slip_decode_def slip_decode_slip_unfold slip_byte_restart[OF b])
    show ?thesis
      using k e again
      by (subst stream_read_loop.simps)
        (simp add: slip_decode_def slip_decode_slip_unfold b slip_feed_def split: Option.bind_splits)
  qed
qed

text \<open>Hence the receiving loop is the byte-wise decoder, whatever the read returns.\<close>

lemma stream_loop_feed:
  assumes k: "0 \<le> k" "n \<le> int (length src)" and inv: "Q st"
    and step: "\<And>st k. Q st \<Longrightarrow> 0 \<le> k \<Longrightarrow> k < n \<Longrightarrow> stream_read_loop (sd_at src n k st) = do {
     (ps, st') \<leftarrow> f st (src ! nat k);
     (qs, st') \<leftarrow> stream_read_loop (sd_at src n (k + 1) st');
     Some (ps @ qs, st')
   }" and keep: "\<And>st b ps st'. Q st \<Longrightarrow> f st b = Some (ps, st') \<Longrightarrow> Q st'"
  shows "k \<le> n \<Longrightarrow> stream_read_loop (sd_at src n k st) =
    map_option (map_prod id (sd_at src n n)) (feed f st (drop (nat k) (take (nat n) src)))"
  using k(1) inv
proof (induction "nat (n - k)" arbitrary: k st)
  case 0
  then show ?case by (simp add: stream_read_loop_done)
next
  case (Suc m)
  then have lt: "k < n" by simp
  have d: "drop (nat k) (take (nat n) src) = src ! nat k # drop (nat (k + 1)) (take (nat n) src)"
    using lt Suc(4) k(2) by (subst Cons_nth_drop_Suc[symmetric]) (auto simp: nat_add_distrib)
  have m: "m = nat (n - (k + 1))" using Suc(2) by simp
  show ?case
  proof (cases "f st (src ! nat k)")
    case None
    then show ?thesis using step[OF Suc(5,4) lt] by (simp add: d)
  next
    case (Some x)
    obtain ps st' where x: "x = (ps, st')" by force
    have q: "Q st'" using keep[OF Suc(5)] Some x by blast
    have "stream_read_loop (sd_at src n (k + 1) st') =
      map_option (map_prod id (sd_at src n n)) (feed f st' (drop (nat (k + 1)) (take (nat n) src)))"
      using lt Suc(4) by (intro Suc(1)[OF m _ _ q]) auto
    then show ?thesis
      using step[OF Suc(5,4) lt] by (simp add: d Some x split: Option.bind_splits)
  qed
qed

lemma u7_byte_encapsulator: "u7_byte st b = Some (ps, st') \<Longrightarrow> sd_encapsulator st' = sd_encapsulator st"
  by (auto simp: u7_byte_def Option.bind_eq_Some_conv split: if_splits dest!: upper7_decode_encapsulator)

lemma slip_feed_encapsulator: "slip_feed st b = Some (ps, st') \<Longrightarrow> sd_encapsulator st' = sd_encapsulator st"
  by (auto simp: slip_feed_def Option.bind_eq_Some_conv split: if_splits dest!: slip_byte_encapsulator)

lemma read_stream_upper7:
  assumes "sd_encapsulator st = 1"
  shows "overlay_interface_read_stream st buf =
    map_option (map_prod id (sd_at buf (int (length buf)) (int (length buf)))) (feed u7_byte st buf)"
  using stream_loop_feed[of 0 "int (length buf)" buf "\<lambda>st. sd_encapsulator st = 1" st u7_byte]
    stream_read_loop_upper7[of _ _ "int (length buf)" buf] assms u7_byte_encapsulator
  by (simp add: overlay_interface_read_stream_def sd_at_def[symmetric])

lemma read_stream_slip:
  assumes "sd_encapsulator st = 0"
  shows "overlay_interface_read_stream st buf =
    map_option (map_prod id (sd_at buf (int (length buf)) (int (length buf)))) (feed slip_feed st buf)"
  using stream_loop_feed[of 0 "int (length buf)" buf "\<lambda>st. sd_encapsulator st = 0" st slip_feed]
    stream_read_loop_slip[of _ _ "int (length buf)" buf] assms slip_feed_encapsulator
  by (simp add: overlay_interface_read_stream_def sd_at_def[symmetric])

end
