(* ===== verification/Slip_Link.thy ===== *)
theory Slip_Link
  imports Slip
begin

text \<open>
  Correctness of the stream links: the decoders undo the encoders of \<open>slip.c\<close>, byte by byte
  and over any sequence of reads, the transmit buffer of \<open>overlay_interface.c\<close> puts whole
  frames on the wire, and together they deliver the packets sent. The two framings are
  instances of the locale \<open>framing\<close>.
\<close>

subsection \<open>Successive reads\<close>

fun stream_reads :: "slip_decode_state \<Rightarrow> byte list list \<Rightarrow> (byte list list \<times> slip_decode_state) option" where
  "stream_reads st [] = Some ([], st)"
| "stream_reads st (c # chunks) = do {
     (p, st) \<leftarrow> overlay_interface_read_stream st c;
     (q, st) \<leftarrow> stream_reads st chunks;
     Some (p @ q, st)
   }"

lemma feed_commute:
  assumes "\<And>st b. f (g st) b = map_option (map_prod id g) (f st b)"
  shows "feed f (g st) bs = map_option (map_prod id g) (feed f st bs)"
proof (induction bs arbitrary: st)
  case (Cons b bs)
  then show ?case by (cases "f st b") (auto simp: assms split: Option.bind_splits)
qed simp

lemma u7_byte_at: "u7_byte (sd_at src n k st) b = map_option (map_prod id (sd_at src n k)) (u7_byte st b)"
  by (auto simp: u7_byte_def upper7_decode_at split: Option.bind_splits)

lemma slip_feed_at: "slip_feed (sd_at src n k st) b = map_option (map_prod id (sd_at src n k)) (slip_feed st b)"
  by (auto simp: slip_feed_def at.slip_byte_g split: Option.bind_splits)

lemma feed_keeps:
  assumes "\<And>st b ps st'. f st b = Some (ps, st') \<Longrightarrow> sd_encapsulator st' = sd_encapsulator st"
  shows "feed f st bs = Some (ps, st') \<Longrightarrow> sd_encapsulator st' = sd_encapsulator st"
proof (induction bs arbitrary: st ps)
  case (Cons b bs)
  then show ?case by (auto simp: Option.bind_eq_Some_conv dest: assms)
qed simp

text \<open>What is received does not depend on how the reads cut the stream.\<close>

lemma stream_reads_feed:
  assumes read: "\<And>st buf. sd_encapsulator st = e \<Longrightarrow> overlay_interface_read_stream st buf =
      map_option (map_prod id (sd_at buf (int (length buf)) (int (length buf)))) (feed f st buf)"
    and at: "\<And>src n k st b. f (sd_at src n k st) b = map_option (map_prod id (sd_at src n k)) (f st b)"
    and enc: "\<And>st b ps st'. f st b = Some (ps, st') \<Longrightarrow> sd_encapsulator st' = sd_encapsulator st"
  shows "sd_encapsulator st = e \<Longrightarrow>
    map_option fst (stream_reads st chunks) = map_option fst (feed f st (concat chunks))"
proof (induction chunks arbitrary: st)
  case (Cons c chunks)
  show ?case
  proof (cases "feed f st c")
    case None
    then show ?thesis by (simp add: read[OF Cons(2)] feed_append)
  next
    case (Some x)
    obtain ps st' where x: "x = (ps, st')" by force
    let ?at = "sd_at c (int (length c)) (int (length c))"
    have e: "sd_encapsulator (?at st') = e" using feed_keeps[of f st c ps st'] enc Some x Cons(2) by auto
    have "map_option fst (stream_reads (?at st') chunks) = map_option fst (feed f st' (concat chunks))"
      using Cons(1)[OF e] by (simp add: feed_commute[where g = ?at and f = f, OF at] option.map_comp comp_def)
    then show ?thesis
      by (cases "stream_reads (?at st') chunks"; cases "feed f st' (concat chunks)")
        (auto simp: read[OF Cons(2)] feed_append Some x)
  qed
qed simp

lemmas stream_reads_upper7 = stream_reads_feed[OF read_stream_upper7 u7_byte_at u7_byte_encapsulator]
lemmas stream_reads_slip = stream_reads_feed[OF read_stream_slip slip_feed_at slip_feed_encapsulator]

text \<open>The contract of a framing: fed a frame while idle, the decoder delivers its packet and
  is idle again.\<close>

locale framing =
  fixes step :: "'s byte_step" and frame :: "byte list \<Rightarrow> byte list"
    and fits :: "byte list \<Rightarrow> bool" and idle :: "'s \<Rightarrow> bool"
  assumes feed_frame: "idle st \<Longrightarrow> fits p \<Longrightarrow> \<exists>st'. feed step st (frame p) = Some ([p], st') \<and> idle st'"
begin

lemma feed_frames:
  "idle st \<Longrightarrow> \<forall>p \<in> set ps. fits p \<Longrightarrow>
   \<exists>st'. feed step st (concat (map frame ps)) = Some (ps, st') \<and> idle st'"
proof (induction ps arbitrary: st)
  case (Cons p ps)
  obtain st' where p: "feed step st (frame p) = Some ([p], st')" "idle st'"
    using feed_frame[of st p] Cons(2,3) by auto
  with Cons(1)[of st'] Cons(3) show ?case by (auto simp: feed_append)
qed simp

end

subsection \<open>The UPPER7 framing\<close>

text \<open>Bytes a radio may insert in the stream: everything below 0x80 but the braces.\<close>

definition rssi_noise :: "byte \<Rightarrow> bool" where
  "rssi_noise b \<longleftrightarrow> b < 0x80 \<and> b \<noteq> 0x7B \<and> b \<noteq> 0x7D"

lemma sd_heard_sel [simp]:
  "sd_rssi_text (sd_heard t l st) = t" "sd_rssi_len (sd_heard t l st) = l"
  "sd_heard t l (sd_heard t' l' st) = sd_heard t l st"
  "sd_heard (sd_rssi_text st) (sd_rssi_len st) st = st"
  by (simp_all add: sd_heard_def)

lemma u7_noise:
  assumes "rssi_noise b" "length (sd_rssi_text st) = 256"
  shows "\<exists>t l. length t = 256 \<and> u7_byte st b = Some ([], sd_heard t l st)"
proof (cases "b \<ge> 0x20 \<and> b \<le> 0x7f")
  case True
  define st1 where "st1 = (if sd_rssi_len st < 0 then st\<lparr>sd_rssi_len := 0\<rparr> else st)"
  have "\<exists>t l. length t = 256 \<and> rssi_char st b = Some (sd_heard t l st)"
  proof (cases "sd_rssi_len st1 < 256")
    case True
    then show ?thesis
      using assms(2)
      by (intro exI[of _ "(sd_rssi_text st)[nat (sd_rssi_len st1) := b]"] exI[of _ "sd_rssi_len st1 + 1"])
        (auto simp: rssi_char_def Let_def st1_def sd_heard_def c_mem)
  next
    case False
    then show ?thesis
      using assms(2)
      by (intro exI[of _ "sd_rssi_text st"] exI[of _ "sd_rssi_len st"])
        (auto simp: rssi_char_def Let_def st1_def sd_heard_def split: if_splits)
  qed
  then obtain t l where "length t = 256" "rssi_char st b = Some (sd_heard t l st)" by blast
  then show ?thesis
    using True assms(1)
    by (intro exI[of _ t] exI[of _ l]) (simp add: rssi_noise_def u7_byte_def upper7_decode_def)
next
  case False
  define n where "n = max 0 (min 255 (sd_rssi_len st))"
  let ?t = "(sd_rssi_text st)[nat n := 0]"
  have "rssi_end st = Some (sd_heard ?t 0 st)"
    using assms(2) by (auto simp: rssi_end_def Let_def n_def sd_heard_def c_mem)
  then have e: "rssi_end st = Some (sd_heard ?t 0 st)" .
  have u: "u7_byte st b = (if b = 0x0D \<or> b = 0x0A
      then Option.bind (rssi_end st) (\<lambda>st. Some ([], st)) else Some ([], st))"
    using False assms(1) by (cases "rssi_end st") (auto simp: rssi_noise_def u7_byte_def upper7_decode_def)
  show ?thesis
  proof (cases "b = 0x0D \<or> b = 0x0A")
    case True
    then show ?thesis using assms(2) by (intro exI[of _ ?t] exI[of _ 0]) (simp add: u e)
  next
    case False
    then show ?thesis
      using assms(2) by (intro exI[of _ "sd_rssi_text st"] exI[of _ "sd_rssi_len st"]) (simp add: u)
  qed
qed

lemma upper7_decode_data:
  assumes "b \<ge> 0x80"
  shows "upper7_decode st b = (if upper7_overflow st then Some (0, upper7_reset st)
    else do { st \<leftarrow> upper7_data st (b AND 0x7f); Some (0, st) })"
proof -
  have "128 \<le> unat b" using assms by (simp add: word_le_nat_alt)
  then have "b \<noteq> 0x7B" "b \<noteq> 0x7D" "\<not> b \<le> 0x7f" "b \<noteq> 0x0D" "b \<noteq> 0x0A" "\<not> b < 0x80"
    by (auto simp: word_le_nat_alt word_less_nat_alt)
  then show ?thesis by (simp add: upper7_decode_def)
qed

lemma upper7_decode_heard:
  assumes "\<not> rssi_noise b"
  shows "upper7_decode (sd_heard t l st) b = map_option (map_prod id (sd_heard t l)) (upper7_decode st b)"
proof (cases "b \<ge> 0x80")
  case True
  then show ?thesis
    by (simp add: upper7_decode_data heard.upper7_data_g heard.bind_map_option heard.map_option_bind)
next
  case False
  then have "b = 0x7B \<or> b = 0x7D" using assms by (auto simp: rssi_noise_def not_le)
  then show ?thesis by (auto simp: upper7_decode_def)
qed

lemma u7_byte_heard:
  "\<not> rssi_noise b \<Longrightarrow> u7_byte (sd_heard t l st) b = map_option (map_prod id (sd_heard t l)) (u7_byte st b)"
  by (auto simp: u7_byte_def upper7_decode_heard split: Option.bind_splits)

lemma feed_heard:
  "\<forall>b \<in> set bs. \<not> rssi_noise b \<Longrightarrow>
   feed u7_byte (sd_heard t l st) bs = map_option (map_prod id (sd_heard t l)) (feed u7_byte st bs)"
proof (induction bs arbitrary: st)
  case (Cons b bs)
  then show ?case by (cases "u7_byte st b") (auto simp: u7_byte_heard split: Option.bind_splits)
qed simp

lemma u7_byte_keeps_rssi:
  assumes "\<not> rssi_noise b" "u7_byte st b = Some (ps, st')"
  shows "sd_rssi_text st' = sd_rssi_text st"
  using u7_byte_heard[OF assms(1), of "sd_rssi_text st" "sd_rssi_len st" st] assms(2)
  by simp (metis sd_heard_sel(1))

text \<open>Noise changes nothing but the RSSI fields.\<close>

lemma feed_noise:
  assumes "length (sd_rssi_text st) = 256"
    "feed u7_byte st (filter (\<lambda>b. \<not> rssi_noise b) bs) = Some (ps, st')"
  shows "\<exists>t l. length t = 256 \<and> feed u7_byte st bs = Some (ps, sd_heard t l st')"
  using assms
proof (induction bs arbitrary: st ps st')
  case Nil
  then show ?case by (auto intro!: exI[of _ "sd_rssi_text st"] exI[of _ "sd_rssi_len st"])
next
  case (Cons b bs)
  show ?case
  proof (cases "rssi_noise b")
    case True
    then obtain t l where tl: "length t = 256" "u7_byte st b = Some ([], sd_heard t l st)"
      using u7_noise Cons(2) by blast
    have "feed u7_byte (sd_heard t l st) (filter (\<lambda>b. \<not> rssi_noise b) bs) = Some (ps, sd_heard t l st')"
      using Cons(3) True by (simp add: feed_heard)
    from Cons(1)[OF _ this] tl show ?thesis by auto
  next
    case False
    then obtain p ps' st1 where s: "u7_byte st b = Some (p, st1)" "ps = p @ ps'"
      "feed u7_byte st1 (filter (\<lambda>b. \<not> rssi_noise b) bs) = Some (ps', st')"
      using Cons(3) by (auto simp: Option.bind_eq_Some_conv)
    have "length (sd_rssi_text st1) = 256"
      using u7_byte_keeps_rssi[OF False s(1)] Cons(2) by simp
    from Cons(1)[OF this s(3)] obtain t l where
      "length t = 256" "feed u7_byte st1 bs = Some (ps', sd_heard t l st')" by blast
    then show ?thesis using s by (intro exI[of _ t] exI[of _ l]) simp
  qed
qed

lemma u7_bits:
  fixes u v w :: byte
  assumes "0 < s" "s \<le> 7" "r + s = 7" "q = r + 1" "j + 1 = s" "i = s + 1"
  shows "push_bit s ((0x80 OR push_bit q (u AND mask j) OR drop_bit s v) AND 0x7f) OR
    (drop_bit r ((0x80 OR push_bit r (v AND mask s) OR drop_bit i w) AND 0x7f) AND mask s) = v"
proof (rule bit_word_eqI)
  fix n assume "n < LENGTH(8)"
  then have n: "n < 8" by simp
  have w: "\<not> bit w (r + i + n)" using assms bit_imp_le_length[of w "r + i + n"] by auto
  show "bit (push_bit s ((0x80 OR push_bit q (u AND mask j) OR drop_bit s v) AND 0x7f) OR
    (drop_bit r ((0x80 OR push_bit r (v AND mask s) OR drop_bit i w) AND 0x7f) AND mask s)) n = bit v n"
  proof (cases "n < s")
    case True
    then show ?thesis using n w assms(1-4) by (auto simp: bit_simps bit_7f bit_80)
  next
    case False
    then have "\<not> q \<le> n - s" "n - s < 7" "s \<le> n" using n assms by auto
    then show ?thesis using n False by (auto simp: bit_simps bit_7f bit_80)
  qed
qed

lemma bit_7_ge: "bit (x :: byte) 7 \<Longrightarrow> x \<ge> 0x80"
proof -
  assume "bit x 7"
  moreover have "\<not> unat x < 2 ^ 7" using bit_less_exp[of x 7 7] calculation by auto
  ultimately show ?thesis by (simp add: word_le_nat_alt)
qed

lemma u7_field:
  "ucast ((ucast (0x80 OR (x AND 0x7f) :: u32) :: byte) AND 0x7f) = (x AND 0x7f :: u32)"
  by (rule bit_word_eqI) (auto simp: bit_simps bit_7f bit_80)

lemma u7_field_ge: "(ucast (0x80 OR (x AND 0x7f) :: u32) :: byte) \<ge> 0x80"
proof -
  have "bit (ucast (0x80 OR (x AND 0x7f) :: u32) :: byte) 7" by (simp add: bit_simps bit_80)
  then show ?thesis by (rule bit_7_ge)
qed

lemma u7_crc:
  "push_bit 25 (drop_bit 25 crc AND 0x7f) OR push_bit 18 (drop_bit 18 crc AND 0x7f) OR
   push_bit 11 (drop_bit 11 crc AND 0x7f) OR push_bit 4 (drop_bit 4 crc AND 0x7f) OR (crc AND 0x7f) = (crc :: u32)"
proof (rule bit_word_eqI)
  fix n assume n: "n < LENGTH(32)"
  have *: "bit (push_bit k (drop_bit k crc AND 0x7f)) n \<longleftrightarrow> k \<le> n \<and> n < k + 7 \<and> bit crc n" for k
    using n by (cases "k \<le> n") (auto simp: bit_simps bit_7f)
  have "n < 7 \<or> 4 \<le> n \<and> n < 11 \<or> 11 \<le> n \<and> n < 18 \<or> 18 \<le> n \<and> n < 25 \<or> 25 \<le> n \<and> n < 32"
    using n by simp linarith
  moreover have "bit (crc AND 0x7f) n \<longleftrightarrow> n < 7 \<and> bit crc n" using *[of 0] by simp
  ultimately show "bit (push_bit 25 (drop_bit 25 crc AND 0x7f) OR push_bit 18 (drop_bit 18 crc AND 0x7f) OR
   push_bit 11 (drop_bit 11 crc AND 0x7f) OR push_bit 4 (drop_bit 4 crc AND 0x7f) OR (crc AND 0x7f)) n = bit crc n"
    by (simp only: bit_or_iff *) auto
qed

lemma u7_len:
  assumes "0 \<le> x" "x < 128"
  shows "uint (word_of_int (0x80 + x) AND 0x7f :: byte) = x" "(word_of_int (0x80 + x) :: byte) \<ge> 0x80"
proof -
  let ?w = "word_of_int (0x80 + x) :: byte"
  have u: "uint ?w = 0x80 + x" using assms by (subst uint_word_of_int) simp
  have a: "uint (w AND 0x7f :: byte) = uint w AND (2 ^ 7 - 1)" for w by (simp add: uint_and)
  have "uint (?w AND 0x7f) = uint ?w AND (2 ^ 7 - 1)" by (rule a)
  also have "\<dots> = x" unfolding and_mask_mod u using assms by simp
  finally show "uint (?w AND 0x7f) = x" .
  show "?w \<ge> 0x80" unfolding word_le_def u using assms by simp
qed

lemma u7_data_step:
  assumes "b \<ge> 0x80" "\<not> upper7_overflow st" "upper7_data st (b AND 0x7f) = Some st'"
  shows "u7_byte st b = Some ([], st')"
  using assms by (simp add: u7_byte_def upper7_decode_data)

lemma feed_step: "f st b = Some ([], st') \<Longrightarrow> feed f st (b # bs) = feed f st' bs"
  by (cases "feed f st' bs") auto

lemma u7_crc_step:
  fixes x :: u32
  defines "b \<equiv> (ucast (0x80 OR (x AND 0x7f) :: u32) :: byte)"
  assumes "\<not> upper7_overflow st"
  shows "sd_state st = 3 \<Longrightarrow> u7_byte st b = Some ([], st\<lparr>sd_state := 4, sd_crc := push_bit 25 (x AND 0x7f)\<rparr>)"
    "sd_state st = 4 \<Longrightarrow> u7_byte st b = Some ([], st\<lparr>sd_state := 5, sd_crc := sd_crc st OR push_bit 18 (x AND 0x7f)\<rparr>)"
    "sd_state st = 5 \<Longrightarrow> u7_byte st b = Some ([], st\<lparr>sd_state := 6, sd_crc := sd_crc st OR push_bit 11 (x AND 0x7f)\<rparr>)"
    "sd_state st = 6 \<Longrightarrow> u7_byte st b = Some ([], st\<lparr>sd_state := 7, sd_crc := sd_crc st OR push_bit 4 (x AND 0x7f)\<rparr>)"
    "sd_state st = 7 \<Longrightarrow> u7_byte st b = Some ([], st\<lparr>sd_state := 8, sd_crc := sd_crc st OR (x AND 0x7f)\<rparr>)"
proof -
  have "b \<ge> 0x80" unfolding b_def by (rule u7_field_ge)
  note step = u7_data_step[OF this assms(2)]
  have b: "ucast (b AND 0x7f) = (x AND 0x7f :: u32)" unfolding b_def by (rule u7_field)
  show "sd_state st = 3 \<Longrightarrow> u7_byte st b = Some ([], st\<lparr>sd_state := 4, sd_crc := push_bit 25 (x AND 0x7f)\<rparr>)"
    "sd_state st = 4 \<Longrightarrow> u7_byte st b = Some ([], st\<lparr>sd_state := 5, sd_crc := sd_crc st OR push_bit 18 (x AND 0x7f)\<rparr>)"
    "sd_state st = 5 \<Longrightarrow> u7_byte st b = Some ([], st\<lparr>sd_state := 6, sd_crc := sd_crc st OR push_bit 11 (x AND 0x7f)\<rparr>)"
    "sd_state st = 6 \<Longrightarrow> u7_byte st b = Some ([], st\<lparr>sd_state := 7, sd_crc := sd_crc st OR push_bit 4 (x AND 0x7f)\<rparr>)"
    "sd_state st = 7 \<Longrightarrow> u7_byte st b = Some ([], st\<lparr>sd_state := 8, sd_crc := sd_crc st OR (x AND 0x7f)\<rparr>)"
    by (rule step, simp add: upper7_data_def sd_next_def b)+
qed

lemma u7_header:
  assumes n: "0 \<le> n" "n + 7 < 2048" and idle: "sd_dst_offset st = 0"
  shows "feed u7_byte st (upper7_header n crc) =
    Some ([], st\<lparr>sd_state := 8, sd_packet_length := n, sd_crc := crc\<rparr>)"
proof -
  have h: "drop_bit 7 n AND 0x7f = n div 128" "n AND 0x7f = n mod 128"
    using and_mask_mod[of "drop_bit 7 n" 7] and_mask_mod[of n 7] n by (simp_all add: drop_bit_eq_div)
  have hi: "0 \<le> n div 128" "n div 128 < 128" and lo: "0 \<le> n mod 128" "n mod 128 < 128" using n by auto
  have ov: "\<not> upper7_overflow x" if "sd_packet_length x = m" "m < 2048" "sd_dst_offset x = 0" for x m
    using that by (simp add: upper7_overflow_def)
  have n': "push_bit 7 (n div 128) OR n mod 128 = n"
  proof -
    have "push_bit 7 (drop_bit 7 n) OR take_bit 7 n = n"
      by (rule bit_eqI) (auto simp: bit_simps)
    then show ?thesis by (simp add: drop_bit_eq_div take_bit_eq_mod)
  qed
  have m: "push_bit 7 (n div 128) < 2048" using n by (simp add: push_bit_eq_mult)
  define s1 where "s1 = st\<lparr>sd_state := 1, sd_packet_length := 0\<rparr>"
  define s2 where "s2 = st\<lparr>sd_state := 2, sd_packet_length := push_bit 7 (n div 128)\<rparr>"
  define s3 where "s3 = st\<lparr>sd_state := 3, sd_packet_length := n\<rparr>"
  have f0: "u7_byte st 0x7B = Some ([], s1)" by (simp add: u7_byte_def upper7_decode_def s1_def)
  have f1: "u7_byte s1 (word_of_int (0x80 + (drop_bit 7 n AND 0x7f))) = Some ([], s2)"
    unfolding h by (rule u7_data_step[OF u7_len(2)[OF hi]])
      (simp_all add: upper7_overflow_def upper7_data_def s1_def s2_def idle u7_len(1)[OF hi] sd_next_def del: of_int_add)
  have f2: "u7_byte s2 (word_of_int (0x80 + (n AND 0x7f))) = Some ([], s3)"
    unfolding h by (rule u7_data_step[OF u7_len(2)[OF lo]])
      (use m n in \<open>simp_all add: upper7_overflow_def upper7_data_def s2_def s3_def idle n' u7_len(1)[OF lo] sd_next_def del: of_int_add\<close>)
  have f3: "feed u7_byte s3 [ucast (0x80 OR (drop_bit 25 crc AND 0x7f)), ucast (0x80 OR (drop_bit 18 crc AND 0x7f)),
      ucast (0x80 OR (drop_bit 11 crc AND 0x7f)), ucast (0x80 OR (drop_bit 4 crc AND 0x7f)),
      ucast (0x80 OR (crc AND 0x7f))] = Some ([], st\<lparr>sd_state := 8, sd_packet_length := n, sd_crc := crc\<rparr>)"
    using n by (simp add: u7_crc_step upper7_overflow_def s3_def idle u7_crc or.assoc del: push_bit_and)
  show ?thesis
    by (simp only: upper7_header_def feed_step[of u7_byte, OF f0] feed_step[of u7_byte, OF f1] feed_step[of u7_byte, OF f2] f3)
qed

text \<open>What the decoder computes from the bytes of a block.\<close>

lemma u7_or_ge: "(0x80 OR x :: byte) \<ge> 0x80"
  by (rule bit_7_ge) (simp add: bit_simps bit_80)

lemma upper7_block_bytes:
  "\<exists>e0 e1 e2 e3 e4 e5 e6 e7. upper7_block [v0, v1, v2, v3, v4, v5, v6] = [e0, e1, e2, e3, e4, e5, e6, e7] \<and>
    e0 \<ge> 0x80 \<and> e1 \<ge> 0x80 \<and> e2 \<ge> 0x80 \<and> e3 \<ge> 0x80 \<and> e4 \<ge> 0x80 \<and> e5 \<ge> 0x80 \<and> e6 \<ge> 0x80 \<and> e7 \<ge> 0x80 \<and>
    push_bit 1 (e0 AND 0x7f) OR (drop_bit 6 (e1 AND 0x7f) AND 0x01) = v0 \<and>
    push_bit 2 (e1 AND 0x7f) OR (drop_bit 5 (e2 AND 0x7f) AND 0x03) = v1 \<and>
    push_bit 3 (e2 AND 0x7f) OR (drop_bit 4 (e3 AND 0x7f) AND 0x07) = v2 \<and>
    push_bit 4 (e3 AND 0x7f) OR (drop_bit 3 (e4 AND 0x7f) AND 0x0f) = v3 \<and>
    push_bit 5 (e4 AND 0x7f) OR (drop_bit 2 (e5 AND 0x7f) AND 0x1f) = v4 \<and>
    push_bit 6 (e5 AND 0x7f) OR (drop_bit 1 (e6 AND 0x7f) AND 0x3f) = v5 \<and>
    push_bit 7 (e6 AND 0x7f) OR ((e7 AND 0x7f) AND 0x7f) = v6"
proof -
  have m: "mask 1 = (0x01 :: byte)" "mask 2 = (0x03 :: byte)" "mask 3 = (0x07 :: byte)" "mask 4 = (0x0f :: byte)"
    "mask 5 = (0x1f :: byte)" "mask 6 = (0x3f :: byte)" "mask 7 = (0x7f :: byte)"
    by (simp_all add: mask_eq_exp_minus_1)
  have nth7: "[a, b, c, d, e, f, g] ! 0 = a" "[a, b, c, d, e, f, g] ! 1 = b" "[a, b, c, d, e, f, g] ! 2 = c"
    "[a, b, c, d, e, f, g] ! 3 = d" "[a, b, c, d, e, f, g] ! 4 = e" "[a, b, c, d, e, f, g] ! 5 = f"
    "[a, b, c, d, e, f, g] ! 6 = g" for a b c d e f g :: byte
    by simp_all
  let ?e0 = "(0x80 OR push_bit 7 (0 AND mask 0) OR drop_bit 1 v0 :: byte)"
    and ?e1 = "(0x80 OR push_bit 6 (v0 AND mask 1) OR drop_bit 2 v1 :: byte)"
    and ?e2 = "(0x80 OR push_bit 5 (v1 AND mask 2) OR drop_bit 3 v2 :: byte)"
    and ?e3 = "(0x80 OR push_bit 4 (v2 AND mask 3) OR drop_bit 4 v3 :: byte)"
    and ?e4 = "(0x80 OR push_bit 3 (v3 AND mask 4) OR drop_bit 5 v4 :: byte)"
    and ?e5 = "(0x80 OR push_bit 2 (v4 AND mask 5) OR drop_bit 6 v5 :: byte)"
    and ?e6 = "(0x80 OR push_bit 1 (v5 AND mask 6) OR drop_bit 7 v6 :: byte)"
    and ?e7 = "(0x80 OR push_bit 0 (v6 AND mask 7) OR drop_bit 8 0 :: byte)"
  have blk: "upper7_block [v0, v1, v2, v3, v4, v5, v6] = [?e0, ?e1, ?e2, ?e3, ?e4, ?e5, ?e6, ?e7]"
    unfolding upper7_block_def nth7 m
    by (simp only: mask_0 bit.conj_zero_right push_bit_of_0 or.left_neutral drop_bit_of_0 or.right_neutral)
  have q0: "push_bit 1 (?e0 AND 0x7f) OR (drop_bit 6 (?e1 AND 0x7f) AND 0x01) = v0"
    by (subst m[symmetric], rule u7_bits[of 1 6 7 0 2 0 v0 v1]) simp_all
  have q1: "push_bit 2 (?e1 AND 0x7f) OR (drop_bit 5 (?e2 AND 0x7f) AND 0x03) = v1"
    by (subst m[symmetric], rule u7_bits[of 2 5 6 1 3 v0 v1 v2]) simp_all
  have q2: "push_bit 3 (?e2 AND 0x7f) OR (drop_bit 4 (?e3 AND 0x7f) AND 0x07) = v2"
    by (subst m[symmetric], rule u7_bits[of 3 4 5 2 4 v1 v2 v3]) simp_all
  have q3: "push_bit 4 (?e3 AND 0x7f) OR (drop_bit 3 (?e4 AND 0x7f) AND 0x0f) = v3"
    by (subst m[symmetric], rule u7_bits[of 4 3 4 3 5 v2 v3 v4]) simp_all
  have q4: "push_bit 5 (?e4 AND 0x7f) OR (drop_bit 2 (?e5 AND 0x7f) AND 0x1f) = v4"
    by (subst m[symmetric], rule u7_bits[of 5 2 3 4 6 v3 v4 v5]) simp_all
  have q5: "push_bit 6 (?e5 AND 0x7f) OR (drop_bit 1 (?e6 AND 0x7f) AND 0x3f) = v5"
    by (subst m[symmetric], rule u7_bits[of 6 1 2 5 7 v4 v5 v6]) simp_all
  have q6: "push_bit 7 (?e6 AND 0x7f) OR (drop_bit 0 (?e7 AND 0x7f) AND 0x7f) = v6"
    by (subst m[symmetric], rule u7_bits[of 7 0 1 6 8 v5 v6 0]) simp_all
  have q6': "push_bit 7 (?e6 AND 0x7f) OR ((?e7 AND 0x7f) AND 0x7f) = v6" using q6 by (simp only: drop_bit_0 id_apply)
  show ?thesis
    by (intro exI conjI, rule blk, (rule u7_or_ge)+, rule q0, rule q1, rule q2, rule q3, rule q4, rule q5, rule q6')
qed

text \<open>A block of eight bytes decodes to seven.\<close>

lemma sd_set_in:
  assumes "sd_dst st = a @ xs" "sd_dst_offset st = int (length a)" "i < length xs"
  shows "sd_set st (int i) v = Some (st\<lparr>sd_dst := a @ xs[i := v]\<rparr>)"
    "sd_or st (int i) v = Some (st\<lparr>sd_dst := a @ xs[i := xs ! i OR v]\<rparr>)"
proof -
  have k: "nat (int (length a) + int i) = length a + i" by linarith
  show "sd_set st (int i) w = Some (st\<lparr>sd_dst := a @ xs[i := w]\<rparr>)" for w
    using assms by (simp add: sd_set_def c_put_def list_update_append k)
  then show "sd_or st (int i) v = Some (st\<lparr>sd_dst := a @ xs[i := xs ! i OR v]\<rparr>)"
    using assms by (simp add: sd_or_def c_get_def nth_append k)
qed

lemma u7_byte_data:
  assumes "b \<ge> 0x80" "\<not> upper7_overflow st"
  shows "u7_byte st b = do { st \<leftarrow> upper7_data st (b AND 0x7f); Some ([], st) }"
  using assms by (simp add: u7_byte_def upper7_decode_data)

lemma u7_block:
  assumes v: "length v = 7" and d: "sd_dst st = a @ d @ r" "length d = 7" "sd_dst_offset st = int (length a)"
    "length a + 7 < 2048" and st: "sd_state st = 8" "sd_packet_length st < 2048"
  shows "feed u7_byte st (upper7_block v) =
    Some ([], st\<lparr>sd_dst := a @ v @ r, sd_dst_offset := int (length a) + 7\<rparr>)"
proof -
  obtain v0 v1 v2 v3 v4 v5 v6 where v': "v = [v0, v1, v2, v3, v4, v5, v6]"
    using v by (auto simp: length_Suc_conv eval_nat_numeral)
  obtain d0 d1 d2 d3 d4 d5 d6 where d': "d = [d0, d1, d2, d3, d4, d5, d6]"
    using d(2) by (auto simp: length_Suc_conv eval_nat_numeral)
  obtain e0 e1 e2 e3 e4 e5 e6 e7 where e: "upper7_block v = [e0, e1, e2, e3, e4, e5, e6, e7]"
    and ge: "e0 \<ge> 0x80" "e1 \<ge> 0x80" "e2 \<ge> 0x80" "e3 \<ge> 0x80" "e4 \<ge> 0x80" "e5 \<ge> 0x80" "e6 \<ge> 0x80" "e7 \<ge> 0x80"
    and q: "push_bit 1 (e0 AND 0x7f) OR (drop_bit 6 (e1 AND 0x7f) AND 0x01) = v0"
    "push_bit 2 (e1 AND 0x7f) OR (drop_bit 5 (e2 AND 0x7f) AND 0x03) = v1"
    "push_bit 3 (e2 AND 0x7f) OR (drop_bit 4 (e3 AND 0x7f) AND 0x07) = v2"
    "push_bit 4 (e3 AND 0x7f) OR (drop_bit 3 (e4 AND 0x7f) AND 0x0f) = v3"
    "push_bit 5 (e4 AND 0x7f) OR (drop_bit 2 (e5 AND 0x7f) AND 0x1f) = v4"
    "push_bit 6 (e5 AND 0x7f) OR (drop_bit 1 (e6 AND 0x7f) AND 0x3f) = v5"
    "push_bit 7 (e6 AND 0x7f) OR ((e7 AND 0x7f) AND 0x7f) = v6"
    using upper7_block_bytes[of v0 v1 v2 v3 v4 v5 v6] unfolding v' by blast
  define S where "S s x = st\<lparr>sd_state := s, sd_dst := a @ x @ r\<rparr>" for s x
  have S: "sd_state (S s x) = s" "\<not> upper7_overflow (S s x)" "sd_next (S s x) = S (s + 1) x"
    "(S s x)\<lparr>sd_dst_offset := sd_dst_offset (S s x) + 7, sd_state := 8\<rparr> =
       st\<lparr>sd_dst := a @ x @ r, sd_dst_offset := int (length a) + 7\<rparr>" for s x
    using d(3,4) st by (simp_all add: S_def upper7_overflow_def sd_next_def)
  have put: "i < length x \<Longrightarrow> sd_set (S s x) (int i) w = Some (S s (x[i := w]))"
     "i < length x \<Longrightarrow> sd_or (S s x) (int i) w = Some (S s (x[i := x ! i OR w]))" for s i x w
    using sd_set_in[of "S s x" a "x @ r" i w] d(3) by (simp_all add: S_def list_update_append nth_append)
  have put_n: "length x = 7 \<Longrightarrow> sd_set (S s x) 0 w = Some (S s (x[0 := w]))"
    "length x = 7 \<Longrightarrow> sd_set (S s x) 1 w = Some (S s (x[1 := w]))"
    "length x = 7 \<Longrightarrow> sd_set (S s x) 2 w = Some (S s (x[2 := w]))"
    "length x = 7 \<Longrightarrow> sd_set (S s x) 3 w = Some (S s (x[3 := w]))"
    "length x = 7 \<Longrightarrow> sd_set (S s x) 4 w = Some (S s (x[4 := w]))"
    "length x = 7 \<Longrightarrow> sd_set (S s x) 5 w = Some (S s (x[5 := w]))"
    "length x = 7 \<Longrightarrow> sd_set (S s x) 6 w = Some (S s (x[6 := w]))"
    "length x = 7 \<Longrightarrow> sd_or (S s x) 0 w = Some (S s (x[0 := x ! 0 OR w]))"
    "length x = 7 \<Longrightarrow> sd_or (S s x) 1 w = Some (S s (x[1 := x ! 1 OR w]))"
    "length x = 7 \<Longrightarrow> sd_or (S s x) 2 w = Some (S s (x[2 := x ! 2 OR w]))"
    "length x = 7 \<Longrightarrow> sd_or (S s x) 3 w = Some (S s (x[3 := x ! 3 OR w]))"
    "length x = 7 \<Longrightarrow> sd_or (S s x) 4 w = Some (S s (x[4 := x ! 4 OR w]))"
    "length x = 7 \<Longrightarrow> sd_or (S s x) 5 w = Some (S s (x[5 := x ! 5 OR w]))"
    "length x = 7 \<Longrightarrow> sd_or (S s x) 6 w = Some (S s (x[6 := x ! 6 OR w]))" for s x w
    using put[of 0 x s w] put[of 1 x s w] put[of 2 x s w] put[of 3 x s w] put[of 4 x s w] put[of 5 x s w] put[of 6 x s w]
    by simp_all
  have D: "length x = 7 \<Longrightarrow> upper7_data (S 8 x) c = Some (S 9 (x[0 := push_bit 1 c]))"
    "length x = 7 \<Longrightarrow> upper7_data (S 9 x) c = Some (S 10 (x[0 := x ! 0 OR (drop_bit 6 c AND 0x01), 1 := push_bit 2 c]))"
    "length x = 7 \<Longrightarrow> upper7_data (S 10 x) c = Some (S 11 (x[1 := x ! 1 OR (drop_bit 5 c AND 0x03), 2 := push_bit 3 c]))"
    "length x = 7 \<Longrightarrow> upper7_data (S 11 x) c = Some (S 12 (x[2 := x ! 2 OR (drop_bit 4 c AND 0x07), 3 := push_bit 4 c]))"
    "length x = 7 \<Longrightarrow> upper7_data (S 12 x) c = Some (S 13 (x[3 := x ! 3 OR (drop_bit 3 c AND 0x0f), 4 := push_bit 5 c]))"
    "length x = 7 \<Longrightarrow> upper7_data (S 13 x) c = Some (S 14 (x[4 := x ! 4 OR (drop_bit 2 c AND 0x1f), 5 := push_bit 6 c]))"
    "length x = 7 \<Longrightarrow> upper7_data (S 14 x) c = Some (S 15 (x[5 := x ! 5 OR (drop_bit 1 c AND 0x3f), 6 := push_bit 7 c]))"
    "length x = 7 \<Longrightarrow> upper7_data (S 15 x) c =
       Some (st\<lparr>sd_dst := a @ x[6 := x ! 6 OR (c AND 0x7f)] @ r, sd_dst_offset := int (length a) + 7\<rparr>)" for x c
    by (simp_all add: upper7_data_def S put_n)
  have u: "feed u7_byte (S s x) (b # bs) = Option.bind (upper7_data (S s x) (b AND 0x7f)) (\<lambda>st. feed u7_byte st bs)"
    if "b \<ge> 0x80" for s x b bs
    using S(2) by (cases "upper7_data (S s x) (b AND 0x7f)") (simp_all add: u7_byte_data[OF that])
  have q7: "push_bit 7 (e6 AND 0x7f) OR (e7 AND 0x7f) = v6" using q(7) by (simp del: push_bit_and)
  have "st = S 8 [d0, d1, d2, d3, d4, d5, d6]" using d(1) d' st by (simp add: S_def)
  then have "feed u7_byte st (upper7_block v) = feed u7_byte (S 8 [d0, d1, d2, d3, d4, d5, d6]) [e0, e1, e2, e3, e4, e5, e6, e7]"
    using e by simp
  also have "\<dots> = Some ([], st\<lparr>sd_dst := a @ v @ r, sd_dst_offset := int (length a) + 7\<rparr>)"
    by (simp add: u ge D q[unfolded One_nat_def] q7 v' del: push_bit_and drop_bit_and push_bit_Suc drop_bit_Suc feed.simps(2))
  finally show ?thesis .
qed

text \<open>The blocks of a packet, and the frame.\<close>

fun upper7_blocks :: "byte list \<Rightarrow> byte list" where
  "upper7_blocks src =
     (if src = [] then [] else upper7_block (take 7 (src @ replicate 7 0)) @ upper7_blocks (drop 7 src))"

declare upper7_blocks.simps [simp del]

definition crc_of :: "byte list \<Rightarrow> u32" where
  "crc_of p = foldl crc_byte 0xFFFFFFFF p XOR 0xFFFFFFFF"

definition upper7_frame :: "byte list \<Rightarrow> byte list" where
  "upper7_frame p = upper7_header (int (length p)) (crc_of p) @ upper7_blocks p @ [0x7D]"

lemma Crc32_crc_of:
  assumes "0 \<le> n" "n \<le> int (length src)"
  shows "Crc32_ComputeBuf 0 src n = Some (crc_of (take (nat n) src))"
  using assms by (simp add: Crc32_ComputeBuf_def crc_of_def c_mem)

lemma u7_blocks:
  assumes "sd_dst st = a @ d" "length (sd_dst st) = 2048" "sd_dst_offset st = int (length a)"
    "length a + length p + 7 < 2048" "sd_state st = 8" "sd_packet_length st < 2048"
  shows "\<exists>d' k. feed u7_byte st (upper7_blocks p) = Some ([], st\<lparr>sd_dst := d', sd_dst_offset := k\<rparr>) \<and>
    length d' = 2048 \<and> take (length a + length p) d' = a @ p"
  using assms
proof (induction p arbitrary: st a d rule: upper7_blocks.induct)
  case (1 p)
  show ?case
  proof (cases "p = []")
    case True
    then show ?thesis using 1(2,3)
      by (intro exI[of _ "sd_dst st"] exI[of _ "sd_dst_offset st"]) (simp add: upper7_blocks.simps)
  next
    case False
    define v where "v = take 7 (p @ replicate 7 0)"
    have v: "length v = 7" by (simp add: v_def)
    have ld: "length d = 2048 - length a" using 1(2,3) by simp
    define st' where "st' = st\<lparr>sd_dst := a @ v @ drop 7 d, sd_dst_offset := int (length a) + 7\<rparr>"
    have b: "feed u7_byte st (upper7_block v) = Some ([], st')"
      unfolding st'_def by (rule u7_block[OF v, of _ _ "take 7 d"]) (use 1(2-) ld in simp_all)
    have u: "upper7_blocks p = upper7_block v @ upper7_blocks (drop 7 p)"
      using False by (subst upper7_blocks.simps) (simp add: v_def)
    show ?thesis
    proof (cases "7 \<le> length p")
      case True
      then have vp: "v @ drop 7 p = p" by (simp add: v_def)
      have "\<exists>d' k. feed u7_byte st' (upper7_blocks (drop 7 p)) = Some ([], st'\<lparr>sd_dst := d', sd_dst_offset := k\<rparr>) \<and>
        length d' = 2048 \<and> take (length (a @ v) + length (drop 7 p)) d' = (a @ v) @ drop 7 p"
        by (rule 1(1)[OF False, where d = "drop 7 d"]) (use 1(2-) ld True v in \<open>simp_all add: st'_def\<close>)
      then obtain d' k where IH: "feed u7_byte st' (upper7_blocks (drop 7 p)) = Some ([], st'\<lparr>sd_dst := d', sd_dst_offset := k\<rparr>)"
        "length d' = 2048" "take (length (a @ v) + length (drop 7 p)) d' = (a @ v) @ drop 7 p" by blast
      then show ?thesis
        using True vp v by (intro exI[of _ d'] exI[of _ k]) (simp add: u feed_append b st'_def)
    next
      case False
      then have "take (length p) (v @ x) = p" for x by (simp add: v_def)
      then show ?thesis
        using False 1(2-) ld v
        by (intro exI[of _ "a @ v @ drop 7 d"] exI[of _ "int (length a) + 7"])
          (simp add: u feed_append b st'_def upper7_blocks.simps[of "[]"])
    qed
  qed
qed

text \<open>Idle: nothing of a packet is held back. The source fields play no part.\<close>

definition upper7_idle :: "slip_decode_state \<Rightarrow> bool" where
  "upper7_idle st \<longleftrightarrow> sd_encapsulator st = 1 \<and> length (sd_dst st) = 2048 \<and> sd_dst_offset st = 0 \<and>
     length (sd_rssi_text st) = 256"

definition upper7_fits :: "byte list \<Rightarrow> bool" where
  "upper7_fits p \<longleftrightarrow> length p + 7 < 2048"

lemma u7_end:
  assumes "length (sd_dst st) = 2048" "sd_packet_length st = int (length p)" "length p \<le> 2048"
    "take (length p) (sd_dst st) = p" "sd_crc st = crc_of p"
  shows "u7_byte st 0x7D = Some ([p], st\<lparr>sd_state := 0, sd_dst_offset := 0\<rparr>)"
  using assms by (simp add: u7_byte_def upper7_decode_def Crc32_crc_of c_mem)

lemma u7_frame:
  assumes "upper7_idle st" "upper7_fits p"
  shows "\<exists>st'. feed u7_byte st (upper7_frame p) = Some ([p], st') \<and> upper7_idle st' \<and>
    sd_packet_length st' = int (length p) \<and> take (length p) (sd_dst st') = p \<and> sd_crc st' = crc_of p"
proof -
  define st1 where "st1 = st\<lparr>sd_state := 8, sd_packet_length := int (length p), sd_crc := crc_of p\<rparr>"
  have h: "feed u7_byte st (upper7_header (int (length p)) (crc_of p)) = Some ([], st1)"
    using assms unfolding st1_def by (intro u7_header) (simp_all add: upper7_idle_def upper7_fits_def)
  have "\<exists>d k. feed u7_byte st1 (upper7_blocks p) = Some ([], st1\<lparr>sd_dst := d, sd_dst_offset := k\<rparr>) \<and>
      length d = 2048 \<and> take (length p) d = p"
    using u7_blocks[of st1 "[]" "sd_dst st" p] assms by (simp add: st1_def upper7_idle_def upper7_fits_def)
  then obtain d k where b: "feed u7_byte st1 (upper7_blocks p) = Some ([], st1\<lparr>sd_dst := d, sd_dst_offset := k\<rparr>)"
    "length d = 2048" "take (length p) d = p" by auto
  have e: "u7_byte (st1\<lparr>sd_dst := d, sd_dst_offset := k\<rparr>) 0x7D =
      Some ([p], st1\<lparr>sd_dst := d, sd_dst_offset := k, sd_state := 0, sd_dst_offset := 0\<rparr>)"
    using assms(2) b by (intro u7_end) (simp_all add: st1_def upper7_fits_def)
  show ?thesis
    using assms b by (simp add: upper7_frame_def feed_append h e) (simp add: st1_def upper7_idle_def)
qed

interpretation u7: framing u7_byte upper7_frame upper7_fits upper7_idle
  by unfold_locales (use u7_frame in blast)

lemma rssi_noise_ge: "b \<ge> 0x80 \<Longrightarrow> \<not> rssi_noise b"
  by (auto simp: rssi_noise_def)

text \<open>The encoder writes exactly the frame.\<close>

text \<open>Rounding up to blocks of seven.\<close>

lemma ceil7: "((m :: nat) + 6) div 7 = m div 7 + (if m mod 7 = 0 then 0 else 1)"
proof (cases "m mod 7 = 0")
  case True
  then obtain k where "m = 7 * k" by auto
  then show ?thesis by simp
next
  case False
  define q where "q = m div 7"
  obtain r where r: "m mod 7 = Suc r" using False by (cases "m mod 7") auto
  have "q * 7 + Suc r = m" using div_mult_mod_eq[of m 7] by (simp add: q_def r)
  then have m: "m + 6 = r + (q + 1) * 7" by simp
  have "r < 7" using mod_less_divisor[of 7 m] r by simp
  then have "(m + 6) div 7 = q + 1" unfolding m by (subst div_mult_self1) auto
  then show ?thesis using False by (simp add: q_def)
qed

lemma ceil7_step: "0 < (m::nat) \<Longrightarrow> (m + 6) div 7 = 1 + (m - 7 + 6) div 7"
proof (cases "7 \<le> m")
  case True
  then obtain k where m: "m = k + 7" by (metis add.commute le_iff_add)
  have "(k + 6 + 7) div 7 = (k + 6) div 7 + 1" by (rule div_add_self2) simp
  then show ?thesis by (simp add: m add_ac)
next
  assume "0 < m"
  moreover case False
  ultimately show ?thesis by (simp add: ceil7)
qed

lemma qr7:
  obtains q r where "(m :: nat) = 7 * q + r" "r < 7" "m div 7 = q" "m mod 7 = r" "(m + 6) div 7 = q + (if r = 0 then 0 else 1)"
  using that[of "m div 7" "m mod 7"] ceil7[of m] by simp

lemma ceil7_room: "(m::nat) + m div 7 \<le> 8 * ((m + 6) div 7)"
proof (cases m rule: qr7)
  case (1 q r)
  then show ?thesis unfolding 1(3,5) by (cases "r = 0") simp_all
qed

lemma ceil7_tight: "(m::nat) mod 7 \<noteq> 0 \<Longrightarrow> 2 + m + m div 7 \<le> 8 * ((m + 6) div 7)"
proof (cases m rule: qr7)
  case (1 q r)
  moreover assume "m mod 7 \<noteq> 0"
  ultimately show ?thesis unfolding 1(3,5) by simp
qed

lemma ceil7_overrun: "1779 \<le> (m::nat) \<Longrightarrow> m \<le> 1784 \<Longrightarrow> (m + 6) div 7 = 255 \<and> m mod 7 \<noteq> 0"
proof -
  assume "1779 \<le> m" "m \<le> 1784"
  then have "m = 1779 \<or> m = 1780 \<or> m = 1781 \<or> m = 1782 \<or> m = 1783 \<or> m = 1784" by linarith
  then show ?thesis by auto
qed

lemma upper7_block_length [simp]: "length (upper7_block v) = 8"
  by (simp add: upper7_block_def)

lemma upper7_blocks_length: "length (upper7_blocks p) = 8 * ((length p + 6) div 7)"
proof (induction p rule: upper7_blocks.induct)
  case (1 p)
  show ?case
  proof (cases "p = []")
    case True
    then show ?thesis by (simp add: upper7_blocks.simps)
  next
    case False
    then have "(length p + 6) div 7 = 1 + (length p - 7 + 6) div 7" by (simp add: ceil7_step)
    then show ?thesis using 1 False by (subst upper7_blocks.simps) simp
  qed
qed

lemma upper7_encode_loop_frame:
  assumes "length (upper7_blocks p) < length r" "int (length a + length (upper7_blocks p)) + 1 \<le> dst_len"
  shows "upper7_encode_loop p (a @ r) (int (length a)) dst_len =
    Some (int (length a + length (upper7_blocks p)) + 1,
      a @ upper7_blocks p @ [0x7D] @ drop (length (upper7_blocks p) + 1) r)"
  using assms
proof (induction p arbitrary: a r rule: upper7_blocks.induct)
  case (1 p)
  show ?case
  proof (cases "p = []")
    case True
    then show ?thesis using 1(2,3)
      by (cases r) (simp_all add: upper7_blocks.simps upper7_encode_loop.simps c_mem list_update_append)
  next
    case False
    define e where "e = upper7_block (take 7 (p @ replicate 7 0))"
    have le: "length e = 8" and e': "upper7_block (take 7 p @ replicate (7 - length p) 0) = e"
      by (simp_all add: e_def)
    have u: "upper7_blocks p = e @ upper7_blocks (drop 7 p)"
      using False by (subst upper7_blocks.simps) (simp add: e_def)
    have lr: "8 + length (upper7_blocks (drop 7 p)) < length r" using 1(2) by (simp add: u le)
    have "c_putn (a @ r) (int (length a)) e = Some ((a @ e) @ drop 8 r)"
      using lr le by (simp add: c_putn_def)
    moreover have "upper7_encode_loop (drop 7 p) ((a @ e) @ drop 8 r) (int (length (a @ e))) dst_len =
      Some (int (length (a @ e) + length (upper7_blocks (drop 7 p))) + 1,
      (a @ e) @ upper7_blocks (drop 7 p) @ [0x7D] @ drop (length (upper7_blocks (drop 7 p)) + 1) (drop 8 r))"
      by (rule 1(1)[OF False]) (use lr le 1(3) in \<open>simp_all add: u\<close>)
    ultimately show ?thesis
      using False le 1(3) by (subst upper7_encode_loop.simps) (simp add: u e' add.commute)
  qed
qed

lemma upper7_frame_length: "length (upper7_frame p) = 9 + 8 * ((length p + 6) div 7)"
  by (simp add: upper7_frame_def upper7_header_def upper7_blocks_length)

lemma slip_encode_upper7_frame:
  assumes n: "p \<noteq> []" "length p \<le> 0x3fff"
    and room: "int (length (upper7_frame p)) < dst_len" "dst_len \<le> int (length dst)"
  shows "slip_encode_upper7 (p @ rest) (int (length p)) dst dst_len =
    Some (int (length (upper7_frame p)), upper7_frame p @ drop (length (upper7_frame p)) dst)"
proof -
  let ?h = "upper7_header (int (length p)) (crc_of p)"
  have h: "length ?h = 8" by (simp add: upper7_header_def)
  have l: "length (upper7_frame p) = 8 + length (upper7_blocks p) + 1" by (simp add: upper7_frame_def h)
  have put: "c_putn dst 0 ?h = Some (?h @ drop 8 dst)" using room l h by (simp add: c_putn_def)
  have "length p + length p div 7 \<le> 8 * ((length p + 6) div 7)" by (rule ceil7_room)
  then have guard: "9 + int (length p) + int (length p) div 7 + 1 \<le> dst_len"
    using room(1) zdiv_int[of "length p" 7] by (simp add: upper7_frame_length)
  have "upper7_encode_loop p (?h @ drop 8 dst) (int (length ?h)) dst_len =
    Some (int (length ?h + length (upper7_blocks p)) + 1,
      ?h @ upper7_blocks p @ [0x7D] @ drop (length (upper7_blocks p) + 1) (drop 8 dst))"
    by (rule upper7_encode_loop_frame) (use room l h in simp_all)
  then show ?thesis
    using n room h put guard
    by (simp add: slip_encode_upper7_def Crc32_crc_of c_getn_def l upper7_frame_def add.commute)
qed

subsection \<open>The transmitting side\<close>

text \<open>The transmit buffer of a stream interface. \<open>tx_wire\<close> records what \<open>write\<close> has taken;
  the argument \<open>w\<close> is how much \<open>write\<close> is ready to take (it returns that, an error when
  negative, and never more than it was given).\<close>

record stream_tx =
  tx_buffer :: "byte list"
  tx_bytes_pending :: int
  tx_pollout :: bool
  tx_wire :: "byte list"

definition write_stream_buffer :: "stream_tx \<Rightarrow> int \<Rightarrow> stream_tx option" where
  "write_stream_buffer tx w = do {
     let written = min w (tx_bytes_pending tx);
     tx \<leftarrow> (if tx_bytes_pending tx > 0 \<and> written > 0 then do {
            sent \<leftarrow> c_getn (tx_buffer tx) 0 written;
            left \<leftarrow> c_getn (tx_buffer tx) written (tx_bytes_pending tx - written);
            b \<leftarrow> c_putn (tx_buffer tx) 0 left;
            Some (tx\<lparr>tx_buffer := b, tx_bytes_pending := tx_bytes_pending tx - written, tx_wire := tx_wire tx @ sent\<rparr>)
          } else Some tx);
     Some (tx\<lparr>tx_pollout := tx_bytes_pending tx > 0\<rparr>)
   }"

text \<open>\<open>overlay_broadcast_ensemble\<close> on a stream interface that is up.\<close>

definition overlay_broadcast_stream :: "stream_tx \<Rightarrow> byte list \<Rightarrow> int \<Rightarrow> (int \<times> stream_tx) option" where
  "overlay_broadcast_stream tx p w =
     (if tx_bytes_pending tx > 0 then Some (-1, tx)
      else do {
        (encoded, src, b) \<leftarrow> slip_encode 1 p (int (length p)) (tx_buffer tx) (int (length (tx_buffer tx)));
        if encoded < 0 then Some (-1, tx\<lparr>tx_buffer := b\<rparr>)
        else do {
          tx \<leftarrow> write_stream_buffer (tx\<lparr>tx_buffer := b, tx_bytes_pending := encoded\<rparr>) w;
          Some (0, tx)
        }
      })"

text \<open>A run of the interface: packets to send, and calls when the descriptor is writable.\<close>

datatype tx_event = Send "byte list" int | Writable int

fun tx_run :: "stream_tx \<Rightarrow> tx_event list \<Rightarrow> (byte list list \<times> stream_tx) option" where
  "tx_run tx [] = Some ([], tx)"
| "tx_run tx (Send p w # evs) = do {
     (r, tx) \<leftarrow> overlay_broadcast_stream tx p w;
     (ps, tx) \<leftarrow> tx_run tx evs;
     Some (if r = 0 then p # ps else ps, tx)
   }"
| "tx_run tx (Writable w # evs) = do { tx \<leftarrow> write_stream_buffer tx w; tx_run tx evs }"

text \<open>What has been written and what is pending are together the frames of the packets
  accepted so far.\<close>

definition tx_line :: "stream_tx \<Rightarrow> byte list" where
  "tx_line tx = tx_wire tx @ take (nat (tx_bytes_pending tx)) (tx_buffer tx)"

definition tx_inv :: "stream_tx \<Rightarrow> bool" where
  "tx_inv tx \<longleftrightarrow> length (tx_buffer tx) = 2048 \<and> 0 \<le> tx_bytes_pending tx \<and> tx_bytes_pending tx \<le> 2048"

definition tx_fits :: "byte list \<Rightarrow> bool" where
  "tx_fits p \<longleftrightarrow> p \<noteq> [] \<and> length p \<le> 1778"

lemma tx_fits_upper7: "tx_fits p \<Longrightarrow> upper7_fits p"
  by (simp add: tx_fits_def upper7_fits_def)

lemma write_stream_buffer_inv:
  assumes "tx_inv tx"
  shows "\<exists>tx'. write_stream_buffer tx w = Some tx' \<and> tx_inv tx' \<and> tx_line tx' = tx_line tx \<and>
    tx_pollout tx' = (tx_bytes_pending tx' > 0) \<and>
    tx_bytes_pending tx' = tx_bytes_pending tx - max 0 (min w (tx_bytes_pending tx))"
proof (cases "tx_bytes_pending tx > 0 \<and> w > 0")
  case True
  define m where "m = nat (min w (tx_bytes_pending tx))"
  define n where "n = nat (tx_bytes_pending tx)"
  have mn: "min w (tx_bytes_pending tx) = int m" "tx_bytes_pending tx = int n" "0 < m" "m \<le> n" "n \<le> 2048"
    using True assms by (auto simp: m_def n_def tx_inv_def)
  let ?b = "tx_buffer tx"
  have l: "length ?b = 2048" using assms by (simp add: tx_inv_def)
  have g: "c_getn ?b 0 (int m) = Some (take m ?b)" "c_getn ?b (int m) (int n - int m) = Some (take (n - m) (drop m ?b))"
    using mn l by (simp_all add: c_getn_def)
  have p: "c_putn ?b 0 (take (n - m) (drop m ?b)) = Some (take (n - m) (drop m ?b) @ drop (n - m) ?b)"
  proof -
    have "length (take (n - m) (drop m ?b)) = n - m" using mn l by simp
    then show ?thesis using mn l by (simp add: c_putn_def)
  qed
  have "take n ?b = take m ?b @ take (n - m) (drop m ?b)" using mn(4) by (metis le_add_diff_inverse take_add)
  then show ?thesis
    using mn l
    by (simp add: write_stream_buffer_def g p tx_inv_def tx_line_def min_def) arith
next
  case False
  then show ?thesis using assms by (auto simp: write_stream_buffer_def tx_inv_def tx_line_def min_def)
qed

lemma broadcast_inv:
  assumes "tx_inv tx" "tx_fits p"
  shows "\<exists>r tx'. overlay_broadcast_stream tx p w = Some (r, tx') \<and> tx_inv tx' \<and>
    (r = 0 \<longleftrightarrow> tx_bytes_pending tx \<le> 0) \<and>
    tx_line tx' = tx_line tx @ (if r = 0 then upper7_frame p else [])"
proof (cases "tx_bytes_pending tx > 0")
  case True
  then show ?thesis using assms by (simp add: overlay_broadcast_stream_def)
next
  case False
  define f where "f = upper7_frame p"
  have "8 * ((m + 6) div 7) \<le> 8 * ((1778 + 6) div 7)" if "m \<le> 1778" for m :: nat
    using that by (intro mult_le_mono2 div_le_mono) simp
  from this[of "length p"] have lf: "length f < 2048"
    using assms(2) by (simp add: f_def upper7_frame_length tx_fits_def)
  have l: "length (tx_buffer tx) = 2048" using assms(1) by (simp add: tx_inv_def)
  have enc: "slip_encode 1 p (int (length p)) (tx_buffer tx) 2048 =
    Some (int (length f), p, f @ drop (length f) (tx_buffer tx))"
    using slip_encode_upper7_frame[of p 2048 "tx_buffer tx" "[]"] assms lf l
    by (simp add: slip_encode_def f_def tx_fits_def)
  define tx1 where "tx1 = tx\<lparr>tx_buffer := f @ drop (length f) (tx_buffer tx), tx_bytes_pending := int (length f)\<rparr>"
  have "tx_inv tx1" "tx_line tx1 = tx_line tx @ f"
    using assms(1) False lf by (simp_all add: tx1_def tx_inv_def tx_line_def)
  then show ?thesis
    using write_stream_buffer_inv[of tx1 w] False
    by (auto simp: overlay_broadcast_stream_def l enc tx1_def[symmetric] f_def[symmetric])
qed

lemma tx_run_inv:
  assumes "tx_inv tx" "\<forall>p w. Send p w \<in> set evs \<longrightarrow> tx_fits p"
  shows "\<exists>ps tx'. tx_run tx evs = Some (ps, tx') \<and> tx_inv tx' \<and> (\<forall>p \<in> set ps. upper7_fits p) \<and>
    tx_line tx' = tx_line tx @ concat (map upper7_frame ps)"
  using assms
proof (induction tx evs rule: tx_run.induct)
  case (2 tx p w evs)
  obtain r tx1 where r: "overlay_broadcast_stream tx p w = Some (r, tx1)" "tx_inv tx1"
    "tx_line tx1 = tx_line tx @ (if r = 0 then upper7_frame p else [])"
    using broadcast_inv[of tx p w] 2(2,3) by auto
  obtain ps tx2 where t: "tx_run tx1 evs = Some (ps, tx2)" "tx_inv tx2" "\<forall>p \<in> set ps. upper7_fits p"
    "tx_line tx2 = tx_line tx1 @ concat (map upper7_frame ps)"
    using 2(1)[OF r(1) refl r(2)] 2(3) by auto
  show ?case using r t 2(3) tx_fits_upper7 by auto
next
  case (3 tx w evs)
  obtain tx1 where "write_stream_buffer tx w = Some tx1" "tx_inv tx1" "tx_line tx1 = tx_line tx"
    using write_stream_buffer_inv[OF 3(2)] by blast
  with 3 show ?case by auto
qed simp

text \<open>A frame holds no byte that could be noise.\<close>

lemma upper7_block_ge: "b \<in> set (upper7_block v) \<Longrightarrow> b \<ge> 0x80"
  by (auto simp: upper7_block_def u7_or_ge simp del: push_bit_and drop_bit_and)

lemma upper7_frame_clean: "filter (\<lambda>b. \<not> rssi_noise b) (upper7_frame p) = upper7_frame p"
proof -
  have h: "\<not> rssi_noise (word_of_int (0x80 + (x AND 0x7f)))" for x :: int
  proof -
    have "x AND 0x7f = x mod 128" using and_mask_mod[of x 7] by simp
    then show ?thesis using u7_len(2)[of "x mod 128"] rssi_noise_ge by auto
  qed
  have b: "\<forall>b \<in> set (upper7_blocks p). \<not> rssi_noise b"
  proof (induction p rule: upper7_blocks.induct)
    case (1 p)
    then show ?case by (subst upper7_blocks.simps) (auto dest: upper7_block_ge rssi_noise_ge)
  qed
  have "\<not> rssi_noise 0x7B" "\<not> rssi_noise 0x7D" by (simp_all add: rssi_noise_def)
  then show ?thesis
    using b h u7_field_ge rssi_noise_ge
    by (simp add: upper7_frame_def upper7_header_def filter_id_conv del: of_int_add)
qed

lemma tx_run_append:
  "tx_run tx (a @ b) = do { (p, tx) \<leftarrow> tx_run tx a; (q, tx) \<leftarrow> tx_run tx b; Some (p @ q, tx) }"
proof (induction tx a rule: tx_run.induct)
  case (2 tx p w evs)
  then show ?case by (auto split: Option.bind_splits)
qed (auto split: Option.bind_splits)

lemma tx_drain:
  assumes "tx_inv tx" "w \<ge> 2048"
  shows "\<exists>tx'. tx_run tx [Writable w] = Some ([], tx') \<and> tx_bytes_pending tx' = 0 \<and> tx_inv tx' \<and> tx_wire tx' = tx_line tx"
  using write_stream_buffer_inv[OF assms(1), of w] assms by (auto simp: tx_inv_def tx_line_def)

text \<open>A full write after each packet empties the buffer, so that no packet is refused.\<close>

lemma tx_run_all:
  assumes "tx_inv tx" "tx_bytes_pending tx = 0" "\<forall>(p, w) \<in> set pws. tx_fits p"
  shows "\<exists>tx'. tx_run tx (concat (map (\<lambda>(p, w). [Send p w, Writable 2048]) pws)) = Some (map fst pws, tx') \<and>
    tx_inv tx' \<and> tx_bytes_pending tx' = 0"
  using assms
proof (induction pws arbitrary: tx)
  case (Cons pw pws)
  obtain p w where pw: "pw = (p, w)" by force
  obtain tx1 where b: "overlay_broadcast_stream tx p w = Some (0, tx1)" "tx_inv tx1"
    using broadcast_inv[of tx p w] Cons(2-) by (auto simp: pw)
  obtain tx2 where d: "write_stream_buffer tx1 2048 = Some tx2" "tx_inv tx2" "tx_bytes_pending tx2 = 0"
    using tx_drain[OF b(2), of 2048] by (auto simp: Option.bind_eq_Some_conv)
  show ?case using Cons(1)[OF d(2,3)] Cons(4) by (auto simp: pw b d)
qed simp

lemma stream_reads_noisy:
  assumes "upper7_idle st" "\<forall>p \<in> set ps. upper7_fits p"
    "filter (\<lambda>b. \<not> rssi_noise b) (concat chunks) = concat (map upper7_frame ps)"
  shows "map_option fst (stream_reads st chunks) = Some ps"
proof -
  obtain st' where f: "feed u7_byte st (concat (map upper7_frame ps)) = Some (ps, st')"
    using u7.feed_frames[OF assms(1,2)] by blast
  obtain t l where "feed u7_byte st (concat chunks) = Some (ps, sd_heard t l st')"
    using feed_noise[of st "concat chunks" ps st'] assms(1,3) f by (auto simp: upper7_idle_def)
  then show ?thesis using stream_reads_upper7[where st = st and chunks = chunks] assms(1) by (simp add: upper7_idle_def)
qed

subsection \<open>The SLIP framing\<close>

definition slip_frame :: "byte list \<Rightarrow> byte list" where
  "slip_frame p = 0xc0 # concat (map slip_escape (p @ le_bytes (crc_of p) 4)) @ [0xc0]"

definition slip_fits :: "byte list \<Rightarrow> bool" where
  "slip_fits p \<longleftrightarrow> p \<noteq> [] \<and> length p + 4 \<le> 2048"

definition slip_idle :: "slip_decode_state \<Rightarrow> bool" where
  "slip_idle st \<longleftrightarrow> sd_encapsulator st = 0 \<and> length (sd_dst st) = 2048 \<and> sd_dst_offset st = 0 \<and> sd_state st \<in> {0, 1}"

lemma sd_push_in:
  assumes "sd_dst st = a @ x # r" "sd_dst_offset st = int (length a)"
  shows "sd_push st v = Some (st\<lparr>sd_dst := (a @ [v]) @ r, sd_dst_offset := int (length (a @ [v]))\<rparr>)"
  using sd_set_in(1)[of st a "x # r" 0 v] assms by (simp add: sd_push_def)

lemma slip_feed_escape:
  assumes "sd_dst st = a @ x # r" "sd_dst_offset st = int (length a)" "length a < 2048" "sd_state st = 1"
  shows "feed slip_feed st (slip_escape c) =
    Some ([], st\<lparr>sd_dst := (a @ [c]) @ r, sd_dst_offset := int (length (a @ [c]))\<rparr>)"
proof -
  have b: "slip_bound st = st" "slip_bound (st\<lparr>sd_state := 3\<rparr>) = st\<lparr>sd_state := 3\<rparr>"
    using assms by (simp_all add: slip_bound_def)
  have e: "feed slip_feed st [0xdb, d] = Some ([], st\<lparr>sd_dst := (a @ [v]) @ r, sd_dst_offset := int (length (a @ [v]))\<rparr>)"
    if "\<And>s. slip_unescape s d = sd_push s v" for d v
  proof -
    have "slip_unescape (st\<lparr>sd_state := 1\<rparr>) d = Some (st\<lparr>sd_dst := (a @ [v]) @ r, sd_dst_offset := int (length (a @ [v]))\<rparr>)"
      using that sd_push_in[of "st\<lparr>sd_state := 1\<rparr>" a x r v] assms by simp
    then show ?thesis using assms(4) by (simp add: slip_feed_def slip_byte_def slip_round_def b)
  qed
  have p: "feed slip_feed st [c] = Some ([], st\<lparr>sd_dst := (a @ [c]) @ r, sd_dst_offset := int (length (a @ [c]))\<rparr>)"
    if "c \<noteq> 0xdb" "c \<noteq> 0xc0"
    using that sd_push_in[OF assms(1,2), of c] assms(4) by (simp add: slip_feed_def slip_byte_def slip_round_def b)
  show ?thesis unfolding slip_escape_def by (auto simp: p e slip_unescape_def simp del: feed.simps)
qed

lemma slip_feed_data:
  assumes "sd_dst st = a @ r" "sd_dst_offset st = int (length a)" "length a + length data \<le> 2048"
    "length (sd_dst st) = 2048" "sd_state st = 1"
  shows "feed slip_feed st (concat (map slip_escape data)) =
    Some ([], st\<lparr>sd_dst := a @ data @ drop (length data) r, sd_dst_offset := int (length a + length data)\<rparr>)"
  using assms
proof (induction data arbitrary: st a r)
  case (Cons c data)
  then obtain x r' where r: "r = x # r'" by (cases r) auto
  define st' where "st' = st\<lparr>sd_dst := (a @ [c]) @ r', sd_dst_offset := int (length (a @ [c]))\<rparr>"
  have s: "feed slip_feed st (slip_escape c) = Some ([], st')"
    unfolding st'_def using Cons(2-) by (intro slip_feed_escape) (simp_all add: r)
  have "feed slip_feed st' (concat (map slip_escape data)) =
    Some ([], st'\<lparr>sd_dst := (a @ [c]) @ data @ drop (length data) r', sd_dst_offset := int (length (a @ [c]) + length data)\<rparr>)"
    by (rule Cons(1)) (use Cons(2-) in \<open>simp_all add: st'_def r\<close>)
  then show ?case by (simp add: feed_append s r st'_def)
qed simp

lemma read_uint32_le_bytes: "read_uint32 (a @ le_bytes v 4 @ r) (int (length a)) = Some v"
  using uint_roundtrip[of "int (length a)" 4 "a @ replicate 4 0 @ r" v]
  by (simp add: read_uint32_def write_uint_eq c_putn_def)

lemma slip_frame_feed:
  assumes "slip_idle st" "slip_fits p"
  shows "\<exists>st'. feed slip_feed st (slip_frame p) = Some ([p], st') \<and> slip_idle st'"
proof -
  let ?d = "p @ le_bytes (crc_of p) 4"
  define st1 where "st1 = st\<lparr>sd_state := 1\<rparr>"
  have f: "slip_feed st 0xc0 = Some ([], st1)"
    using assms(1)
    by (auto simp: slip_feed_def slip_byte_def slip_round_def slip_bound_def slip_end_def slip_idle_def st1_def)
  define st2 where "st2 = st1\<lparr>sd_dst := ?d @ drop (length ?d) (sd_dst st), sd_dst_offset := int (length ?d)\<rparr>"
  have g: "feed slip_feed st1 (concat (map slip_escape ?d)) = Some ([], st2)"
    using slip_feed_data[of st1 "[]" "sd_dst st" ?d] assms
    by (simp add: st1_def st2_def slip_idle_def slip_fits_def)
  have e: "slip_round s 0xc0 = Some (True, s\<lparr>sd_packet_length := int (length p)\<rparr>)"
    if "s = st2 \<or> s = st2\<lparr>sd_state := 0\<rparr>" for s
  proof -
    have s: "sd_dst s = ?d @ drop (length ?d) (sd_dst st)" "sd_dst_offset s = int (length p) + 4" "sd_state s AND 2 = 0"
      using that by (auto simp: st2_def st1_def)
    have "read_uint32 (sd_dst s) (int (length p)) = Some (crc_of p)"
      using read_uint32_le_bytes[of p "crc_of p"] s by simp
    moreover have "Crc32_ComputeBuf 0 (sd_dst s) (int (length p)) = Some (crc_of p)"
      using s by (simp add: Crc32_crc_of)
    ultimately show ?thesis using s assms(2) by (simp add: slip_round_def slip_end_def slip_fits_def)
  qed
  have "slip_bound st2 = st2 \<or> slip_bound st2 = st2\<lparr>sd_state := 0\<rparr>"
    by (auto simp: slip_bound_def st2_def st1_def)
  then obtain s where s: "slip_byte st2 0xc0 = Some (True, s\<lparr>sd_packet_length := int (length p)\<rparr>)"
    "s = st2 \<or> s = st2\<lparr>sd_state := 0\<rparr>" using e by (auto simp: slip_byte_def)
  have p: "c_getn (sd_dst s) 0 (int (length p)) = Some p" using s(2) by (auto simp: st2_def c_getn_def)
  let ?s = "s\<lparr>sd_packet_length := int (length p), sd_dst_offset := 0, sd_state := 1\<rparr>"
  have l: "slip_feed st2 0xc0 = Some ([p], ?s)" using p by (simp add: slip_feed_def s(1))
  define X where "X = concat (map slip_escape ?d)"
  have "feed slip_feed st (slip_frame p) = Some ([p], ?s)"
    using g unfolding slip_frame_def X_def[symmetric] by (simp add: f feed_append l)
  moreover have "slip_idle ?s"
    using s(2) assms by (auto simp: slip_idle_def slip_fits_def st2_def st1_def)
  ultimately show ?thesis by blast
qed

interpretation slip: framing slip_feed slip_frame slip_fits slip_idle
  by unfold_locales (rule slip_frame_feed)

lemma slip_encode_loop_frame:
  assumes "length (concat (map slip_escape data)) < length r"
    "int (length a + length (concat (map slip_escape data))) + 1 < dst_len"
  shows "slip_encode_loop data (a @ r) (int (length a)) dst_len =
    Some (int (length a + length (concat (map slip_escape data))) + 1,
      a @ concat (map slip_escape data) @ [0xc0] @ drop (length (concat (map slip_escape data)) + 1) r)"
  using assms
proof (induction data arbitrary: a r)
  case Nil
  then show ?case by (cases r) (simp_all add: c_mem list_update_append)
next
  case (Cons c data)
  define e where "e = slip_escape c"
  have e: "1 \<le> length e" "length e \<le> 2" by (simp_all add: e_def slip_escape_def)
  have p: "c_putn (a @ r) (int (length a)) e = Some ((a @ e) @ drop (length e) r)"
    using Cons(2) by (simp add: c_putn_def e_def)
  have "slip_encode_loop data ((a @ e) @ drop (length e) r) (int (length (a @ e))) dst_len =
    Some (int (length (a @ e) + length (concat (map slip_escape data))) + 1,
      (a @ e) @ concat (map slip_escape data) @ [0xc0] @ drop (length (concat (map slip_escape data)) + 1) (drop (length e) r))"
    by (rule Cons(1)) (use Cons(2,3) in \<open>simp_all add: e_def\<close>)
  moreover have "\<not> int (length a) + 3 > dst_len" using Cons(3) e by (simp add: e_def)
  ultimately show ?case using p by (simp add: e_def[symmetric] add_ac)
qed

lemma slip_encode_slip_frame:
  assumes room: "int (length (slip_frame p)) < dst_len" "dst_len \<le> int (length dst)" and slack: "length s = 4"
  shows "slip_encode 0 (p @ s @ rest) (int (length p)) dst dst_len =
    Some (int (length (slip_frame p)), p @ le_bytes (crc_of p) 4 @ rest,
      slip_frame p @ drop (length (slip_frame p)) dst)"
proof -
  define d where "d = p @ le_bytes (crc_of p) 4"
  define x where "x = concat (map slip_escape d)"
  have f: "slip_frame p = 0xc0 # x @ [0xc0]" by (simp add: slip_frame_def x_def d_def)
  obtain y dst' where dst: "dst = y # dst'" using room by (cases dst) auto
  have w: "write_uint32 (p @ s @ rest) (int (length p)) (crc_of p) = Some (d @ rest)"
    using slack by (simp add: write_uint32_def write_uint_eq c_putn_def d_def)
  have "slip_encode_loop d ([0xc0] @ dst') (int (length [0xc0 :: byte])) dst_len =
    Some (int (length [0xc0 :: byte] + length x) + 1, [0xc0] @ x @ [0xc0] @ drop (length x + 1) dst')"
    unfolding x_def by (rule slip_encode_loop_frame) (use room in \<open>simp_all add: f x_def[symmetric] dst\<close>)
  then have l: "slip_encode_loop d (0xc0 # dst') 1 dst_len = Some (2 + int (length x), 0xc0 # x @ 0xc0 # drop (length x + 1) dst')"
    by simp
  have c: "Crc32_ComputeBuf 0 (p @ s @ rest) (int (length p)) = Some (crc_of p)" by (simp add: Crc32_crc_of)
  have g: "c_getn (d @ rest) 0 (int (length p) + 4) = Some d" by (simp add: c_getn_def d_def)
  have "\<not> 2 > dst_len" using room by (simp add: f)
  then show ?thesis using c g l w
    by (simp add: slip_encode_def slip_encode_slip_def dst c_put_def f d_def[symmetric] del: append_assoc)
qed

text \<open>The bytes the encoder produces, for a packet in a buffer with the four spare bytes.\<close>

definition slip_sent :: "byte list \<Rightarrow> byte list \<Rightarrow> byte list" where
  "slip_sent dst p =
     (case slip_encode 0 (p @ [0, 0, 0, 0]) (int (length p)) dst (int (length dst)) of
        Some (n, src, dst') \<Rightarrow> take (nat n) dst'
      | None \<Rightarrow> [])"

lemma slip_frame_length: "length (slip_frame p) \<le> 2 + 2 * (length p + 4)"
proof -
  have "length (concat (map slip_escape d)) \<le> 2 * length d" for d
    by (induction d) (auto simp: slip_escape_def)
  from this[of "p @ le_bytes (crc_of p) 4"] show ?thesis by (simp add: slip_frame_def)
qed

lemma slip_escapes_fill:
  assumes "slip_idle st" "n \<le> 2048"
  shows "\<exists>st'. feed slip_feed st (concat (replicate n [0xdb, 0xdc])) = Some ([], st') \<and>
    length (sd_dst st') = 2048 \<and> sd_dst_offset st' = int n \<and> sd_state st' \<in> {0, 1}"
  using assms(2)
proof (induction n)
  case 0
  then show ?case using assms(1) by (simp add: slip_idle_def)
next
  case (Suc n)
  then obtain st' where st': "feed slip_feed st (concat (replicate n [0xdb, 0xdc])) = Some ([], st')"
    "length (sd_dst st') = 2048" "sd_dst_offset st' = int n" "sd_state st' \<in> {0, 1}" by auto
  have r: "concat (replicate (Suc n) [0xdb, 0xdc]) = concat (replicate n [0xdb, 0xdc]) @ [0xdb, 0xdc :: byte]"
    by (simp add: replicate_append_same[symmetric])
  have "\<exists>st2. feed slip_feed st' [0xdb, 0xdc] = Some ([], st2) \<and> length (sd_dst st2) = 2048 \<and>
      sd_dst_offset st2 = int (Suc n) \<and> sd_state st2 \<in> {0, 1}"
    using st'(2-) Suc(2)
    by (auto simp: slip_feed_def slip_byte_def slip_round_def slip_bound_def slip_unescape_def sd_push_def sd_set_def c_put_def)
  then show ?case unfolding r feed_append st'(1) by auto
qed

lemma slip_escape_overflow:
  assumes "slip_idle st"
  shows "stream_reads st [concat (replicate 2049 [0xdb, 0xdc])] = None"
proof -
  obtain st' where st': "feed slip_feed st (concat (replicate 2048 [0xdb, 0xdc])) = Some ([], st')"
    "length (sd_dst st') = 2048" "sd_dst_offset st' = 2048" "sd_state st' \<in> {0, 1}"
    using slip_escapes_fill[OF assms, of 2048] by auto
  have r: "concat (replicate 2049 [0xdb, 0xdc]) = concat (replicate 2048 [0xdb, 0xdc]) @ [0xdb, 0xdc :: byte]"
  proof -
    have n: "(2049 :: nat) = 2048 + 1" by simp
    have "replicate 2049 y = replicate 2048 y @ [y]" for y :: "byte list"
      unfolding n replicate_add by simp
    then show ?thesis by (simp only: concat_append) simp
  qed
  have "feed slip_feed st' [0xdb, 0xdc] = None"
    using st'(2-) by (auto simp: slip_feed_def slip_byte_def slip_round_def slip_bound_def slip_unescape_def sd_push_def sd_set_def c_put_def)
  then have "feed slip_feed st (concat (replicate 2049 [0xdb, 0xdc])) = None"
    unfolding r feed_append st'(1) by simp
  then show ?thesis
    using stream_reads_slip[where st = st and chunks = "[concat (replicate 2049 [0xdb, 0xdc])]"] assms
    by (simp add: slip_idle_def)
qed

text \<open>The arrays keep their sizes.\<close>

definition sd_sized :: "slip_decode_state \<Rightarrow> bool" where
  "sd_sized st \<longleftrightarrow> length (sd_dst st) = 2048 \<and> length (sd_rssi_text st) = 256"

lemma sd_sized_upd [simp]:
  "sd_sized (sd_next st) = sd_sized st"
  "sd_sized (upper7_reset st) = sd_sized st"
  "sd_sized (st\<lparr>sd_state := s\<rparr>) = sd_sized st"
  "sd_sized (st\<lparr>sd_packet_length := n\<rparr>) = sd_sized st"
  "sd_sized (st\<lparr>sd_dst_offset := n\<rparr>) = sd_sized st"
  "sd_sized (st\<lparr>sd_crc := c\<rparr>) = sd_sized st"
  by (simp_all add: sd_sized_def sd_next_def upper7_reset_def)

lemma sd_set_sized:
  assumes "sd_sized st" "0 \<le> sd_dst_offset st" "sd_dst_offset st + 7 < 2048" "0 \<le> i" "i \<le> 6"
  shows "\<exists>st'. sd_set st i v = Some st' \<and> sd_sized st' \<and> sd_dst_offset st' = sd_dst_offset st"
    "\<exists>st'. sd_or st i v = Some st' \<and> sd_sized st' \<and> sd_dst_offset st' = sd_dst_offset st"
  using assms by (simp_all add: sd_set_def sd_or_def sd_sized_def c_mem)

lemma sd_or_set_sized:
  assumes "sd_sized st" "0 \<le> sd_dst_offset st" "sd_dst_offset st + 7 < 2048" "0 \<le> i" "i \<le> 6" "0 \<le> j" "j \<le> 6"
  shows "\<exists>st'. do { st \<leftarrow> sd_or st i v; st \<leftarrow> sd_set st j w; Some (sd_next st) } = Some st' \<and> sd_sized st'"
proof -
  obtain st1 where st1: "sd_or st i v = Some st1" "sd_sized st1" "sd_dst_offset st1 = sd_dst_offset st"
    using sd_set_sized(2)[OF assms(1-5)] by blast
  then obtain st2 where "sd_set st1 j w = Some st2" "sd_sized st2"
    using sd_set_sized(1)[of st1 j w] assms by auto
  then show ?thesis by (simp add: st1)
qed

lemma upper7_data_sized:
  assumes "sd_sized st" "\<not> upper7_overflow st"
  shows "\<exists>st'. upper7_data st b = Some st' \<and> sd_sized st'"
proof -
  have k: "0 \<le> sd_dst_offset st" "sd_dst_offset st + 7 < 2048" using assms(2) by (auto simp: upper7_overflow_def)
  note one = sd_set_sized[OF assms(1) k] and two = sd_or_set_sized[OF assms(1) k]
  obtain s0 where s0: "sd_set st 0 (push_bit 1 b) = Some s0" "sd_sized s0" using one(1)[of 0] by auto
  obtain s7 where s7: "sd_or st 6 (b AND 0x7f) = Some s7" "sd_sized s7" using one(2)[of 6] by auto
  have *: "(\<exists>x. (if c then y else z) = Some x \<and> sd_sized x) \<longleftrightarrow>
      (if c then \<exists>x. y = Some x \<and> sd_sized x else \<exists>x. z = Some x \<and> sd_sized x)" for c y z by simp
  show ?thesis
    unfolding upper7_data_def * Let_def
    using assms two s0 s7 by simp
qed

lemma rssi_sized:
  assumes "sd_sized st"
  shows "\<exists>st'. rssi_char st b = Some st' \<and> sd_sized st'" "\<exists>st'. rssi_end st = Some st' \<and> sd_sized st'"
  using assms by (auto simp: rssi_char_def rssi_end_def sd_sized_def Let_def c_mem)

lemma upper7_overread:
  assumes "upper7_idle st"
  shows "stream_reads st [[0x7B, 0xFF, 0x7D]] = None"
proof -
  have "feed u7_byte st [0x7B, 0xFF, 0x7D] = None"
    using assms by (simp add: u7_byte_def upper7_decode_def upper7_overflow_def upper7_data_def sd_next_def
      upper7_idle_def push_bit_eq_mult Crc32_ComputeBuf_def c_getn_def)
  then show ?thesis
    using stream_reads_upper7[where st = st and chunks = "[[0x7B, 0xFF, 0x7D]]"] assms by (simp add: upper7_idle_def)
qed

lemma upper7_repeat:
  assumes "upper7_idle st" "upper7_fits p"
  shows "map_option fst (stream_reads st [upper7_frame p @ [0x7D]]) = Some [p, p]"
proof -
  obtain st' where st': "feed u7_byte st (upper7_frame p) = Some ([p], st')" "upper7_idle st'"
    "sd_packet_length st' = int (length p)" "take (length p) (sd_dst st') = p" "sd_crc st' = crc_of p"
    using u7_frame[OF assms] by blast
  have "u7_byte st' 0x7D = Some ([p], st'\<lparr>sd_state := 0, sd_dst_offset := 0\<rparr>)"
    using st' assms(2) by (intro u7_end) (simp_all add: upper7_idle_def upper7_fits_def)
  then have "feed u7_byte st (upper7_frame p @ [0x7D]) = Some ([p, p], st'\<lparr>sd_state := 0, sd_dst_offset := 0\<rparr>)"
    by (simp add: feed_append st'(1))
  then show ?thesis
    using stream_reads_upper7[where st = st and chunks = "[upper7_frame p @ [0x7D]]"] assms by (simp add: upper7_idle_def)
qed

text \<open>A buffer one byte too short for the closing brace passes the size checks of the
  encoder, which then writes outside it.\<close>

lemma slip_encode_upper7_overrun:
  assumes n: "length p \<le> 0x3fff" "length p mod 7 \<noteq> 0" and dst: "length dst + 1 = length (upper7_frame p)"
  shows "slip_encode_upper7 (p @ rest) (int (length p)) dst (int (length dst)) = None"
proof -
  have p: "p \<noteq> []" using n(2) by auto
  have ld: "length dst = 8 + length (upper7_blocks p)" using dst by (simp add: upper7_frame_def upper7_header_def)
  from ceil7_tight[OF n(2)] have guard: "9 + int (length p) + int (length p) div 7 + 1 \<le> int (length dst)"
    using zdiv_int[of "length p" 7] by (simp add: ld upper7_blocks_length)
  let ?h = "upper7_header (int (length p)) (crc_of p)"
  have h: "length ?h = 8" by (simp add: upper7_header_def)
  have loop: "upper7_encode_loop q (a @ r) (int (length a)) n = None"
    if "length r = length (upper7_blocks q)" "n = int (length a + length r)" for q a r n
    using that
  proof (induction q arbitrary: a r rule: upper7_blocks.induct)
    case (1 q)
    show ?case
    proof (cases "q = []")
      case True
      then show ?thesis using 1(2,3) by (simp add: upper7_blocks.simps upper7_encode_loop.simps c_put_def)
    next
      case False
      define e where "e = upper7_block (take 7 (q @ replicate 7 0))"
      have e: "length e = 8" "upper7_block (take 7 q @ replicate (7 - length q) 0) = e" by (simp_all add: e_def)
      have u: "upper7_blocks q = e @ upper7_blocks (drop 7 q)"
        using False by (subst upper7_blocks.simps) (simp add: e_def)
      have put: "c_putn (a @ r) (int (length a)) e = Some ((a @ e) @ drop 8 r)"
        using 1(2) e by (simp add: c_putn_def u)
      have "upper7_encode_loop (drop 7 q) ((a @ e) @ drop 8 r) (int (length (a @ e))) n = None"
        by (rule 1(1)[OF False]) (use 1(2,3) e in \<open>simp_all add: u\<close>)
      then show ?thesis
        using False put e 1(2,3) by (subst upper7_encode_loop.simps) (simp add: u add.commute)
    qed
  qed
  have "upper7_encode_loop p (?h @ drop 8 dst) (int (length ?h)) (int (length dst)) = None"
    by (rule loop) (use ld h in simp_all)
  then show ?thesis
    using p n guard h ld by (simp add: slip_encode_upper7_def Crc32_crc_of c_getn_def c_putn_def)
qed

text \<open>The transmit buffer is one: packets of 1779 to 1784 bytes overrun it.\<close>

lemma broadcast_overrun:
  assumes "length (tx_buffer tx) = 2048" "tx_bytes_pending tx = 0" "1779 \<le> length p" "length p \<le> 1784"
  shows "overlay_broadcast_stream tx p w = None"
proof -
  from ceil7_overrun[OF assms(3,4)] have "slip_encode_upper7 (p @ []) (int (length p)) (tx_buffer tx) (int (length (tx_buffer tx))) = None"
    using assms by (intro slip_encode_upper7_overrun) (simp_all add: upper7_frame_length)
  then show ?thesis using assms by (simp add: overlay_broadcast_stream_def slip_encode_def)
qed

subsection \<open>Properties\<close>







text \<open>C14. SLIP: frames of packets of 1 to 2044 bytes, concatenated and read in any pieces,
  decode to those packets.\<close>

theorem slip_roundtrip:
  assumes "slip_idle st" "4098 < length dst" "\<forall>p \<in> set ps. p \<noteq> [] \<and> length p \<le> 2044"
    "concat chunks = concat (map (slip_sent dst) ps)"
  shows "map_option fst (stream_reads st chunks) = Some ps"
proof -
  have "slip_sent dst p = slip_frame p" if "p \<in> set ps" for p
    using slip_encode_slip_frame[of p "int (length dst)" dst "[0, 0, 0, 0]" "[]"] slip_frame_length[of p] assms(2,3) that
    by (force simp: slip_sent_def)
  then have "map (slip_sent dst) ps = map slip_frame ps" by simp
  moreover have "\<forall>p \<in> set ps. slip_fits p" using assms(3) by (auto simp: slip_fits_def)
  ultimately obtain st' where "feed slip_feed st (concat chunks) = Some (ps, st')"
    using slip.feed_frames[OF assms(1)] assms(4) by metis
  then show ?thesis
    using stream_reads_slip[where st = st and chunks = chunks] assms(1) by (simp add: slip_idle_def)
qed

theorem slip_roundtrip_witness:
  "map_option fst (stream_reads (slip_decode_init\<lparr>sd_encapsulator := 0\<rparr>)
     [slip_sent (replicate 5000 0) [0xc0, 0xdb], [], slip_sent (replicate 5000 0) [1]]) = Some [[0xc0, 0xdb], [1]]"
  by (rule slip_roundtrip[where dst = "replicate 5000 0"]) (simp_all add: slip_idle_def slip_decode_init_def)

end
