(* ===== verification/Sha2.thy ===== *)
theory Sha2
  imports Dataformats
begin

text \<open>
  The SHA-2 functions of \<open>sha2.c\<close>, on a little-endian host. A context is a record of the
  chaining state, the bit counter and the buffer, the latter as bytes: \<open>SHA256_Transform\<close>
  and \<open>SHA512_Transform\<close> use it as the circular message schedule (\<open>W256\<close>, \<open>W512\<close>)
  through word loads and stores, also when it is the block being hashed. The two families
  differ only in the width of the words, the logical functions, the constants and the number
  of rounds, which are the fields of \<open>sha_alg\<close>. \<open>size_t\<close> has 64 bits.
\<close>

subsection \<open>Macros\<close>

definition REVERSE32 :: "u32 \<Rightarrow> u32" where
  "REVERSE32 w =
     (let tmp = drop_bit 16 w OR push_bit 16 w
      in drop_bit 8 (tmp AND 0xff00ff00) OR push_bit 8 (tmp AND 0x00ff00ff))"

definition REVERSE64 :: "u64 \<Rightarrow> u64" where
  "REVERSE64 w =
     (let tmp = drop_bit 32 w OR push_bit 32 w;
          tmp = drop_bit 8 (tmp AND 0xff00ff00ff00ff00) OR push_bit 8 (tmp AND 0x00ff00ff00ff00ff)
      in drop_bit 16 (tmp AND 0xffff0000ffff0000) OR push_bit 16 (tmp AND 0x0000ffff0000ffff))"

text \<open>A 128-bit counter in two words, the low one first.\<close>

definition ADDINC128 :: "u64 \<times> u64 \<Rightarrow> u64 \<Rightarrow> u64 \<times> u64" where
  "ADDINC128 w n =
     (let w0 = fst w + n
      in if w0 < n then (w0, snd w + 1) else (w0, snd w))"

definition R :: "nat \<Rightarrow> 'w::len word \<Rightarrow> 'w word" where
  "R b x = drop_bit b x"

definition S32 :: "nat \<Rightarrow> u32 \<Rightarrow> u32" where
  "S32 b x = drop_bit b x OR push_bit (32 - b) x"

definition S64 :: "nat \<Rightarrow> u64 \<Rightarrow> u64" where
  "S64 b x = drop_bit b x OR push_bit (64 - b) x"

definition Ch :: "'w::len word \<Rightarrow> 'w word \<Rightarrow> 'w word \<Rightarrow> 'w word" where
  "Ch x y z = (x AND y) XOR (NOT x AND z)"

definition Maj :: "'w::len word \<Rightarrow> 'w word \<Rightarrow> 'w word \<Rightarrow> 'w word" where
  "Maj x y z = (x AND y) XOR (x AND z) XOR (y AND z)"

definition Sigma0_256 :: "u32 \<Rightarrow> u32" where
  "Sigma0_256 x = S32 2 x XOR S32 13 x XOR S32 22 x"

definition Sigma1_256 :: "u32 \<Rightarrow> u32" where
  "Sigma1_256 x = S32 6 x XOR S32 11 x XOR S32 25 x"

definition sigma0_256 :: "u32 \<Rightarrow> u32" where
  "sigma0_256 x = S32 7 x XOR S32 18 x XOR R 3 x"

definition sigma1_256 :: "u32 \<Rightarrow> u32" where
  "sigma1_256 x = S32 17 x XOR S32 19 x XOR R 10 x"

definition Sigma0_512 :: "u64 \<Rightarrow> u64" where
  "Sigma0_512 x = S64 28 x XOR S64 34 x XOR S64 39 x"

definition Sigma1_512 :: "u64 \<Rightarrow> u64" where
  "Sigma1_512 x = S64 14 x XOR S64 18 x XOR S64 41 x"

definition sigma0_512 :: "u64 \<Rightarrow> u64" where
  "sigma0_512 x = S64 1 x XOR S64 8 x XOR R 7 x"

definition sigma1_512 :: "u64 \<Rightarrow> u64" where
  "sigma1_512 x = S64 19 x XOR S64 61 x XOR R 6 x"

subsection \<open>Constants\<close>

definition K256 :: "u32 list" where
  "K256 =
     [0x428a2f98, 0x71374491, 0xb5c0fbcf, 0xe9b5dba5, 0x3956c25b, 0x59f111f1, 0x923f82a4, 0xab1c5ed5,
      0xd807aa98, 0x12835b01, 0x243185be, 0x550c7dc3, 0x72be5d74, 0x80deb1fe, 0x9bdc06a7, 0xc19bf174,
      0xe49b69c1, 0xefbe4786, 0x0fc19dc6, 0x240ca1cc, 0x2de92c6f, 0x4a7484aa, 0x5cb0a9dc, 0x76f988da,
      0x983e5152, 0xa831c66d, 0xb00327c8, 0xbf597fc7, 0xc6e00bf3, 0xd5a79147, 0x06ca6351, 0x14292967,
      0x27b70a85, 0x2e1b2138, 0x4d2c6dfc, 0x53380d13, 0x650a7354, 0x766a0abb, 0x81c2c92e, 0x92722c85,
      0xa2bfe8a1, 0xa81a664b, 0xc24b8b70, 0xc76c51a3, 0xd192e819, 0xd6990624, 0xf40e3585, 0x106aa070,
      0x19a4c116, 0x1e376c08, 0x2748774c, 0x34b0bcb5, 0x391c0cb3, 0x4ed8aa4a, 0x5b9cca4f, 0x682e6ff3,
      0x748f82ee, 0x78a5636f, 0x84c87814, 0x8cc70208, 0x90befffa, 0xa4506ceb, 0xbef9a3f7, 0xc67178f2]"

definition sha256_initial_hash_value :: "u32 list" where
  "sha256_initial_hash_value =
     [0x6a09e667, 0xbb67ae85, 0x3c6ef372, 0xa54ff53a,
      0x510e527f, 0x9b05688c, 0x1f83d9ab, 0x5be0cd19]"

definition K512 :: "u64 list" where
  "K512 =
     [0x428a2f98d728ae22, 0x7137449123ef65cd, 0xb5c0fbcfec4d3b2f, 0xe9b5dba58189dbbc,
      0x3956c25bf348b538, 0x59f111f1b605d019, 0x923f82a4af194f9b, 0xab1c5ed5da6d8118,
      0xd807aa98a3030242, 0x12835b0145706fbe, 0x243185be4ee4b28c, 0x550c7dc3d5ffb4e2,
      0x72be5d74f27b896f, 0x80deb1fe3b1696b1, 0x9bdc06a725c71235, 0xc19bf174cf692694,
      0xe49b69c19ef14ad2, 0xefbe4786384f25e3, 0x0fc19dc68b8cd5b5, 0x240ca1cc77ac9c65,
      0x2de92c6f592b0275, 0x4a7484aa6ea6e483, 0x5cb0a9dcbd41fbd4, 0x76f988da831153b5,
      0x983e5152ee66dfab, 0xa831c66d2db43210, 0xb00327c898fb213f, 0xbf597fc7beef0ee4,
      0xc6e00bf33da88fc2, 0xd5a79147930aa725, 0x06ca6351e003826f, 0x142929670a0e6e70,
      0x27b70a8546d22ffc, 0x2e1b21385c26c926, 0x4d2c6dfc5ac42aed, 0x53380d139d95b3df,
      0x650a73548baf63de, 0x766a0abb3c77b2a8, 0x81c2c92e47edaee6, 0x92722c851482353b,
      0xa2bfe8a14cf10364, 0xa81a664bbc423001, 0xc24b8b70d0f89791, 0xc76c51a30654be30,
      0xd192e819d6ef5218, 0xd69906245565a910, 0xf40e35855771202a, 0x106aa07032bbd1b8,
      0x19a4c116b8d2d0c8, 0x1e376c085141ab53, 0x2748774cdf8eeb99, 0x34b0bcb5e19b48a8,
      0x391c0cb3c5c95a63, 0x4ed8aa4ae3418acb, 0x5b9cca4f7763e373, 0x682e6ff3d6b2b8a3,
      0x748f82ee5defb2fc, 0x78a5636f43172f60, 0x84c87814a1f0ab72, 0x8cc702081a6439ec,
      0x90befffa23631e28, 0xa4506cebde82bde9, 0xbef9a3f7b2c67915, 0xc67178f2e372532b,
      0xca273eceea26619c, 0xd186b8c721c0c207, 0xeada7dd6cde0eb1e, 0xf57d4f7fee6ed178,
      0x06f067aa72176fba, 0x0a637dc5a2c898a6, 0x113f9804bef90dae, 0x1b710b35131c471b,
      0x28db77f523047d84, 0x32caab7b40c72493, 0x3c9ebe0a15c9bebc, 0x431d67c49c100d4c,
      0x4cc5d4becb3e42b6, 0x597f299cfc657e2a, 0x5fcb6fab3ad6faec, 0x6c44198c4a475817]"

definition sha384_initial_hash_value :: "u64 list" where
  "sha384_initial_hash_value =
     [0xcbbb9d5dc1059ed8, 0x629a292a367cd507, 0x9159015a3070dd17, 0x152fecd8f70e5939,
      0x67332667ffc00b31, 0x8eb44a8768581511, 0xdb0c2e0d64f98fa7, 0x47b5481dbefa4fa4]"

definition sha512_initial_hash_value :: "u64 list" where
  "sha512_initial_hash_value =
     [0x6a09e667f3bcc908, 0xbb67ae8584caa73b, 0x3c6ef372fe94f82b, 0xa54ff53a5f1d36f1,
      0x510e527fade682d1, 0x9b05688c2b3e6c1f, 0x1f83d9abfb41bd6b, 0x5be0cd19137e2179]"

record 'a sha_alg =
  alg_Sigma0 :: "'a \<Rightarrow> 'a"
  alg_Sigma1 :: "'a \<Rightarrow> 'a"
  alg_sigma0 :: "'a \<Rightarrow> 'a"
  alg_sigma1 :: "'a \<Rightarrow> 'a"
  alg_K :: "'a list"
  alg_reverse :: "'a \<Rightarrow> 'a"
  alg_rounds :: nat

definition alg256 :: "u32 sha_alg" where
  "alg256 = \<lparr>alg_Sigma0 = Sigma0_256, alg_Sigma1 = Sigma1_256, alg_sigma0 = sigma0_256,
     alg_sigma1 = sigma1_256, alg_K = K256, alg_reverse = REVERSE32, alg_rounds = 64\<rparr>"

definition alg512 :: "u64 sha_alg" where
  "alg512 = \<lparr>alg_Sigma0 = Sigma0_512, alg_Sigma1 = Sigma1_512, alg_sigma0 = sigma0_512,
     alg_sigma1 = sigma1_512, alg_K = K512, alg_reverse = REVERSE64, alg_rounds = 80\<rparr>"

subsection \<open>The buffer as an array of words\<close>

text \<open>\<open>((sha2_word32 *) p)[j]\<close> on a little-endian host.\<close>

fun le_word_of :: "byte list \<Rightarrow> 'w::len word" where
  "le_word_of [] = 0"
| "le_word_of (b # bs) = ucast b OR push_bit 8 (le_word_of bs)"

abbreviation wbytes :: "'w::len word itself \<Rightarrow> nat" where
  "wbytes _ \<equiv> LENGTH('w) div 8"

definition word_at :: "byte list \<Rightarrow> nat \<Rightarrow> 'w::len word" where
  "word_at m j = (let n = wbytes TYPE('w word) in le_word_of (take n (drop (n * j) m)))"

definition put_word :: "byte list \<Rightarrow> nat \<Rightarrow> 'w::len word \<Rightarrow> byte list" where
  "put_word m j w = (let n = wbytes TYPE('w word) in take (n * j) m @ le_bytes w n @ drop (n * j + n) m)"

subsection \<open>The compression functions\<close>

type_synonym 'w regs = "'w word \<times> 'w word \<times> 'w word \<times> 'w word \<times> 'w word \<times> 'w word \<times> 'w word \<times> 'w word"

definition sha_step :: "'w::len word sha_alg \<Rightarrow> 'w word \<Rightarrow> 'w word \<Rightarrow> 'w regs \<Rightarrow> 'w regs" where
  "sha_step A k w = (\<lambda>(a, b, c, d, e, f, g, h).
     let T1 = h + alg_Sigma1 A e + Ch e f g + k + w;
         T2 = alg_Sigma0 A a + Maj a b c
     in (T1 + T2, a, b, c, d + T1, e, f, g))"

text \<open>Rounds 0 to 15 read the block, which may be the buffer itself (\<open>None\<close>), and store
  it in host order.\<close>

definition load_word :: "'w::len word sha_alg \<Rightarrow> byte list option \<Rightarrow> byte list \<Rightarrow> nat \<Rightarrow> byte list" where
  "load_word A data buf j =
     put_word buf j (alg_reverse A (word_at (case data of None \<Rightarrow> buf | Some d \<Rightarrow> d) j))"

definition load_round :: "'w::len word sha_alg \<Rightarrow> byte list option \<Rightarrow> byte list \<times> 'w regs \<Rightarrow> nat \<Rightarrow> byte list \<times> 'w regs" where
  "load_round A data = (\<lambda>(buf, r) j.
     let buf = load_word A data buf j
     in (buf, sha_step A (alg_K A ! j) (word_at buf j) r))"

definition expand_word :: "'w::len word sha_alg \<Rightarrow> byte list \<Rightarrow> nat \<Rightarrow> 'w word" where
  "expand_word A buf j =
     (let s0 = alg_sigma0 A (word_at buf ((j + 1) AND 0x0f));
          s1 = alg_sigma1 A (word_at buf ((j + 14) AND 0x0f))
      in word_at buf (j AND 0x0f) + (s1 + word_at buf ((j + 9) AND 0x0f) + s0))"

definition expand_round :: "'w::len word sha_alg \<Rightarrow> byte list \<times> 'w regs \<Rightarrow> nat \<Rightarrow> byte list \<times> 'w regs" where
  "expand_round A = (\<lambda>(buf, r) j.
     let w = expand_word A buf j
     in (put_word buf (j AND 0x0f) w, sha_step A (alg_K A ! j) w r))"

definition regs_of :: "'w::len word list \<Rightarrow> 'w regs" where
  "regs_of st = (st ! 0, st ! 1, st ! 2, st ! 3, st ! 4, st ! 5, st ! 6, st ! 7)"

definition add_regs :: "'w::len word list \<Rightarrow> 'w regs \<Rightarrow> 'w word list" where
  "add_regs st = (\<lambda>(a, b, c, d, e, f, g, h).
     [st ! 0 + a, st ! 1 + b, st ! 2 + c, st ! 3 + d, st ! 4 + e, st ! 5 + f, st ! 6 + g, st ! 7 + h])"

definition sha_transform ::
    "'w::len word sha_alg \<Rightarrow> 'w word list \<Rightarrow> byte list \<Rightarrow> byte list option \<Rightarrow> 'w word list \<times> byte list" where
  "sha_transform A st buf data =
     (let (buf, r) = foldl (load_round A data) (buf, regs_of st) [0..<16];
          (buf, r) = foldl (expand_round A) (buf, r) [16..<alg_rounds A]
      in (add_regs st r, buf))"

text \<open>The unrolled variant: the registers keep their places, the arguments rotate.\<close>

definition unrolled_round :: "'w::len word sha_alg \<Rightarrow> 'w word \<Rightarrow> 'w word \<Rightarrow> 'w regs \<Rightarrow> 'w regs" where
  "unrolled_round A k w = (\<lambda>(a, b, c, d, e, f, g, h).
     let T1 = h + alg_Sigma1 A e + Ch e f g + k + w;
         d = d + T1;
         h = T1 + alg_Sigma0 A a + Maj a b c
     in (a, b, c, d, e, f, g, h))"

definition ROUND_0_TO_15 :: "'w::len word sha_alg \<Rightarrow> byte list option \<Rightarrow> nat \<Rightarrow> byte list \<times> 'w regs \<Rightarrow> byte list \<times> 'w regs" where
  "ROUND_0_TO_15 A data j = (\<lambda>(buf, r).
     let buf = load_word A data buf j
     in (buf, unrolled_round A (alg_K A ! j) (word_at buf j) r))"

definition ROUND :: "'w::len word sha_alg \<Rightarrow> nat \<Rightarrow> byte list \<times> 'w regs \<Rightarrow> byte list \<times> 'w regs" where
  "ROUND A j = (\<lambda>(buf, r).
     let w = expand_word A buf j
     in (put_word buf (j AND 0x0f) w, unrolled_round A (alg_K A ! j) w r))"

definition eight_rounds :: "(nat \<Rightarrow> byte list \<times> 'w regs \<Rightarrow> byte list \<times> 'w::len regs) \<Rightarrow> byte list \<times> 'w regs \<Rightarrow> nat \<Rightarrow> byte list \<times> 'w regs" where
  "eight_rounds rnd = (\<lambda>(buf, (a, b, c, d, e, f, g, h)) j.
     let (buf, (a, b, c, d, e, f, g, h)) = rnd j (buf, (a, b, c, d, e, f, g, h));
         (buf, (h, a, b, c, d, e, f, g)) = rnd (j + 1) (buf, (h, a, b, c, d, e, f, g));
         (buf, (g, h, a, b, c, d, e, f)) = rnd (j + 2) (buf, (g, h, a, b, c, d, e, f));
         (buf, (f, g, h, a, b, c, d, e)) = rnd (j + 3) (buf, (f, g, h, a, b, c, d, e));
         (buf, (e, f, g, h, a, b, c, d)) = rnd (j + 4) (buf, (e, f, g, h, a, b, c, d));
         (buf, (d, e, f, g, h, a, b, c)) = rnd (j + 5) (buf, (d, e, f, g, h, a, b, c));
         (buf, (c, d, e, f, g, h, a, b)) = rnd (j + 6) (buf, (c, d, e, f, g, h, a, b));
         (buf, (b, c, d, e, f, g, h, a)) = rnd (j + 7) (buf, (b, c, d, e, f, g, h, a))
     in (buf, (a, b, c, d, e, f, g, h)))"

definition sha_transform_unrolled ::
    "'w::len word sha_alg \<Rightarrow> 'w word list \<Rightarrow> byte list \<Rightarrow> byte list option \<Rightarrow> 'w word list \<times> byte list" where
  "sha_transform_unrolled A st buf data =
     (let (buf, r) = foldl (eight_rounds (ROUND_0_TO_15 A data)) (buf, regs_of st) [0, 8];
          (buf, r) = foldl (eight_rounds (ROUND A)) (buf, r) (map (\<lambda>i. 16 + 8 * i) [0..<(alg_rounds A - 16) div 8])
      in (add_regs st r, buf))"

subsection \<open>SHA-256\<close>

record SHA256_CTX =
  state256 :: "u32 list"
  bitcount256 :: u64
  buffer256 :: "byte list"

definition SHA256_Init :: SHA256_CTX where
  "SHA256_Init = \<lparr>state256 = sha256_initial_hash_value, bitcount256 = 0, buffer256 = replicate 64 0\<rparr>"

text \<open>\<open>None\<close> hashes the buffer, \<open>Some\<close> the given block.\<close>

definition SHA256_Transform :: "SHA256_CTX \<Rightarrow> byte list option \<Rightarrow> SHA256_CTX" where
  "SHA256_Transform ctx data =
     (let (st, buf) = sha_transform alg256 (state256 ctx) (buffer256 ctx) data
      in ctx\<lparr>state256 := st, buffer256 := buf\<rparr>)"

definition SHA256_Transform_unrolled :: "SHA256_CTX \<Rightarrow> byte list option \<Rightarrow> SHA256_CTX" where
  "SHA256_Transform_unrolled ctx data =
     (let (st, buf) = sha_transform_unrolled alg256 (state256 ctx) (buffer256 ctx) data
      in ctx\<lparr>state256 := st, buffer256 := buf\<rparr>)"

definition usedspace256 :: "SHA256_CTX \<Rightarrow> nat" where
  "usedspace256 ctx = unat (drop_bit 3 (bitcount256 ctx)) mod 64"

definition count256 :: "SHA256_CTX \<Rightarrow> nat \<Rightarrow> SHA256_CTX" where
  "count256 ctx n = ctx\<lparr>bitcount256 := bitcount256 ctx + push_bit 3 (of_nat n)\<rparr>"

definition memcpy256 :: "SHA256_CTX \<Rightarrow> nat \<Rightarrow> byte list \<Rightarrow> SHA256_CTX option" where
  "memcpy256 ctx i d = do { b \<leftarrow> c_putn (buffer256 ctx) (int i) d; Some (ctx\<lparr>buffer256 := b\<rparr>) }"

text \<open>The whole blocks, then what is left over.\<close>

function SHA256_blocks :: "SHA256_CTX \<Rightarrow> byte list \<Rightarrow> SHA256_CTX option" where
  "SHA256_blocks ctx data =
     (if length data \<ge> 64
      then SHA256_blocks (count256 (SHA256_Transform ctx (Some (take 64 data))) 64) (drop 64 data)
      else if length data > 0 then do {
        ctx \<leftarrow> memcpy256 ctx 0 data;
        Some (count256 ctx (length data))
      } else Some ctx)"
  by pat_completeness auto
termination
  by (relation "measure (\<lambda>(ctx, data). length data)") auto

declare SHA256_blocks.simps [simp del]

definition SHA256_Update :: "SHA256_CTX \<Rightarrow> byte list \<Rightarrow> SHA256_CTX option" where
  "SHA256_Update ctx data =
     (if data = [] then Some ctx
      else if usedspace256 ctx > 0 then
        (let freespace = 64 - usedspace256 ctx
         in if length data \<ge> freespace then do {
              c \<leftarrow> memcpy256 ctx (usedspace256 ctx) (take freespace data);
              SHA256_blocks (SHA256_Transform (count256 c freespace) None) (drop freespace data)
            } else do {
              c \<leftarrow> memcpy256 ctx (usedspace256 ctx) data;
              Some (count256 c (length data))
            })
      else SHA256_blocks ctx data)"

text \<open>The padding and the last block or two.\<close>

definition SHA256_Last :: "SHA256_CTX \<Rightarrow> SHA256_CTX option" where
  "SHA256_Last ctx = do {
     let used = usedspace256 ctx;
     let ctx = ctx\<lparr>bitcount256 := REVERSE64 (bitcount256 ctx)\<rparr>;
     ctx \<leftarrow> (if used > 0 then do {
              ctx \<leftarrow> memcpy256 ctx used [0x80];
              let used = used + 1;
              if used \<le> 56 then memcpy256 ctx used (replicate (56 - used) 0)
              else do {
                ctx \<leftarrow> (if used < 64 then memcpy256 ctx used (replicate (64 - used) 0) else Some ctx);
                memcpy256 (SHA256_Transform ctx None) 0 (replicate 56 0)
              }
            } else do {
              ctx \<leftarrow> memcpy256 ctx 0 (replicate 56 0);
              memcpy256 ctx 0 [0x80]
            });
     ctx \<leftarrow> memcpy256 ctx 56 (le_bytes (bitcount256 ctx) 8);
     Some (SHA256_Transform ctx None)
   }"

definition zero256 :: SHA256_CTX where
  "zero256 = \<lparr>state256 = replicate 8 0, bitcount256 = 0, buffer256 = replicate 64 0\<rparr>"

text \<open>The digest is asked for or not (a null pointer); the context is cleared in any case.\<close>

definition SHA256_Final :: "bool \<Rightarrow> SHA256_CTX \<Rightarrow> (byte list option \<times> SHA256_CTX) option" where
  "SHA256_Final wanted ctx =
     (if wanted then do {
        ctx \<leftarrow> SHA256_Last ctx;
        Some (Some (concat (map (\<lambda>j. le_bytes (REVERSE32 (state256 ctx ! j)) 4) [0..<8])), zero256)
      } else Some (None, zero256))"

definition sha2_hex_digits :: "byte list" where
  "sha2_hex_digits = cs ''0123456789abcdef''"

definition hex_text :: "byte list \<Rightarrow> byte list" where
  "hex_text d = concat (map (\<lambda>b. [sha2_hex_digits ! unat (drop_bit 4 (b AND 0xf0)), sha2_hex_digits ! unat (b AND 0x0f)]) d) @ [0]"

text \<open>The text written to the buffer, if one is given, and the offset of the returned pointer in it.\<close>

definition SHA256_End :: "SHA256_CTX \<Rightarrow> bool \<Rightarrow> ((byte list \<times> nat) option \<times> SHA256_CTX) option" where
  "SHA256_End ctx wanted =
     (if wanted then do {
        (d, ctx) \<leftarrow> SHA256_Final True ctx;
        Some (map_option (\<lambda>d. (hex_text d, 2 * length d)) d, ctx)
      } else Some (None, zero256))"

definition SHA256_Data :: "byte list \<Rightarrow> bool \<Rightarrow> ((byte list \<times> nat) option \<times> SHA256_CTX) option" where
  "SHA256_Data data wanted = do {
     ctx \<leftarrow> SHA256_Update SHA256_Init data;
     SHA256_End ctx wanted
   }"

subsection \<open>SHA-512 and SHA-384\<close>

record SHA512_CTX =
  state512 :: "u64 list"
  bitcount512 :: "u64 \<times> u64"
  buffer512 :: "byte list"

definition SHA512_Init :: SHA512_CTX where
  "SHA512_Init = \<lparr>state512 = sha512_initial_hash_value, bitcount512 = (0, 0), buffer512 = replicate 128 0\<rparr>"

definition SHA512_Transform :: "SHA512_CTX \<Rightarrow> byte list option \<Rightarrow> SHA512_CTX" where
  "SHA512_Transform ctx data =
     (let (st, buf) = sha_transform alg512 (state512 ctx) (buffer512 ctx) data
      in ctx\<lparr>state512 := st, buffer512 := buf\<rparr>)"

definition SHA512_Transform_unrolled :: "SHA512_CTX \<Rightarrow> byte list option \<Rightarrow> SHA512_CTX" where
  "SHA512_Transform_unrolled ctx data =
     (let (st, buf) = sha_transform_unrolled alg512 (state512 ctx) (buffer512 ctx) data
      in ctx\<lparr>state512 := st, buffer512 := buf\<rparr>)"

definition usedspace512 :: "SHA512_CTX \<Rightarrow> nat" where
  "usedspace512 ctx = unat (drop_bit 3 (fst (bitcount512 ctx))) mod 128"

definition count512 :: "SHA512_CTX \<Rightarrow> nat \<Rightarrow> SHA512_CTX" where
  "count512 ctx n = ctx\<lparr>bitcount512 := ADDINC128 (bitcount512 ctx) (push_bit 3 (of_nat n))\<rparr>"

definition memcpy512 :: "SHA512_CTX \<Rightarrow> nat \<Rightarrow> byte list \<Rightarrow> SHA512_CTX option" where
  "memcpy512 ctx i d = do { b \<leftarrow> c_putn (buffer512 ctx) (int i) d; Some (ctx\<lparr>buffer512 := b\<rparr>) }"

function SHA512_blocks :: "SHA512_CTX \<Rightarrow> byte list \<Rightarrow> SHA512_CTX option" where
  "SHA512_blocks ctx data =
     (if length data \<ge> 128
      then SHA512_blocks (count512 (SHA512_Transform ctx (Some (take 128 data))) 128) (drop 128 data)
      else if length data > 0 then do {
        ctx \<leftarrow> memcpy512 ctx 0 data;
        Some (count512 ctx (length data))
      } else Some ctx)"
  by pat_completeness auto
termination
  by (relation "measure (\<lambda>(ctx, data). length data)") auto

declare SHA512_blocks.simps [simp del]

definition SHA512_Update :: "SHA512_CTX \<Rightarrow> byte list \<Rightarrow> SHA512_CTX option" where
  "SHA512_Update ctx data =
     (if data = [] then Some ctx
      else if usedspace512 ctx > 0 then
        (let freespace = 128 - usedspace512 ctx
         in if length data \<ge> freespace then do {
              c \<leftarrow> memcpy512 ctx (usedspace512 ctx) (take freespace data);
              SHA512_blocks (SHA512_Transform (count512 c freespace) None) (drop freespace data)
            } else do {
              c \<leftarrow> memcpy512 ctx (usedspace512 ctx) data;
              Some (count512 c (length data))
            })
      else SHA512_blocks ctx data)"

definition SHA512_Last :: "SHA512_CTX \<Rightarrow> SHA512_CTX option" where
  "SHA512_Last ctx = do {
     let used = usedspace512 ctx;
     let ctx = ctx\<lparr>bitcount512 := (REVERSE64 (fst (bitcount512 ctx)), REVERSE64 (snd (bitcount512 ctx)))\<rparr>;
     ctx \<leftarrow> (if used > 0 then do {
              ctx \<leftarrow> memcpy512 ctx used [0x80];
              let used = used + 1;
              if used \<le> 112 then memcpy512 ctx used (replicate (112 - used) 0)
              else do {
                ctx \<leftarrow> (if used < 128 then memcpy512 ctx used (replicate (128 - used) 0) else Some ctx);
                memcpy512 (SHA512_Transform ctx None) 0 (replicate (128 - 2) 0)
              }
            } else do {
              ctx \<leftarrow> memcpy512 ctx 0 (replicate 112 0);
              memcpy512 ctx 0 [0x80]
            });
     ctx \<leftarrow> memcpy512 ctx 112 (le_bytes (snd (bitcount512 ctx)) 8);
     ctx \<leftarrow> memcpy512 ctx 120 (le_bytes (fst (bitcount512 ctx)) 8);
     Some (SHA512_Transform ctx None)
   }"

definition zero512 :: SHA512_CTX where
  "zero512 = \<lparr>state512 = replicate 8 0, bitcount512 = (0, 0), buffer512 = replicate 128 0\<rparr>"

definition SHA512_Final :: "bool \<Rightarrow> SHA512_CTX \<Rightarrow> (byte list option \<times> SHA512_CTX) option" where
  "SHA512_Final wanted ctx =
     (if wanted then do {
        ctx \<leftarrow> SHA512_Last ctx;
        Some (Some (concat (map (\<lambda>j. le_bytes (REVERSE64 (state512 ctx ! j)) 8) [0..<8])), zero512)
      } else Some (None, zero512))"

definition SHA512_End :: "SHA512_CTX \<Rightarrow> bool \<Rightarrow> ((byte list \<times> nat) option \<times> SHA512_CTX) option" where
  "SHA512_End ctx wanted =
     (if wanted then do {
        (d, ctx) \<leftarrow> SHA512_Final True ctx;
        Some (map_option (\<lambda>d. (hex_text d, 2 * length d)) d, ctx)
      } else Some (None, zero512))"

definition SHA512_Data :: "byte list \<Rightarrow> bool \<Rightarrow> ((byte list \<times> nat) option \<times> SHA512_CTX) option" where
  "SHA512_Data data wanted = do {
     ctx \<leftarrow> SHA512_Update SHA512_Init data;
     SHA512_End ctx wanted
   }"

definition SHA384_Init :: SHA512_CTX where
  "SHA384_Init = \<lparr>state512 = sha384_initial_hash_value, bitcount512 = (0, 0), buffer512 = replicate 128 0\<rparr>"

definition SHA384_Update :: "SHA512_CTX \<Rightarrow> byte list \<Rightarrow> SHA512_CTX option" where
  "SHA384_Update ctx data = SHA512_Update ctx data"

definition SHA384_Final :: "bool \<Rightarrow> SHA512_CTX \<Rightarrow> (byte list option \<times> SHA512_CTX) option" where
  "SHA384_Final wanted ctx =
     (if wanted then do {
        ctx \<leftarrow> SHA512_Last ctx;
        Some (Some (concat (map (\<lambda>j. le_bytes (REVERSE64 (state512 ctx ! j)) 8) [0..<6])), zero512)
      } else Some (None, zero512))"

definition SHA384_End :: "SHA512_CTX \<Rightarrow> bool \<Rightarrow> ((byte list \<times> nat) option \<times> SHA512_CTX) option" where
  "SHA384_End ctx wanted =
     (if wanted then do {
        (d, ctx) \<leftarrow> SHA384_Final True ctx;
        Some (map_option (\<lambda>d. (hex_text d, 2 * length d)) d, ctx)
      } else Some (None, zero512))"

definition SHA384_Data :: "byte list \<Rightarrow> bool \<Rightarrow> ((byte list \<times> nat) option \<times> SHA512_CTX) option" where
  "SHA384_Data data wanted = do {
     ctx \<leftarrow> SHA384_Update SHA384_Init data;
     SHA384_End ctx wanted
   }"

end
