(* ===== verification/Sha2_Compress.thy ===== *)
theory Sha2_Compress
  imports Sha2
begin

text \<open>
  What the transforms of \<open>sha2.c\<close> compute. The reference is the schedule of all words of a
  block and the compression of FIPS 180-4; the rolled transform, with its schedule of sixteen
  words that may be the block itself, implements it (locale \<open>sha_family\<close>, interpreted for
  the two word sizes), and the unrolled transform is the rolled one.
\<close>

subsection \<open>The reference\<close>

definition be_word :: "byte list \<Rightarrow> 'w::len word" where
  "be_word bs = le_word_of (rev bs)"

definition block_word :: "byte list \<Rightarrow> nat \<Rightarrow> 'w::len word" where
  "block_word blk t = (let n = wbytes TYPE('w word) in be_word (take n (drop (n * t) blk)))"

function schedule :: "'w::len word sha_alg \<Rightarrow> byte list \<Rightarrow> nat \<Rightarrow> 'w word" where
  "schedule A blk t =
     (if t < 16 then block_word blk t
      else alg_sigma1 A (schedule A blk (t - 2)) + schedule A blk (t - 7) +
           alg_sigma0 A (schedule A blk (t - 15)) + schedule A blk (t - 16))"
  by pat_completeness auto
termination
  by (relation "measure (\<lambda>(A, blk, t). t)") auto

declare schedule.simps [simp del]

definition compress :: "'w::len word sha_alg \<Rightarrow> 'w word list \<Rightarrow> byte list \<Rightarrow> 'w word list" where
  "compress A st blk =
     add_regs st (foldl (\<lambda>r t. sha_step A (alg_K A ! t) (schedule A blk t) r) (regs_of st) [0..<alg_rounds A])"

subsection \<open>Words in memory\<close>

lemma le_word_of_bit:
  "bit (le_word_of bs :: 'w::len word) i \<longleftrightarrow> i < LENGTH('w) \<and> i < 8 * length bs \<and> bit (bs ! (i div 8)) (i mod 8)"
proof (induction bs arbitrary: i)
  case (Cons b bs)
  show ?case
  proof (cases "i < 8")
    case True
    then show ?thesis using Cons by (auto simp: bit_simps)
  next
    case False
    then have i: "i div 8 = Suc ((i - 8) div 8)" "i mod 8 = (i - 8) mod 8" by (simp_all add: le_div_geq le_mod_geq)
    have "\<not> bit b i" using False bit_imp_le_length[of b i] by auto
    then show ?thesis using Cons[of "i - 8"] False i by (auto simp: bit_simps)
  qed
qed simp

lemma le_bytes_nth: "i < n \<Longrightarrow> le_bytes w n ! i = ucast (drop_bit (8 * i) w)"
proof (induction n arbitrary: w i)
  case (Suc n)
  show ?case
  proof (cases i)
    case 0
    have "ucast (w AND 0xff) = (ucast w :: byte)" by (rule bit_word_eqI) (auto simp: bit_simps bit_ff dest: bit_imp_le_length)
    then show ?thesis by (simp add: 0)
  next
    case (Suc k)
    then show ?thesis using Suc.IH[of k "drop_bit 8 w"] Suc.prems by (simp add: add.commute)
  qed
qed simp

lemma le_word_of_le_bytes:
  assumes "8 * n = LENGTH('w::len)"
  shows "le_word_of (le_bytes (w :: 'w word) n) = w"
proof (rule bit_word_eqI)
  fix i assume i: "i < LENGTH('w)"
  then have "i div 8 < n" using assms by (metis less_mult_imp_div_less mult.commute)
  then show "bit (le_word_of (le_bytes w n) :: 'w word) i = bit w i"
    using i assms by (simp add: le_word_of_bit le_bytes_nth bit_simps)
qed

lemma splice_at:
  "k + length v \<le> length m \<Longrightarrow> take (length v) (drop k (take k m @ v @ drop (k + length v) m)) = v"
  "k + length v \<le> length m \<Longrightarrow> length (take k m @ v @ drop (k + length v) m) = length m"
  "k + length v \<le> length m \<Longrightarrow> l + p \<le> k \<Longrightarrow>
   take p (drop l (take k m @ v @ drop (k + length v) m)) = take p (drop l m)"
  "k + length v \<le> length m \<Longrightarrow> k + length v \<le> l \<Longrightarrow>
   drop l (take k m @ v @ drop (k + length v) m) = drop l m"
proof -
  assume k: "k + length v \<le> length m"
  then have m: "min (length m) k = k" by simp
  then show "take (length v) (drop k (take k m @ v @ drop (k + length v) m)) = v"
    "length (take k m @ v @ drop (k + length v) m) = length m"
    "k + length v \<le> l \<Longrightarrow> drop l (take k m @ v @ drop (k + length v) m) = drop l m"
    using k by simp_all
  assume "l + p \<le> k"
  then have "take (p + l) (take k m @ v @ drop (k + length v) m) = take (p + l) m" using k by (simp add: min_def)
  then show "take p (drop l (take k m @ v @ drop (k + length v) m)) = take p (drop l m)" by (simp only: take_drop)
qed

lemma word_at_put_word:
  fixes w :: "'w::len word"
  assumes n: "8 * n = LENGTH('w)" and len: "length m = 16 * n" and ij: "i < 16" "j < 16"
  shows "word_at (put_word m i w) j = (if i = j then w else word_at m j :: 'w word)"
    "length (put_word m i w) = length m"
proof -
  have wb: "LENGTH('w) div 8 = n" using n by (metis nonzero_mult_div_cancel_left zero_neq_numeral)
  let ?v = "le_bytes w n"
  have in1: "n * i + length ?v \<le> length m" using ij(1) mult_le_mono1[of "Suc i" 16 n] len by (simp add: mult.commute)
  have pw: "put_word m i w = take (n * i) m @ ?v @ drop (n * i + length ?v) m"
    by (simp add: put_word_def wb)
  note sp = splice_at[OF in1, folded pw]
  show "length (put_word m i w) = length m" by (rule sp(2))
  show "word_at (put_word m i w) j = (if i = j then w else word_at m j)"
  proof (cases "i = j")
    case True
    have "take n (drop (n * j) (put_word m i w)) = ?v" using sp(1) True by simp
    then show ?thesis using True le_word_of_le_bytes[OF n, of w] by (simp add: word_at_def wb)
  next
    case False
    have "take n (drop (n * j) (put_word m i w)) = take n (drop (n * j) m)"
    proof (cases "j < i")
      case True
      then have "n * j + n \<le> n * i" using mult_le_mono1[of "Suc j" i n] by (simp add: mult.commute)
      then show ?thesis by (rule sp(3))
    next
      case F: False
      with False have "n * i + length ?v \<le> n * j" using mult_le_mono1[of "Suc i" j n] by (simp add: mult.commute)
      from sp(4)[OF this] show ?thesis by simp
    qed
    then show ?thesis using False by (simp add: word_at_def wb)
  qed
qed

lemma and_15: "(j :: nat) AND 0x0f = j mod 16"
proof -
  have "(15 :: nat) = mask 4" by (simp add: mask_eq_exp_minus_1)
  then show ?thesis by (simp only: take_bit_eq_mask[symmetric] take_bit_eq_mod) simp
qed

lemma load_round_pair:
  "load_round A data (buf, r) j =
    (load_word A data buf j, sha_step A (alg_K A ! j) (word_at (load_word A data buf j) j) r)"
  by (simp add: load_round_def Let_def)

lemma expand_round_pair:
  "expand_round A (buf, r) j =
    (put_word buf (j AND 0x0f) (expand_word A buf j), sha_step A (alg_K A ! j) (expand_word A buf j) r)"
  by (simp add: expand_round_def Let_def)

text \<open>What the compression needs of the two families.\<close>

locale sha_family =
  fixes A :: "'w::len word sha_alg" and n :: nat
  assumes word_bytes: "8 * n = LENGTH('w)"
    and reverse: "length bs = n \<Longrightarrow> alg_reverse A (le_word_of bs) = le_word_of (rev bs)"
    and rounds: "16 \<le> alg_rounds A" "8 dvd alg_rounds A"
begin

lemma wb: "LENGTH('w) div 8 = n"
  using word_bytes by (metis nonzero_mult_div_cancel_left zero_neq_numeral)

lemma reverse_word_at:
  assumes "length m = 16 * n" "j < 16"
  shows "alg_reverse A (word_at m j) = block_word m j"
proof -
  have "n * j + n \<le> length m" using assms mult_le_mono1[of "Suc j" 16 n] by (simp add: mult.commute)
  then have "length (take n (drop (n * j) m)) = n" by simp
  then show ?thesis by (simp add: word_at_def block_word_def wb be_word_def reverse)
qed

definition spec_rounds :: "byte list \<Rightarrow> 'w regs \<Rightarrow> nat list \<Rightarrow> 'w regs" where
  "spec_rounds blk r ts = foldl (\<lambda>r t. sha_step A (alg_K A ! t) (schedule A blk t) r) r ts"

lemma spec_rounds_snoc:
  "spec_rounds blk r (ts @ [t]) = sha_step A (alg_K A ! t) (schedule A blk t) (spec_rounds blk r ts)"
  by (simp add: spec_rounds_def)

lemma load_rounds:
  assumes "length buf = 16 * n" "length blk = 16 * n" "data = None \<and> blk = buf \<or> data = Some blk" "k \<le> 16"
  shows "\<exists>b. foldl (load_round A data) (buf, r) [0..<k] = (b, spec_rounds blk r [0..<k]) \<and> length b = 16 * n \<and>
    (\<forall>j < 16. word_at b j = (if j < k then schedule A blk j else word_at buf j))"
  using assms(4)
proof (induction k)
  case 0
  then show ?case using assms(1) by (simp add: spec_rounds_def)
next
  case (Suc k)
  then have k: "k < 16" by simp
  from Suc obtain b where b: "foldl (load_round A data) (buf, r) [0..<k] = (b, spec_rounds blk r [0..<k])"
    "length b = 16 * n" "\<forall>j < 16. word_at b j = (if j < k then schedule A blk j else word_at buf j)" by auto
  have "word_at (case data of None \<Rightarrow> b | Some d \<Rightarrow> d) k = (word_at blk k :: 'w word)"
    using assms(3) b(3) k by (auto split: option.split)
  then have l: "load_word A data b k = put_word b k (schedule A blk k)"
    using reverse_word_at[OF assms(2) k] k by (simp add: load_word_def schedule.simps)
  note put = word_at_put_word[OF word_bytes b(2) k, where w = "schedule A blk k"]
  have "foldl (load_round A data) (buf, r) [0..<Suc k] =
      (put_word b k (schedule A blk k), spec_rounds blk r [0..<Suc k])"
    using put(1)[OF k] by (simp add: b(1) load_round_pair l spec_rounds_snoc)
  moreover have "\<forall>j < 16. word_at (put_word b k (schedule A blk k)) j =
      (if j < Suc k then schedule A blk j else word_at buf j)"
    using put(1) b(3) by (auto simp: less_Suc_eq)
  ultimately show ?case using put(2)[of 0] b(2) by auto
qed

lemma expand_rounds:
  assumes "length b0 = 16 * n" "\<forall>j < 16. word_at b0 j = schedule A blk j"
  shows "\<exists>b. foldl (expand_round A) (b0, r) [16..<16 + k] = (b, spec_rounds blk r [16..<16 + k]) \<and> length b = 16 * n \<and>
    (\<forall>t. k \<le> t \<and> t < k + 16 \<longrightarrow> word_at b (t mod 16) = schedule A blk t)"
proof (induction k)
  case 0
  then show ?case using assms by (simp add: spec_rounds_def)
next
  case (Suc k)
  then obtain b where b: "foldl (expand_round A) (b0, r) [16..<16 + k] = (b, spec_rounds blk r [16..<16 + k])"
    "length b = 16 * n" and win: "\<And>t. k \<le> t \<Longrightarrow> t < k + 16 \<Longrightarrow> word_at b (t mod 16) = schedule A blk t" by auto
  let ?t = "16 + k"
  have m: "(16 + k + i) mod 16 = (k + i) mod 16" for i by (simp add: add.assoc)
  have f: "word_at b (?t mod 16) = schedule A blk k" "word_at b ((?t + 1) mod 16) = schedule A blk (k + 1)"
    "word_at b ((?t + 9) mod 16) = schedule A blk (k + 9)" "word_at b ((?t + 14) mod 16) = schedule A blk (k + 14)"
    using win[of k] win[of "k + 1"] win[of "k + 9"] win[of "k + 14"] unfolding m by simp_all
  have e: "expand_word A b ?t = schedule A blk ?t"
    unfolding expand_word_def and_15 Let_def f by (subst schedule.simps[of A blk ?t]) (simp add: add_ac)
  note put = word_at_put_word[OF word_bytes b(2), of "?t mod 16" _ "schedule A blk ?t"]
  have "foldl (expand_round A) (b0, r) [16..<16 + Suc k] =
      (put_word b (?t mod 16) (schedule A blk ?t), spec_rounds blk r [16..<16 + Suc k])"
  proof -
    have u: "[16..<16 + Suc k] = [16..<?t] @ [?t]" by (simp only: add_Suc_right upt_Suc le_add1 if_True)
    show ?thesis unfolding u spec_rounds_snoc foldl_append b(1) foldl.simps expand_round_pair e and_15 by (rule refl)
  qed
  moreover have "word_at (put_word b (?t mod 16) (schedule A blk ?t)) (t mod 16) = schedule A blk t"
    if "Suc k \<le> t" "t < Suc k + 16" for t
  proof (cases "t = ?t")
    case True
    then show ?thesis using put(1)[of "t mod 16"] by simp
  next
    case False
    then have t: "k \<le> t" "t < k + 16" "k < t" using that by auto
    have "t mod 16 \<noteq> ?t mod 16"
    proof
      assume "t mod 16 = ?t mod 16"
      then have "t mod 16 = k mod 16" by simp
      then have "16 dvd t - k" using t by (simp add: mod_eq_dvd_iff_nat)
      then show False using t by (auto dest!: dvd_imp_le)
    qed
    then show ?thesis using put(1)[of "t mod 16"] win[OF t(1,2)] by simp
  qed
  ultimately show ?case using put(2)[of 0] b(2) by auto
qed

lemma transform_compress:
  assumes "length buf = 16 * n" "length blk = 16 * n" "data = None \<and> blk = buf \<or> data = Some blk"
  shows "\<exists>b. sha_transform A st buf data = (compress A st blk, b) \<and> length b = 16 * n"
proof -
  obtain b where b: "foldl (load_round A data) (buf, regs_of st) [0..<16] = (b, spec_rounds blk (regs_of st) [0..<16])"
    "length b = 16 * n" "\<forall>j < 16. word_at b j = schedule A blk j"
    using load_rounds[OF assms, of 16 "regs_of st"] by (auto simp: spec_rounds_def)
  obtain k where k: "alg_rounds A = 16 + k" using rounds(1) le_Suc_ex by blast
  obtain b' where b': "foldl (expand_round A) (b, spec_rounds blk (regs_of st) [0..<16]) [16..<16 + k] =
      (b', spec_rounds blk (spec_rounds blk (regs_of st) [0..<16]) [16..<16 + k])" "length b' = 16 * n"
    using expand_rounds[OF b(2,3), of "spec_rounds blk (regs_of st) [0..<16]" k] by auto
  have "[0..<16] @ [16..<16 + k] = [0..<16 + k]" by (metis le_add1 upt_add_eq_append zero_le)
  then have "spec_rounds blk (spec_rounds blk (regs_of st) [0..<16]) [16..<16 + k] = spec_rounds blk (regs_of st) [0..<16 + k]"
    by (simp only: spec_rounds_def foldl_append[symmetric])
  then show ?thesis using b(1) b' unfolding sha_transform_def compress_def k by (simp add: spec_rounds_def del: upt_rec_numeral)
qed

end

text \<open>Unrolled, the registers move on by renaming instead of by copying.\<close>

definition rotate_regs :: "'w::len regs \<Rightarrow> 'w regs" where
  "rotate_regs = (\<lambda>(a, b, c, d, e, f, g, h). (h, a, b, c, d, e, f, g))"

lemma sha_step_unrolled: "sha_step A k w r = rotate_regs (unrolled_round A k w r)"
  by (simp add: sha_step_def unrolled_round_def rotate_regs_def Let_def add.assoc split: prod.split)

lemma eight_rounds_rolled:
  fixes rnd :: "nat \<Rightarrow> byte list \<times> 'w::len regs \<Rightarrow> byte list \<times> 'w regs"
    and roll :: "byte list \<times> 'w regs \<Rightarrow> nat \<Rightarrow> byte list \<times> 'w regs"
  assumes roll: "\<And>j m r. roll (m, r) j = (let (m, r) = rnd j (m, r) in (m, rotate_regs r))"
  shows "eight_rounds rnd (m0, r0) j = foldl roll (m0, r0) [j, j + 1, j + 2, j + 3, j + 4, j + 5, j + 6, j + 7]"
proof -
  have roll: "roll (m, r) j = (fst (rnd j (m, r)), rotate_regs (snd (rnd j (m, r))))" for j m r
    by (simp add: roll split_beta Let_def)
  obtain a0 b0 c0 d0 e0 f0 g0 h0 where r0: "r0 = (a0, b0, c0, d0, e0, f0, g0, h0)" by (cases r0) auto
  obtain m1 a1 b1 c1 d1 e1 f1 g1 h1 where x1: "rnd j (m0, (a0, b0, c0, d0, e0, f0, g0, h0)) = (m1, a1, b1, c1, d1, e1, f1, g1, h1)"
    by (cases "rnd j (m0, (a0, b0, c0, d0, e0, f0, g0, h0))") auto
  have y1: "roll (m0, (a0, b0, c0, d0, e0, f0, g0, h0)) j = (m1, h1, a1, b1, c1, d1, e1, f1, g1)"
    by (simp only: roll x1 fst_conv snd_conv rotate_regs_def prod.case)
  obtain m2 h2 a2 b2 c2 d2 e2 f2 g2 where x2: "rnd (j + 1) (m1, (h1, a1, b1, c1, d1, e1, f1, g1)) = (m2, h2, a2, b2, c2, d2, e2, f2, g2)"
    by (cases "rnd (j + 1) (m1, (h1, a1, b1, c1, d1, e1, f1, g1))") auto
  have y2: "roll (m1, (h1, a1, b1, c1, d1, e1, f1, g1)) (j + 1) = (m2, g2, h2, a2, b2, c2, d2, e2, f2)"
    by (simp only: roll x2 fst_conv snd_conv rotate_regs_def prod.case)
  obtain m3 g3 h3 a3 b3 c3 d3 e3 f3 where x3: "rnd (j + 2) (m2, (g2, h2, a2, b2, c2, d2, e2, f2)) = (m3, g3, h3, a3, b3, c3, d3, e3, f3)"
    by (cases "rnd (j + 2) (m2, (g2, h2, a2, b2, c2, d2, e2, f2))") auto
  have y3: "roll (m2, (g2, h2, a2, b2, c2, d2, e2, f2)) (j + 2) = (m3, f3, g3, h3, a3, b3, c3, d3, e3)"
    by (simp only: roll x3 fst_conv snd_conv rotate_regs_def prod.case)
  obtain m4 f4 g4 h4 a4 b4 c4 d4 e4 where x4: "rnd (j + 3) (m3, (f3, g3, h3, a3, b3, c3, d3, e3)) = (m4, f4, g4, h4, a4, b4, c4, d4, e4)"
    by (cases "rnd (j + 3) (m3, (f3, g3, h3, a3, b3, c3, d3, e3))") auto
  have y4: "roll (m3, (f3, g3, h3, a3, b3, c3, d3, e3)) (j + 3) = (m4, e4, f4, g4, h4, a4, b4, c4, d4)"
    by (simp only: roll x4 fst_conv snd_conv rotate_regs_def prod.case)
  obtain m5 e5 f5 g5 h5 a5 b5 c5 d5 where x5: "rnd (j + 4) (m4, (e4, f4, g4, h4, a4, b4, c4, d4)) = (m5, e5, f5, g5, h5, a5, b5, c5, d5)"
    by (cases "rnd (j + 4) (m4, (e4, f4, g4, h4, a4, b4, c4, d4))") auto
  have y5: "roll (m4, (e4, f4, g4, h4, a4, b4, c4, d4)) (j + 4) = (m5, d5, e5, f5, g5, h5, a5, b5, c5)"
    by (simp only: roll x5 fst_conv snd_conv rotate_regs_def prod.case)
  obtain m6 d6 e6 f6 g6 h6 a6 b6 c6 where x6: "rnd (j + 5) (m5, (d5, e5, f5, g5, h5, a5, b5, c5)) = (m6, d6, e6, f6, g6, h6, a6, b6, c6)"
    by (cases "rnd (j + 5) (m5, (d5, e5, f5, g5, h5, a5, b5, c5))") auto
  have y6: "roll (m5, (d5, e5, f5, g5, h5, a5, b5, c5)) (j + 5) = (m6, c6, d6, e6, f6, g6, h6, a6, b6)"
    by (simp only: roll x6 fst_conv snd_conv rotate_regs_def prod.case)
  obtain m7 c7 d7 e7 f7 g7 h7 a7 b7 where x7: "rnd (j + 6) (m6, (c6, d6, e6, f6, g6, h6, a6, b6)) = (m7, c7, d7, e7, f7, g7, h7, a7, b7)"
    by (cases "rnd (j + 6) (m6, (c6, d6, e6, f6, g6, h6, a6, b6))") auto
  have y7: "roll (m6, (c6, d6, e6, f6, g6, h6, a6, b6)) (j + 6) = (m7, b7, c7, d7, e7, f7, g7, h7, a7)"
    by (simp only: roll x7 fst_conv snd_conv rotate_regs_def prod.case)
  obtain m8 b8 c8 d8 e8 f8 g8 h8 a8 where x8: "rnd (j + 7) (m7, (b7, c7, d7, e7, f7, g7, h7, a7)) = (m8, b8, c8, d8, e8, f8, g8, h8, a8)"
    by (cases "rnd (j + 7) (m7, (b7, c7, d7, e7, f7, g7, h7, a7))") auto
  have y8: "roll (m7, (b7, c7, d7, e7, f7, g7, h7, a7)) (j + 7) = (m8, a8, b8, c8, d8, e8, f8, g8, h8)"
    by (simp only: roll x8 fst_conv snd_conv rotate_regs_def prod.case)
  show ?thesis
    unfolding r0 eight_rounds_def Let_def prod.case x1 x2 x3 x4 x5 x6 x7 x8 foldl.simps y1 y2 y3 y4 y5 y6 y7 y8
    by (rule refl)
qed

lemma load_round_unrolled: "load_round A data (m, r) j = (let (m, r) = ROUND_0_TO_15 A data j (m, r) in (m, rotate_regs r))"
  by (simp add: load_round_pair ROUND_0_TO_15_def sha_step_unrolled Let_def)

lemma expand_round_unrolled: "expand_round A (m, r) j = (let (m, r) = ROUND A j (m, r) in (m, rotate_regs r))"
  by (simp add: expand_round_pair ROUND_def sha_step_unrolled Let_def)

lemma eight_rounds_foldl:
  fixes rnd :: "nat \<Rightarrow> byte list \<times> 'w::len regs \<Rightarrow> byte list \<times> 'w regs"
    and roll :: "byte list \<times> 'w regs \<Rightarrow> nat \<Rightarrow> byte list \<times> 'w regs"
  assumes "\<And>j m r. roll (m, r) j = (let (m, r) = rnd j (m, r) in (m, rotate_regs r))"
  shows "foldl (eight_rounds rnd) x (map (\<lambda>i. s + 8 * i) [0..<q]) = foldl roll x [s..<s + 8 * q]"
proof (induction q arbitrary: x)
  case (Suc q)
  obtain m r where x: "foldl roll x [s..<s + 8 * q] = (m, r)" by (rule prod.exhaust)
  let ?j = "s + 8 * q"
  have "[s..<s + 8 * Suc q] = [s..<?j] @ [?j, ?j + 1, ?j + 2, ?j + 3, ?j + 4, ?j + 5, ?j + 6, ?j + 7]"
  proof -
    have "s + 8 * Suc q = ?j + 8" by simp
    moreover have "[s..<?j + 8] = [s..<?j] @ [?j..<?j + 8]" by (rule upt_add_eq_append) simp
    moreover have "[?j..<?j + 8] = [?j, ?j + 1, ?j + 2, ?j + 3, ?j + 4, ?j + 5, ?j + 6, ?j + 7]"
      by (simp add: upt_conv_Cons eval_nat_numeral)
    ultimately show ?thesis by (simp only:)
  qed
  then show ?case using Suc eight_rounds_rolled[of roll rnd m r ?j] assms by (simp add: x)
qed simp

lemma sha_transform_unrolled_eq:
  assumes "16 \<le> alg_rounds A" "8 dvd alg_rounds A"
  shows "sha_transform_unrolled A st buf data = sha_transform A st buf data"
proof -
  obtain q where "alg_rounds A = 8 * q" using assms(2) by (rule dvdE)
  then have k: "alg_rounds A = 16 + 8 * ((alg_rounds A - 16) div 8)" using assms(1) by auto
  have m: "map (\<lambda>i. 0 + 8 * i) [0..<2] = [0, 8 :: nat]" "0 + 8 * 2 = (16 :: nat)" by (simp_all add: upt_rec)
  have "foldl (eight_rounds (ROUND_0_TO_15 A data)) x [0, 8] = foldl (load_round A data) x [0..<16]" for x
    by (rule eight_rounds_foldl[of "load_round A data" "ROUND_0_TO_15 A data" x 0 2, unfolded m, OF load_round_unrolled])
  moreover have "foldl (eight_rounds (ROUND A)) x (map (\<lambda>i. 16 + 8 * i) [0..<(alg_rounds A - 16) div 8]) =
      foldl (expand_round A) x [16..<alg_rounds A]" for x
    by (rule eight_rounds_foldl[of "expand_round A" "ROUND A" x 16 "(alg_rounds A - 16) div 8",
        folded k, OF expand_round_unrolled])
  ultimately show ?thesis by (simp only: sha_transform_unrolled_def sha_transform_def)
qed

lemma upt_32: "[0..<32] = [0, 1, 2, 3, 4, 5, 6, 7, 8, 9, 10, 11, 12, 13, 14, 15, 16, 17, 18, 19, 20, 21, 22, 23, 24, 25, 26, 27, 28, 29, 30, 31 :: nat]"
  by (simp add: upt_rec)

lemma upt_64: "[0..<64] = [0, 1, 2, 3, 4, 5, 6, 7, 8, 9, 10, 11, 12, 13, 14, 15, 16, 17, 18, 19, 20, 21, 22, 23, 24, 25, 26, 27, 28, 29, 30, 31, 32, 33, 34, 35, 36, 37, 38, 39, 40, 41, 42, 43, 44, 45, 46, 47, 48, 49, 50, 51, 52, 53, 54, 55, 56, 57, 58, 59, 60, 61, 62, 63 :: nat]"
  by (simp add: upt_rec)

lemma REVERSE32_bit: "i < 32 \<Longrightarrow> bit (REVERSE32 w) i = bit w (8 * (3 - i div 8) + i mod 8)"
proof -
  have nb: "32 \<le> k \<Longrightarrow> \<not> bit w k" for k using bit_imp_le_length[of w k] by auto
  have "list_all (\<lambda>i. bit (REVERSE32 w) i = bit w (8 * (3 - i div 8) + i mod 8)) [0..<32]"
    unfolding upt_32 list.pred_inject by (simp add: REVERSE32_def Let_def bit_simps nb) (simp add: numeral_2_eq_2)
  then show "i < 32 \<Longrightarrow> ?thesis" by (simp add: list_all_iff del: upt_rec_numeral)
qed

lemma REVERSE64_bit: "i < 64 \<Longrightarrow> bit (REVERSE64 w) i = bit w (8 * (7 - i div 8) + i mod 8)"
proof -
  have nb: "64 \<le> k \<Longrightarrow> \<not> bit w k" for k using bit_imp_le_length[of w k] by auto
  have "list_all (\<lambda>i. bit (REVERSE64 w) i = bit w (8 * (7 - i div 8) + i mod 8)) [0..<64]"
    unfolding upt_64 list.pred_inject by (simp add: REVERSE64_def Let_def bit_simps nb) (simp add: numeral_2_eq_2)
  then show "i < 64 \<Longrightarrow> ?thesis" by (simp add: list_all_iff del: upt_rec_numeral)
qed

lemma rev_le_word_of_bit:
  assumes "i < 8 * length bs" "i < LENGTH('w::len)"
  shows "bit (le_word_of (rev bs) :: 'w word) i \<longleftrightarrow> bit (bs ! (length bs - Suc (i div 8))) (i mod 8)"
proof -
  have "i div 8 < length bs" using assms by (metis less_mult_imp_div_less mult.commute)
  then show ?thesis using assms by (simp add: le_word_of_bit rev_nth)
qed

lemma REVERSE32_rev: "length bs = 4 \<Longrightarrow> REVERSE32 (le_word_of bs) = le_word_of (rev bs)"
proof (rule bit_word_eqI)
  fix i assume l: "length bs = 4" and "i < LENGTH(32)"
  then have i: "i < 32" by simp
  define q r where "q = i div 8" and "r = i mod 8"
  have qr: "q < 4" "r < 8" using i by (simp_all add: q_def r_def less_mult_imp_div_less)
  have x: "8 * (3 - q) + r < 32" "(8 * (3 - q) + r) div 8 = 3 - q" "(8 * (3 - q) + r) mod 8 = r" using qr by auto
  show "bit (REVERSE32 (le_word_of bs)) i = bit (le_word_of (rev bs) :: u32) i"
    using i l x rev_le_word_of_bit[of i bs, where 'w = 32]
    by (simp add: REVERSE32_bit le_word_of_bit q_def[symmetric] r_def[symmetric])
qed

lemma REVERSE64_rev: "length bs = 8 \<Longrightarrow> REVERSE64 (le_word_of bs) = le_word_of (rev bs)"
proof (rule bit_word_eqI)
  fix i assume l: "length bs = 8" and "i < LENGTH(64)"
  then have i: "i < 64" by simp
  define q r where "q = i div 8" and "r = i mod 8"
  have qr: "q < 8" "r < 8" using i by (simp_all add: q_def r_def less_mult_imp_div_less)
  have x: "8 * (7 - q) + r < 64" "(8 * (7 - q) + r) div 8 = 7 - q" "(8 * (7 - q) + r) mod 8 = r" using qr by auto
  show "bit (REVERSE64 (le_word_of bs)) i = bit (le_word_of (rev bs) :: u64) i"
    using i l x rev_le_word_of_bit[of i bs, where 'w = 64]
    by (simp add: REVERSE64_bit le_word_of_bit q_def[symmetric] r_def[symmetric])
qed

interpretation f256: sha_family alg256 4
  by unfold_locales (simp_all add: alg256_def REVERSE32_rev)

interpretation f512: sha_family alg512 8
  by unfold_locales (simp_all add: alg512_def REVERSE64_rev)

subsection \<open>The transforms of the two families\<close>



end
