(* ===== verification/Sha2_Correct.thy ===== *)
theory Sha2_Correct
  imports Sha2_Compress
begin

text \<open>
  What the hash functions of \<open>sha2.c\<close> compute. The locale \<open>hash_context\<close> is the buffering
  that the SHA-256 and the SHA-512 contexts share, interpreted for both; a context has absorbed
  a message, and \<open>Update\<close> extends it. The digests are those of FIPS 180-4 for every way of
  cutting the message into pieces.
\<close>

subsection \<open>Hashing a message piece by piece\<close>

text \<open>The full blocks of a message.\<close>

fun full_blocks :: "nat \<Rightarrow> byte list \<Rightarrow> byte list list" where
  "full_blocks B m = (if 0 < B \<and> B \<le> length m then take B m # full_blocks B (drop B m) else [])"

declare full_blocks.simps [simp del]

lemma full_blocks_short: "length m < B \<Longrightarrow> full_blocks B m = []"
  by (simp add: full_blocks.simps)

lemma full_blocks_one: "0 < B \<Longrightarrow> length b = B \<Longrightarrow> full_blocks B (b @ m) = b # full_blocks B m"
  by (subst full_blocks.simps) simp

lemma full_blocks_append:
  assumes "0 < B"
  shows "full_blocks B (m @ d) = full_blocks B m @ full_blocks B (drop (B * (length m div B)) m @ d)"
  using assms
proof (induction B m rule: full_blocks.induct)
  case (1 B m)
  show ?case
  proof (cases "B \<le> length m")
    case True
    then have "m @ d = take B m @ (drop B m @ d)" "length (take B m) = B" by simp_all
    then have "full_blocks B (m @ d) = take B m # full_blocks B (drop B m @ d)" using full_blocks_one[OF 1(2)] by metis
    moreover have "full_blocks B m = take B m # full_blocks B (drop B m)" using True 1(2) by (simp add: full_blocks.simps[of B m])
    moreover have "B * (length m div B) = B + B * ((length m - B) div B)" using True 1(2) by (simp add: le_div_geq)
    ultimately show ?thesis using 1 True by (simp add: add.commute)
  qed (simp add: full_blocks_short)
qed

lemma full_blocks_rest: "0 < B \<Longrightarrow> length (drop (B * (length m div B)) m) = length m mod B"
  by (simp add: minus_mult_div_eq_mod)

text \<open>The contract of the operations on a context: a compression function, a count of bits
  modulo \<open>M\<close>, and a buffer of one block.\<close>

locale hash_context =
  fixes B M :: nat
    and st :: "'c \<Rightarrow> 's" and ctr :: "'c \<Rightarrow> 'k" and val :: "'k \<Rightarrow> nat" and buf :: "'c \<Rightarrow> byte list"
    and comp :: "'s \<Rightarrow> byte list \<Rightarrow> 's"
    and used :: "'c \<Rightarrow> nat" and add :: "'c \<Rightarrow> nat \<Rightarrow> 'c" and put :: "'c \<Rightarrow> nat \<Rightarrow> byte list \<Rightarrow> 'c option"
    and trans :: "'c \<Rightarrow> byte list option \<Rightarrow> 'c"
    and blocks update :: "'c \<Rightarrow> byte list \<Rightarrow> 'c option"
  assumes B: "0 < B" "8 * B dvd M"
    and used: "used c = val (ctr c) div 8 mod B"
    and add: "n \<le> B \<Longrightarrow> val (ctr (add c n)) = (val (ctr c) + 8 * n) mod M" "st (add c n) = st c" "buf (add c n) = buf c"
    and put: "length (buf c) = B \<Longrightarrow> i + length d \<le> B \<Longrightarrow>
      \<exists>c'. put c i d = Some c' \<and> buf c' = take i (buf c) @ d @ drop (i + length d) (buf c) \<and> st c' = st c \<and> ctr c' = ctr c"
    and trans: "length (buf c) = B \<Longrightarrow> length blk = B \<Longrightarrow> src = None \<and> blk = buf c \<or> src = Some blk \<Longrightarrow>
      st (trans c src) = comp (st c) blk \<and> length (buf (trans c src)) = B \<and> ctr (trans c src) = ctr c"
    and blocks: "blocks c data =
      (if length data \<ge> B then blocks (add (trans c (Some (take B data))) B) (drop B data)
       else if length data > 0 then do { c \<leftarrow> put c 0 data; Some (add c (length data)) } else Some c)"
    and update: "update c data =
      (if data = [] then Some c
       else if used c > 0 then
         (let free = B - used c
          in if length data \<ge> free then do {
               c' \<leftarrow> put c (used c) (take free data);
               blocks (trans (add c' free) None) (drop free data)
             } else do { c' \<leftarrow> put c (used c) data; Some (add c' (length data)) })
       else blocks c data)"
begin

abbreviation count :: "'c \<Rightarrow> nat" where
  "count c \<equiv> val (ctr c)"

text \<open>A context in which the message \<open>m\<close> has been absorbed from the state \<open>s\<close>.\<close>

definition absorbed :: "'s \<Rightarrow> 'c \<Rightarrow> byte list \<Rightarrow> bool" where
  "absorbed s c m \<longleftrightarrow> length (buf c) = B \<and> st c = foldl comp s (full_blocks B m) \<and> count c = 8 * length m mod M \<and>
     take (length m mod B) (buf c) = drop (B * (length m div B)) m"

lemma count_used: "count c = 8 * n mod M \<Longrightarrow> used c = n mod B"
proof -
  assume c: "count c = 8 * n mod M"
  obtain k where k: "M = 8 * B * k" using B(2) by (rule dvdE)
  have "8 * n mod M = 8 * (n mod (B * k))" unfolding k by (simp add: mult.assoc mod_mult_mult1)
  then show ?thesis using c by (simp add: used mod_mod_cancel)
qed

lemma absorbed_rest: "length (drop (B * (length m div B)) m) = length m mod B"
  by (rule full_blocks_rest[OF B(1)])

lemma mod_count: "n \<le> B \<Longrightarrow> count c = 8 * k mod M \<Longrightarrow> count (add c n) = 8 * (k + n) mod M"
  by (simp add: add mod_add_left_eq distrib_left)

lemma absorb_save:
  assumes "absorbed s c m" "length m mod B + length d < B"
  shows "\<exists>c'. do { c' \<leftarrow> put c (length m mod B) d; Some (add c' (length d)) } = Some c' \<and> absorbed s c' (m @ d)"
proof -
  define q u where "q = length m div B" and "u = length m mod B"
  let ?r = "drop (B * q) m"
  have m: "length m = B * q + u" by (simp add: q_def u_def)
  have lr: "length ?r = u" using absorbed_rest by (simp add: q_def u_def)
  obtain c' where c': "put c u d = Some c'" "buf c' = take u (buf c) @ d @ drop (u + length d) (buf c)"
    "st c' = st c" "ctr c' = ctr c"
    using put[of c u d] assms by (auto simp: absorbed_def u_def)
  have "length (m @ d) = B * q + (u + length d)" using m by simp
  moreover have "u + length d < B" using assms(2) by (simp add: u_def)
  ultimately have md: "length (m @ d) div B = q" "length (m @ d) mod B = u + length d" by (simp_all add: add.assoc)
  have "full_blocks B (m @ d) = full_blocks B m"
    using full_blocks_append[OF B(1), of m d] full_blocks_short[of "?r @ d" B] lr assms(2) by (simp add: q_def u_def)
  moreover have "take u (buf c) = ?r" using assms(1) by (simp add: absorbed_def q_def u_def)
  moreover have "drop (B * q) (m @ d) = ?r @ d" using m by simp
  moreover have "count (add c' (length d)) = 8 * length (m @ d) mod M"
    using mod_count[of "length d" c' "length m"] assms c'(4) by (simp add: absorbed_def)
  ultimately have "absorbed s (add c' (length d)) (m @ d)"
    using assms c' lr md by (simp add: absorbed_def add u_def[symmetric])
  then show ?thesis using c'(1) by (simp add: u_def[symmetric])
qed

lemma absorb_block:
  assumes "absorbed s c m" "length m mod B = 0" "length d = B"
  shows "absorbed s (add (trans c (Some d)) B) (m @ d)"
proof -
  have l: "length (buf c) = B" using assms(1) by (simp add: absorbed_def)
  note t = trans[OF l assms(3), of "Some d", simplified]
  have "full_blocks B (m @ d) = full_blocks B m @ [d]"
    using full_blocks_append[OF B(1), of m d] absorbed_rest[of m] assms(2,3) full_blocks_one[OF B(1) assms(3), of "[]"]
    by (simp add: full_blocks_short B(1))
  moreover have "count (add (trans c (Some d)) B) = 8 * length (m @ d) mod M"
    using mod_count[of B "trans c (Some d)" "length m"] t assms by (simp add: absorbed_def)
  moreover have "length (m @ d) mod B = 0" using assms(2,3) by simp
  moreover have "B * (length (m @ d) div B) = length (m @ d)" using \<open>length (m @ d) mod B = 0\<close> by (simp add: minus_mod_eq_mult_div[symmetric])
  ultimately show ?thesis using assms t by (simp add: absorbed_def add)
qed

lemma absorb_fill:
  assumes "absorbed s c m" "length m mod B + length d = B"
  shows "\<exists>c'. put c (length m mod B) d = Some c' \<and> absorbed s (trans (add c' (length d)) None) (m @ d)"
proof -
  define q u where "q = length m div B" and "u = length m mod B"
  let ?r = "drop (B * q) m"
  have m: "length m = B * q + u" by (simp add: q_def u_def)
  have lr: "length ?r = u" using absorbed_rest by (simp add: q_def u_def)
  have lb: "length (buf c) = B" using assms(1) by (simp add: absorbed_def)
  have r: "take u (buf c) = ?r" using assms(1) by (simp add: absorbed_def q_def u_def)
  obtain c' where c': "put c u d = Some c'" "buf c' = ?r @ d" "st c' = st c" "ctr c' = ctr c"
    using put[of c u d] assms lb r by (auto simp: u_def)
  have ld: "length (?r @ d) = B" using lr assms(2) by (simp add: u_def)
  have "length d \<le> B" using assms(2) by simp
  note t = trans[of "add c' (length d)" "?r @ d" None]
  have "full_blocks B (m @ d) = full_blocks B m @ [?r @ d]"
    using full_blocks_append[OF B(1), of m d] full_blocks_one[OF B(1) ld, of "[]"] by (simp add: full_blocks_short B(1) q_def)
  moreover have "count (add c' (length d)) = 8 * length (m @ d) mod M"
    using mod_count[OF \<open>length d \<le> B\<close>, of c' "length m"] assms c'(4) by (simp add: absorbed_def)
  moreover have "length (m @ d) = B * (q + 1)" using m assms(2) by (simp add: u_def)
  then have "length (m @ d) mod B = 0" "B * (length (m @ d) div B) = length (m @ d)" using B(1) by simp_all
  ultimately have "absorbed s (trans (add c' (length d)) None) (m @ d)"
    using assms(1) c' ld t by (simp add: absorbed_def add)
  then show ?thesis using c'(1) by (simp add: u_def[symmetric])
qed

lemma absorb_blocks:
  "absorbed s c m \<Longrightarrow> length m mod B = 0 \<Longrightarrow> \<exists>c'. blocks c d = Some c' \<and> absorbed s c' (m @ d)"
proof (induction "length d" arbitrary: c m d rule: less_induct)
  case less
  show ?case
  proof (cases "B \<le> length d")
    case True
    then have "absorbed s (add (trans c (Some (take B d))) B) (m @ take B d)"
      using absorb_block[OF less(2,3), of "take B d"] by simp
    moreover have "length (m @ take B d) mod B = 0" using less(3) True by simp
    ultimately have "\<exists>c'. blocks (add (trans c (Some (take B d))) B) (drop B d) = Some c' \<and> absorbed s c' ((m @ take B d) @ drop B d)"
      using True B(1) by (intro less(1)) simp_all
    then show ?thesis using True by (subst blocks) simp
  next
    case False
    then have "length m mod B + length d < B" using less(3) by simp
    from absorb_save[OF less(2) this] show ?thesis
      using False less(2,3) by (subst blocks) (auto split: if_splits)
  qed
qed

lemma absorb_update:
  assumes "absorbed s c m"
  shows "\<exists>c'. update c d = Some c' \<and> absorbed s c' (m @ d)"
proof -
  have u: "used c = length m mod B" using assms count_used by (simp add: absorbed_def)
  define free where "free = B - used c"
  have uB: "used c < B" using B(1) by (simp add: u)
  consider "d = []" | "d \<noteq> []" "used c = 0" | "d \<noteq> []" "used c > 0" "length d < free" | "d \<noteq> []" "used c > 0" "free \<le> length d"
    by fastforce
  then show ?thesis
  proof cases
    case 1
    then show ?thesis using assms by (subst update) simp
  next
    case 2
    then show ?thesis using absorb_blocks[OF assms, of d] u by (subst update) simp
  next
    case 3
    then have "length m mod B + length d < B" using u by (simp add: free_def)
    from absorb_save[OF assms this] show ?thesis using 3 u by (subst update) (simp add: free_def)
  next
    case 4
    then have "length m mod B + length (take free d) = B" using u uB by (simp add: free_def)
    from absorb_fill[OF assms this] obtain c' where c': "put c (used c) (take free d) = Some c'"
      "absorbed s (trans (add c' free) None) (m @ take free d)" using 4 u by auto
    have "length (m @ take free d) mod B = 0"
      using \<open>length m mod B + length (take free d) = B\<close> by (metis length_append mod_add_left_eq mod_self)
    from absorb_blocks[OF c'(2) this, of "drop free d"] show ?thesis
      using 4 c'(1) by (subst update) (simp add: free_def[symmetric])
  qed
qed

end

subsection \<open>The contexts of the three functions\<close>

lemma unat_push3: "n \<le> 2 ^ 60 \<Longrightarrow> unat (push_bit 3 (of_nat n) :: u64) = 8 * n"
  by (simp add: push_bit_eq_mult unat_mult_lem[THEN iffD1] unat_of_nat)

lemma transform256:
  assumes "length (buffer256 c) = 64" "length blk = 64" "src = None \<and> blk = buffer256 c \<or> src = Some blk"
  shows "state256 (SHA256_Transform c src) = compress alg256 (state256 c) blk \<and>
    length (buffer256 (SHA256_Transform c src)) = 64 \<and> bitcount256 (SHA256_Transform c src) = bitcount256 c"
  using f256.transform_compress[of "buffer256 c" blk src "state256 c"] assms by (auto simp: SHA256_Transform_def)

lemma transform512:
  assumes "length (buffer512 c) = 128" "length blk = 128" "src = None \<and> blk = buffer512 c \<or> src = Some blk"
  shows "state512 (SHA512_Transform c src) = compress alg512 (state512 c) blk \<and>
    length (buffer512 (SHA512_Transform c src)) = 128 \<and> bitcount512 (SHA512_Transform c src) = bitcount512 c"
  using f512.transform_compress[of "buffer512 c" blk src "state512 c"] assms by (auto simp: SHA512_Transform_def)

lemma memcpy256:
  "length (buffer256 c) = 64 \<Longrightarrow> i + length d \<le> 64 \<Longrightarrow>
   memcpy256 c i d = Some (c\<lparr>buffer256 := take i (buffer256 c) @ d @ drop (i + length d) (buffer256 c)\<rparr>)"
  by (simp add: memcpy256_def c_putn_def)

lemma memcpy512:
  "length (buffer512 c) = 128 \<Longrightarrow> i + length d \<le> 128 \<Longrightarrow>
   memcpy512 c i d = Some (c\<lparr>buffer512 := take i (buffer512 c) @ d @ drop (i + length d) (buffer512 c)\<rparr>)"
  by (simp add: memcpy512_def c_putn_def)

definition bits512 :: "u64 \<times> u64 \<Rightarrow> nat" where
  "bits512 w = unat (snd w) * 2 ^ 64 + unat (fst w)"

lemma ADDINC128_bits: "bits512 (ADDINC128 w n) = (bits512 w + unat n) mod 2 ^ 128"
proof -
  define lo hi x where "lo = unat (fst w)" and "hi = unat (snd w)" and "x = unat n"
  have u: "unat (v :: u64) < 2 ^ 64" for v by (rule order.strict_trans2[OF unsigned_less]) simp
  have b: "lo < 2 ^ 64" "hi < 2 ^ 64" "x < 2 ^ 64" unfolding lo_def hi_def x_def by (rule u)+
  have s: "unat (fst w + n) = (lo + x) mod 2 ^ 64" and h: "unat (snd w + 1) = (hi + 1) mod 2 ^ 64"
    by (simp_all add: unat_word_ariths lo_def hi_def x_def)
  have e: "bits512 w + unat n = hi * 2 ^ 64 + (lo + x)" by (simp add: bits512_def lo_def hi_def x_def)
  show ?thesis
  proof (cases "lo + x < 2 ^ 64")
    case True
    then have "\<not> fst w + n < n" using s by (simp add: word_less_nat_alt x_def)
    moreover have "hi * 2 ^ 64 + (lo + x) < 2 ^ 128" using True b(2) by simp
    ultimately show ?thesis using True s unfolding e by (simp add: ADDINC128_def bits512_def hi_def)
  next
    case False
    then have m: "(lo + x) mod 2 ^ 64 = lo + x - 2 ^ 64" using b by (subst le_mod_geq) simp_all
    then have "fst w + n < n" using s b False by (simp add: word_less_nat_alt x_def)
    then have r: "bits512 (ADDINC128 w n) = (hi + 1) mod 2 ^ 64 * 2 ^ 64 + (lo + x - 2 ^ 64)"
      using s h m by (simp add: ADDINC128_def bits512_def)
    show ?thesis
    proof (cases "hi + 1 < 2 ^ 64")
      case True
      then show ?thesis using r False b unfolding e by simp
    next
      case F: False
      then have "hi + 1 = 2 ^ 64" using b(2) by simp
      then have "hi = 2 ^ 64 - 1" by simp
      then show ?thesis using r False b unfolding e by (simp add: le_mod_geq)
    qed
  qed
qed

interpretation h256: hash_context 64 "2 ^ 64" state256 bitcount256 unat buffer256 "compress alg256"
  usedspace256 count256 memcpy256 SHA256_Transform SHA256_blocks SHA256_Update
proof (unfold_locales, goal_cases)
  case (3 c)
  then show ?case by (simp add: usedspace256_def drop_bit_eq_div unat_div)
next
  case (4 n c)
  then show ?case by (simp add: count256_def unat_word_ariths(1) unat_push3)
next
  case (9 c data)
  then show ?case by (rule SHA256_blocks.simps)
next
  case (10 c data)
  then show ?case by (simp add: SHA256_Update_def)
qed (auto simp: count256_def memcpy256 transform256)

interpretation h512: hash_context 128 "2 ^ 128" state512 bitcount512 bits512 buffer512 "compress alg512"
  usedspace512 count512 memcpy512 SHA512_Transform SHA512_blocks SHA512_Update
proof (unfold_locales, goal_cases)
  case (3 c)
  have "bits512 w div 8 mod 128 = unat (fst w) div 8 mod 128" for w
  proof -
    have "bits512 w = 8 * (128 * (unat (snd w) * 2 ^ 54)) + unat (fst w)" by (simp add: bits512_def)
    then have "bits512 w div 8 = 128 * (unat (snd w) * 2 ^ 54) + unat (fst w) div 8" by (simp only: div_mult_self4 zero_neq_numeral not_False_eq_True)
    then show ?thesis by (simp only: mod_mult_self4)
  qed
  then show ?case by (simp add: usedspace512_def drop_bit_eq_div unat_div)
next
  case (4 n c)
  then show ?case by (simp add: count512_def ADDINC128_bits unat_push3)
next
  case (9 c data)
  then show ?case by (rule SHA512_blocks.simps)
next
  case (10 c data)
  then show ?case by (simp add: SHA512_Update_def)
qed (auto simp: count512_def memcpy512 transform512)

subsection \<open>Padding\<close>

text \<open>The big-endian encoding of a number in \<open>n\<close> bytes.\<close>

definition be_bytes :: "nat \<Rightarrow> nat \<Rightarrow> byte list" where
  "be_bytes n v = rev (map (\<lambda>i. word_of_nat (v div 256 ^ i)) [0..<n])"

definition pad :: "nat \<Rightarrow> nat \<Rightarrow> byte list \<Rightarrow> byte list" where
  "pad B L m = m @ [0x80] @ replicate ((B - (length m + 1 + L) mod B) mod B) 0 @ be_bytes L (8 * length m)"

lemma be_bytes_length [simp]: "length (be_bytes n v) = n"
  by (simp add: be_bytes_def)

lemma pad_zeros:
  fixes B L n :: nat
  assumes "0 < L" "L < B"
  defines "u \<equiv> n mod B"
  shows "(B - (n + 1 + L) mod B) mod B = (if u + 1 + L \<le> B then B - L - (u + 1) else 2 * B - L - (u + 1))"
proof -
  have u: "u < B" using assms by simp
  have m: "(n + 1 + L) mod B = (u + (1 + L)) mod B" unfolding u_def by (simp only: add.assoc mod_add_left_eq)
  consider "u + 1 + L < B" | "u + 1 + L = B" | "B < u + 1 + L" by linarith
  then show ?thesis
  proof cases
    case 1
    then show ?thesis unfolding m by simp
  next
    case 2
    then have "u + (1 + L) = B" by simp
    then show ?thesis unfolding m using 2 by simp
  next
    case 3
    have "(u + (1 + L)) mod B = (u + (1 + L) - B) mod B" by (rule le_mod_geq) (use 3 in linarith)
    also have "\<dots> = u + (1 + L) - B" by (rule mod_less) (use u assms(2) 3 in linarith)
    finally have "(u + (1 + L)) mod B = u + 1 + L - B" by simp
    then show ?thesis unfolding m using 3 u assms by simp
  qed
qed

lemma pad_blocks:
  fixes B L :: nat and m :: "byte list"
  assumes L: "0 < L" "L < B"
  defines "u \<equiv> length m mod B" and "r \<equiv> drop (B * (length m div B)) m"
  shows "full_blocks B (pad B L m) = full_blocks B m @
    (if u + 1 \<le> B - L then [r @ [0x80] @ replicate (B - L - (u + 1)) 0 @ be_bytes L (8 * length m)]
     else [r @ [0x80] @ replicate (B - (u + 1)) 0, replicate (B - L) 0 @ be_bytes L (8 * length m)])"
proof -
  have B: "0 < B" and u: "u < B" using L by (simp_all add: u_def)
  have lr: "length r = u" unfolding r_def u_def by (rule full_blocks_rest[OF B])
  let ?f = "be_bytes L (8 * length m)"
  have one: "length b = B \<Longrightarrow> full_blocks B b = [b]" for b
    using full_blocks_one[OF B, of b "[]"] by (simp add: full_blocks_short B)
  have "pad B L m = m @ ([0x80] @ replicate (if u + 1 + L \<le> B then B - L - (u + 1) else 2 * B - L - (u + 1)) 0 @ ?f)"
    unfolding pad_def u_def pad_zeros[OF L] by simp
  then have e: "full_blocks B (pad B L m) = full_blocks B m @
      full_blocks B (r @ [0x80] @ replicate (if u + 1 + L \<le> B then B - L - (u + 1) else 2 * B - L - (u + 1)) 0 @ ?f)"
    using full_blocks_append[OF B, of m] by (simp add: r_def)
  show ?thesis
  proof (cases "u + 1 \<le> B - L")
    case True
    then have "full_blocks B (r @ [0x80] @ replicate (B - L - (u + 1)) 0 @ ?f) = [r @ [0x80] @ replicate (B - L - (u + 1)) 0 @ ?f]"
      using lr L by (intro one) simp
    moreover have "u + 1 + L \<le> B" using True L by linarith
    ultimately show ?thesis using True unfolding e by simp
  next
    case False
    have z: "replicate (2 * B - L - (u + 1)) (0 :: byte) = replicate (B - (u + 1)) 0 @ replicate (B - L) 0"
      using u L by (simp add: replicate_add[symmetric])
    have "full_blocks B ((r @ [0x80] @ replicate (B - (u + 1)) 0) @ (replicate (B - L) 0 @ ?f)) =
        [r @ [0x80] @ replicate (B - (u + 1)) 0, replicate (B - L) 0 @ ?f]"
      using lr u L by (subst full_blocks_one[OF B]) (simp_all add: one)
    moreover have f: "\<not> u + 1 + L \<le> B" using False L by linarith
    ultimately show ?thesis unfolding e if_not_P[OF f] if_not_P[OF False] z by simp
  qed
qed

text \<open>Bytes in the order of the standard.\<close>

lemma le_bytes_le_word_of:
  assumes "8 * length bs = LENGTH('w::len)"
  shows "le_bytes (le_word_of bs :: 'w word) (length bs) = bs"
proof (rule nth_equalityI)
  fix i assume "i < length (le_bytes (le_word_of bs :: 'w word) (length bs))"
  then have i: "i < length bs" by simp
  show "le_bytes (le_word_of bs :: 'w word) (length bs) ! i = bs ! i"
  proof (rule bit_word_eqI)
    fix k assume "k < LENGTH(8)"
    then have k: "k < 8" by simp
    have "8 * i + k < 8 * length bs" using i k by linarith
    then show "bit (le_bytes (le_word_of bs :: 'w word) (length bs) ! i) k = bit (bs ! i) k"
      using i k assms by (simp add: le_bytes_nth bit_simps le_word_of_bit)
  qed
qed simp

lemma le_bytes_REVERSE32: "le_bytes (REVERSE32 w) 4 = rev (le_bytes w 4)"
  using REVERSE32_rev[of "le_bytes w 4"] le_word_of_le_bytes[of 4 w] le_bytes_le_word_of[of "rev (le_bytes w 4)", where 'w = 32] by simp

lemma le_bytes_REVERSE64: "le_bytes (REVERSE64 w) 8 = rev (le_bytes w 8)"
  using REVERSE64_rev[of "le_bytes w 8"] le_word_of_le_bytes[of 8 w] le_bytes_le_word_of[of "rev (le_bytes w 8)", where 'w = 64] by simp

lemma le_bytes_map: "le_bytes (w :: 'w::len word) n = map (\<lambda>i. word_of_nat (unat w div 256 ^ i)) [0..<n]"
proof (rule nth_equalityI)
  fix i assume "i < length (le_bytes w n)"
  then have i: "i < n" by simp
  have "(256 :: nat) ^ i = 2 ^ (8 * i)" by (simp add: power_mult)
  then have "unat w div 256 ^ i = unat (drop_bit (8 * i) w)" by (subst unat_drop_bit_eq) (simp add: drop_bit_eq_div)
  then have "word_of_nat (unat w div 256 ^ i) = (ucast (drop_bit (8 * i) w) :: byte)" by simp
  then show "le_bytes w n ! i = map (\<lambda>i. word_of_nat (unat w div 256 ^ i)) [0..<n] ! i"
    using i by (simp add: le_bytes_nth)
qed simp

context hash_context
begin

lemma put_after:
  assumes "buf c = r @ x" "length (r @ x) = B" "length r + length d \<le> B"
  shows "\<exists>c'. put c (length r) d = Some c' \<and> buf c' = (r @ d) @ drop (length d) x \<and> st c' = st c \<and> ctr c' = ctr c"
  using put[of c "length r" d] assms by auto

text \<open>The padding up to the length field, which takes the bytes from \<open>S\<close> on; \<open>Z\<close> zeros
  start the extra block.\<close>

definition padding :: "nat \<Rightarrow> nat \<Rightarrow> 'c \<Rightarrow> nat \<Rightarrow> 'c option" where
  "padding S Z c u =
     (if u > 0 then do {
        c \<leftarrow> put c u [0x80];
        let u = u + 1;
        if u \<le> S then put c u (replicate (S - u) 0)
        else do {
          c \<leftarrow> (if u < B then put c u (replicate (B - u) 0) else Some c);
          put (trans c None) 0 (replicate Z 0)
        }
      } else do {
        c \<leftarrow> put c 0 (replicate S 0);
        put c 0 [0x80]
      })"

lemma padding_absorbs:
  fixes L :: nat and m f :: "byte list"
  assumes L: "0 < L" "L < B" "B - L \<le> Z" "Z \<le> B"
  defines "u \<equiv> length m mod B" and "r \<equiv> drop (B * (length m div B)) m" and "f \<equiv> be_bytes L (8 * length m)"
  assumes c: "length (buf c) = B" "take u (buf c) = r" "st c = foldl comp s (full_blocks B m)"
  shows "\<exists>c' y z. padding (B - L) Z c u = Some c' \<and> buf c' = y @ z \<and> length y = B - L \<and> length z = L \<and> ctr c' = ctr c \<and>
    comp (st c') (y @ f) = foldl comp s (full_blocks B (pad B L m))"
proof -
  have lr: "length r = u" "u < B" using absorbed_rest[of m] B(1) by (simp_all add: u_def r_def)
  define x where "x = drop u (buf c)"
  have b: "buf c = r @ x" using append_take_drop_id[of u "buf c"] c(2) by (simp add: x_def)
  then have lb: "length (r @ x) = B" using c(1) by simp
  note pb = pad_blocks[OF L(1,2), of m, folded u_def r_def f_def]
  consider "u = 0" | "u > 0" "u + 1 \<le> B - L" | "u > 0" "B - L < u + 1" by linarith
  then show ?thesis
  proof cases
    case 1
    then have r: "r = []" using lr by simp
    obtain c1 where c1: "put c 0 (replicate (B - L) 0) = Some c1" "buf c1 = replicate (B - L) 0 @ drop (B - L) x"
      "st c1 = st c" "ctr c1 = ctr c"
      using put_after[of c "[]" x "replicate (B - L) 0"] b lb r L by auto
    obtain k where k: "B - L = Suc k" using L by (metis Suc_diff_Suc)
    obtain c2 where c2: "put c1 0 [0x80] = Some c2" "buf c2 = ([0x80] @ replicate k 0) @ drop (B - L) x"
      "st c2 = st c" "ctr c2 = ctr c"
      using put_after[of c1 "[]" "replicate (B - L) 0 @ drop (B - L) x" "[0x80]"] c1 lb r L k by auto
    show ?thesis
      using 1 c1(1) c2 lb L k r c(3) pb
      by (intro exI[of _ c2] exI[of _ "[0x80] @ replicate k 0"] exI[of _ "drop (B - L) x"]) (auto simp: padding_def)
  next
    case 2
    obtain c1 where c1: "put c u [0x80] = Some c1" "buf c1 = (r @ [0x80]) @ drop 1 x" "st c1 = st c" "ctr c1 = ctr c"
      using put_after[of c r x "[0x80]"] b lb lr by auto
    let ?z = "replicate (B - L - (u + 1)) (0 :: byte)"
    have l: "length ((r @ [0x80]) @ drop 1 x) = B" "length (r @ [0x80]) + length ?z \<le> B" using lb lr 2 L by auto
    obtain c2 where c2: "put c1 (u + 1) ?z = Some c2" "buf c2 = ((r @ [0x80]) @ ?z) @ drop (length ?z) (drop 1 x)" "st c2 = st c" "ctr c2 = ctr c"
      using put_after[OF c1(2) l] c1(3,4) lr by auto
    let ?y = "(r @ [0x80]) @ ?z" and ?t = "drop (length ?z) (drop 1 x)"
    have "padding (B - L) Z c u = Some c2" using 2 c1(1) c2(1) by (simp add: padding_def Let_def)
    moreover have "length ?y = B - L" "length ?t = L" using 2 lr lb L by auto
    moreover have "comp (st c2) (?y @ f) = foldl comp s (full_blocks B (pad B L m))" using 2 c2(3) c(3) pb by simp
    ultimately show ?thesis using c2(2,4) by blast
  next
    case 3
    let ?z = "replicate (B - (u + 1)) (0 :: byte)" and ?y = "replicate (B - L) (0 :: byte)"
    obtain c1 where c1: "put c u [0x80] = Some c1" "buf c1 = (r @ [0x80]) @ drop 1 x" "st c1 = st c" "ctr c1 = ctr c"
      using put_after[of c r x "[0x80]"] b lb lr by auto
    have l: "length ((r @ [0x80]) @ drop 1 x) = B" "length (r @ [0x80]) + length ?z \<le> B" using lb lr by auto
    have "\<exists>c2. (if u + 1 < B then put c1 (u + 1) ?z else Some c1) = Some c2 \<and> buf c2 = r @ [0x80] @ ?z \<and> st c2 = st c \<and> ctr c2 = ctr c"
    proof (cases "u + 1 < B")
      case True
      then show ?thesis using put_after[OF c1(2) l] c1(3,4) lr lb by auto
    next
      case False
      then show ?thesis using c1 lb lr by auto
    qed
    then obtain c2 where c2: "(if u + 1 < B then put c1 (u + 1) ?z else Some c1) = Some c2"
      "buf c2 = r @ [0x80] @ ?z" "st c2 = st c" "ctr c2 = ctr c" by blast
    have lb2: "length (buf c2) = B" using c2(2) lr by simp
    note t = trans[OF lb2 lb2, of None, simplified]
    obtain c3 where c3: "put (trans c2 None) 0 (replicate Z 0) = Some c3"
      "buf c3 = replicate Z 0 @ drop Z (buf (trans c2 None))" "st c3 = comp (st c) (r @ [0x80] @ ?z)" "ctr c3 = ctr c"
      using put_after[of "trans c2 None" "[]" "buf (trans c2 None)" "replicate Z 0"] t c2 L by auto
    have z: "replicate Z (0 :: byte) = ?y @ replicate (Z - (B - L)) 0" using L(3) by (simp add: replicate_add[symmetric])
    have "buf c3 = ?y @ (replicate (Z - (B - L)) 0 @ drop Z (buf (trans c2 None)))" using c3(2) z by simp
    moreover have "length (replicate (Z - (B - L)) (0 :: byte) @ drop Z (buf (trans c2 None))) = L" using L t by simp
    moreover have "padding (B - L) Z c u = Some c3" using 3 c1(1) c2(1) c3(1) by (cases "Suc u < B") (simp_all add: padding_def Let_def)
    moreover have "\<not> u + 1 \<le> B - L" using 3 by simp
    then have "comp (st c3) (?y @ f) = foldl comp s (full_blocks B (pad B L m))" using c3(3) c(3) pb by simp
    ultimately show ?thesis using c3(4) by (metis length_replicate)
  qed
qed

end

text \<open>Both functions finish a message as the standard says.\<close>

lemma SHA256_Last_padding:
  "SHA256_Last c = do {
     ctx \<leftarrow> h256.padding 56 56 (c\<lparr>bitcount256 := REVERSE64 (bitcount256 c)\<rparr>) (usedspace256 c);
     ctx \<leftarrow> memcpy256 ctx 56 (le_bytes (bitcount256 ctx) 8);
     Some (SHA256_Transform ctx None)
   }"
  by (simp only: SHA256_Last_def h256.padding_def Let_def)

lemma SHA512_Last_padding:
  "SHA512_Last c = do {
     ctx \<leftarrow> h512.padding 112 (128 - 2) (c\<lparr>bitcount512 := (REVERSE64 (fst (bitcount512 c)), REVERSE64 (snd (bitcount512 c)))\<rparr>) (usedspace512 c);
     ctx \<leftarrow> memcpy512 ctx 112 (le_bytes (snd (bitcount512 ctx)) 8);
     ctx \<leftarrow> memcpy512 ctx 120 (le_bytes (fst (bitcount512 ctx)) 8);
     Some (SHA512_Transform ctx None)
   }"
  by (simp only: SHA512_Last_def h512.padding_def Let_def)

lemma last256:
  assumes a: "h256.absorbed s c m" and n: "8 * length m < 2 ^ 64"
  shows "\<exists>c'. SHA256_Last c = Some c' \<and> state256 c' = foldl (compress alg256) s (full_blocks 64 (pad 64 8 m))"
proof -
  let ?u = "length m mod 64" and ?f = "be_bytes 8 (8 * length m)"
  have c: "length (buffer256 c) = 64" "state256 c = foldl (compress alg256) s (full_blocks 64 m)"
    "unat (bitcount256 c) = 8 * length m" "take ?u (buffer256 c) = drop (64 * (length m div 64)) m"
    using a[unfolded h256.absorbed_def] n by simp_all
  have u: "usedspace256 c = ?u" by (rule h256.count_used) (use c(3) n in simp)
  define c1 where "c1 = c\<lparr>bitcount256 := REVERSE64 (bitcount256 c)\<rparr>"
  obtain c2 y z where p: "h256.padding 56 56 c1 ?u = Some c2" "buffer256 c2 = y @ z" "length y = 56" "length z = 8"
    "bitcount256 c2 = REVERSE64 (bitcount256 c)"
    "compress alg256 (state256 c2) (y @ ?f) = foldl (compress alg256) s (full_blocks 64 (pad 64 8 m))"
    using h256.padding_absorbs[where L = 8 and Z = 56 and m = m and c = c1 and s = s] c by (auto simp: c1_def)
  have f: "le_bytes (bitcount256 c2) 8 = ?f"
    unfolding p(5) le_bytes_REVERSE64 by (simp only: le_bytes_map be_bytes_def c(3))
  have m: "memcpy256 c2 56 ?f = Some (c2\<lparr>buffer256 := y @ ?f\<rparr>)"
    using memcpy256[of c2 56 ?f] p(2-4) by simp
  have "SHA256_Last c = Some (SHA256_Transform (c2\<lparr>buffer256 := y @ ?f\<rparr>) None)"
    unfolding SHA256_Last_padding u c1_def[symmetric] p(1) by (simp add: f m)
  moreover have "state256 (SHA256_Transform (c2\<lparr>buffer256 := y @ ?f\<rparr>) None) = compress alg256 (state256 c2) (y @ ?f)"
    using transform256[of "c2\<lparr>buffer256 := y @ ?f\<rparr>" "y @ ?f" None] p(3) by simp
  ultimately show ?thesis using p(6) by simp
qed

lemma bits512_bytes:
  "be_bytes 16 (bits512 (lo, hi)) = rev (le_bytes hi 8) @ rev (le_bytes lo 8)"
proof -
  define a b where "a = unat hi" and "b = unat lo"
  have b: "b < 2 ^ 64" unfolding b_def by (rule order.strict_trans2[OF unsigned_less]) simp
  have low: "(word_of_nat ((a * 2 ^ 64 + b) div 256 ^ i) :: byte) = word_of_nat (b div 256 ^ i)" if "i < 8" for i
  proof -
    have "(2 :: nat) ^ 64 = 256 ^ (7 - i) * 256 * 256 ^ i" using that by (simp add: power_add[symmetric] power_Suc2[symmetric] Suc_diff_le flip: power_Suc)
    then have "a * 2 ^ 64 + b = b + (a * 256 ^ (7 - i) * 256) * 256 ^ i" by simp
    then have "(a * 2 ^ 64 + b) div 256 ^ i = (b + (a * 256 ^ (7 - i) * 256) * 256 ^ i) div 256 ^ i" by (rule arg_cong)
    also have "\<dots> = b div 256 ^ i + 256 * (a * 256 ^ (7 - i))" by (subst div_mult_self1) simp_all
    finally have "(a * 2 ^ 64 + b) div 256 ^ i = b div 256 ^ i + 256 * (a * 256 ^ (7 - i))" .
    moreover have "(256 :: byte) = 0" by simp
    ultimately show ?thesis by (simp only: of_nat_add of_nat_mult of_nat_numeral mult_zero_left add_0_right)
  qed
  have high: "(a * 2 ^ 64 + b) div 256 ^ (8 + i) = a div 256 ^ i" for i
  proof -
    have "(a * 2 ^ 64 + b) div 256 ^ (8 + i) = (a * 2 ^ 64 + b) div 2 ^ 64 div 256 ^ i" by (simp add: power_add div_mult2_eq)
    then show ?thesis using b by simp
  qed
  have "[0..<16] = [0..<8] @ map (\<lambda>i. 8 + i) [0..<8 :: nat]" by (simp add: upt_rec)
  then have "be_bytes 16 (a * 2 ^ 64 + b) = rev (map (\<lambda>i. word_of_nat ((a * 2 ^ 64 + b) div 256 ^ (8 + i))) [0..<8]) @
      rev (map (\<lambda>i. word_of_nat ((a * 2 ^ 64 + b) div 256 ^ i)) [0..<8])"
    unfolding be_bytes_def by (simp only: map_append rev_append map_map o_def)
  also have "\<dots> = rev (map (\<lambda>i. word_of_nat (a div 256 ^ i)) [0..<8]) @ rev (map (\<lambda>i. word_of_nat (b div 256 ^ i)) [0..<8])"
    unfolding high using low by simp
  finally show ?thesis by (simp only: le_bytes_map bits512_def a_def b_def fst_conv snd_conv)
qed

lemma last512:
  assumes a: "h512.absorbed s c m" and n: "8 * length m < 2 ^ 128"
  shows "\<exists>c'. SHA512_Last c = Some c' \<and> state512 c' = foldl (compress alg512) s (full_blocks 128 (pad 128 16 m))"
proof -
  let ?u = "length m mod 128" and ?f = "be_bytes 16 (8 * length m)"
  have c: "length (buffer512 c) = 128" "state512 c = foldl (compress alg512) s (full_blocks 128 m)"
    "bits512 (bitcount512 c) = 8 * length m" "take ?u (buffer512 c) = drop (128 * (length m div 128)) m"
    using a[unfolded h512.absorbed_def] n by simp_all
  have u: "usedspace512 c = ?u" by (rule h512.count_used) (use c(3) n in simp)
  obtain lo hi where lh: "bitcount512 c = (lo, hi)" by force
  define c1 where "c1 = c\<lparr>bitcount512 := (REVERSE64 lo, REVERSE64 hi)\<rparr>"
  obtain c2 y z where p: "h512.padding 112 (128 - 2) c1 ?u = Some c2" "buffer512 c2 = y @ z" "length y = 112" "length z = 16"
    "bitcount512 c2 = (REVERSE64 lo, REVERSE64 hi)"
    "compress alg512 (state512 c2) (y @ ?f) = foldl (compress alg512) s (full_blocks 128 (pad 128 16 m))"
    using h512.padding_absorbs[where L = 16 and Z = "128 - 2" and m = m and c = c1 and s = s] c by (auto simp: c1_def)
  define fh fl where "fh = le_bytes (REVERSE64 hi) 8" and "fl = le_bytes (REVERSE64 lo) 8"
  have f: "?f = fh @ fl" "length fh = 8" "length fl = 8"
    using bits512_bytes[of lo hi] c(3) by (simp_all add: lh fh_def fl_def le_bytes_REVERSE64)
  have m1: "memcpy512 c2 112 fh = Some (c2\<lparr>buffer512 := y @ fh @ drop 8 z\<rparr>)"
    using memcpy512[of c2 112 fh] p(2-4) f by simp
  have m2: "memcpy512 (c2\<lparr>buffer512 := y @ fh @ drop 8 z\<rparr>) 120 fl = Some (c2\<lparr>buffer512 := y @ fh @ fl\<rparr>)"
    using memcpy512[of "c2\<lparr>buffer512 := y @ fh @ drop 8 z\<rparr>" 120 fl] p(3,4) f by simp
  have "SHA512_Last c = Some (SHA512_Transform (c2\<lparr>buffer512 := y @ fh @ fl\<rparr>) None)"
    unfolding SHA512_Last_padding u lh fst_conv snd_conv c1_def[symmetric] p(1)
    by (simp add: p(5) m1 m2 fh_def[symmetric] fl_def[symmetric])
  moreover have "state512 (SHA512_Transform (c2\<lparr>buffer512 := y @ fh @ fl\<rparr>) None) = compress alg512 (state512 c2) (y @ ?f)"
    using transform512[of "c2\<lparr>buffer512 := y @ fh @ fl\<rparr>" "y @ fh @ fl" None] p(3) f by simp
  ultimately show ?thesis using p(6) by simp
qed

subsection \<open>The digests\<close>

text \<open>The hash functions of FIPS 180-4: the padded message compressed block by block from the initial
  hash value, and the final state written big endian. SHA-384 keeps six of the eight words.\<close>

definition fips_state :: "'w::len word sha_alg \<Rightarrow> nat \<Rightarrow> nat \<Rightarrow> 'w word list \<Rightarrow> byte list \<Rightarrow> 'w word list" where
  "fips_state A B L iv m = foldl (compress A) iv (full_blocks B (pad B L m))"

definition fips_digest :: "nat \<Rightarrow> 'w::len word list \<Rightarrow> byte list" where
  "fips_digest n st = concat (map (\<lambda>w. be_bytes n (unat w)) st)"

definition sha256 :: "byte list \<Rightarrow> byte list" where
  "sha256 m = fips_digest 4 (fips_state alg256 64 8 sha256_initial_hash_value m)"

definition sha512 :: "byte list \<Rightarrow> byte list" where
  "sha512 m = fips_digest 8 (fips_state alg512 128 16 sha512_initial_hash_value m)"

definition sha384 :: "byte list \<Rightarrow> byte list" where
  "sha384 m = fips_digest 8 (take 6 (fips_state alg512 128 16 sha384_initial_hash_value m))"

lemma be_bytes_unat: "be_bytes n (unat w) = rev (le_bytes w n)"
  by (simp add: be_bytes_def le_bytes_map)

lemma compress_length [simp]: "length (compress A st blk) = 8"
  by (simp add: compress_def add_regs_def split: prod.split)

lemma fips_state_length: "length iv = 8 \<Longrightarrow> length (fips_state A B L iv m) = 8"
proof -
  have "length st = 8 \<Longrightarrow> length (foldl (compress A) st bs) = 8" for st bs by (induction bs arbitrary: st) simp_all
  then show "length iv = 8 \<Longrightarrow> length (fips_state A B L iv m) = 8" by (simp add: fips_state_def)
qed

lemma concat_words: "k \<le> length st \<Longrightarrow> concat (map (\<lambda>j. f (st ! j)) [0..<k]) = concat (map f (take k st))"
proof -
  assume "k \<le> length st"
  then have "map (\<lambda>j. f (st ! j)) [0..<k] = map f (take k st)" by (intro nth_equalityI) simp_all
  then show "concat (map (\<lambda>j. f (st ! j)) [0..<k]) = concat (map f (take k st))" by simp
qed

lemma initial_lengths [simp]:
  "length sha256_initial_hash_value = 8" "length sha384_initial_hash_value = 8" "length sha512_initial_hash_value = 8"
  by (simp_all add: sha256_initial_hash_value_def sha384_initial_hash_value_def sha512_initial_hash_value_def)

lemma sha256_final:
  assumes "h256.absorbed sha256_initial_hash_value c m" "8 * length m < 2 ^ 64"
  shows "SHA256_Final True c = Some (Some (sha256 m), zero256)"
proof -
  obtain c' where c': "SHA256_Last c = Some c'" "state256 c' = fips_state alg256 64 8 sha256_initial_hash_value m"
    using last256[OF assms] by (auto simp: fips_state_def)
  show ?thesis
    using concat_words[of 8 "state256 c'" "\<lambda>w. le_bytes (REVERSE32 w) 4"]
    by (simp add: SHA256_Final_def c' sha256_def fips_digest_def be_bytes_unat le_bytes_REVERSE32 fips_state_length)
qed

lemma sha512_final:
  assumes "h512.absorbed sha512_initial_hash_value c m" "8 * length m < 2 ^ 128"
  shows "SHA512_Final True c = Some (Some (sha512 m), zero512)"
proof -
  obtain c' where c': "SHA512_Last c = Some c'" "state512 c' = fips_state alg512 128 16 sha512_initial_hash_value m"
    using last512[OF assms] by (auto simp: fips_state_def)
  show ?thesis
    using concat_words[of 8 "state512 c'" "\<lambda>w. le_bytes (REVERSE64 w) 8"]
    by (simp add: SHA512_Final_def c' sha512_def fips_digest_def be_bytes_unat le_bytes_REVERSE64 fips_state_length)
qed

lemma sha384_final:
  assumes "h512.absorbed sha384_initial_hash_value c m" "8 * length m < 2 ^ 128"
  shows "SHA384_Final True c = Some (Some (sha384 m), zero512)"
proof -
  obtain c' where c': "SHA512_Last c = Some c'" "state512 c' = fips_state alg512 128 16 sha384_initial_hash_value m"
    using last512[OF assms] by (auto simp: fips_state_def)
  show ?thesis
    using concat_words[of 6 "state512 c'" "\<lambda>w. le_bytes (REVERSE64 w) 8"]
    by (simp add: SHA384_Final_def c' sha384_def fips_digest_def be_bytes_unat le_bytes_REVERSE64 fips_state_length)
qed

context hash_context
begin

lemma absorb_pieces:
  "absorbed s c m \<Longrightarrow> \<exists>c'. foldo update c ps = Some c' \<and> absorbed s c' (m @ concat ps)"
proof (induction ps arbitrary: c m)
  case (Cons p ps)
  obtain c1 where "update c p = Some c1" "absorbed s c1 (m @ p)" using absorb_update[OF Cons.prems] by blast
  then show ?case using Cons.IH[of c1 "m @ p"] by simp
qed simp

end

lemma init_absorbed:
  "h256.absorbed sha256_initial_hash_value SHA256_Init []"
  "h512.absorbed sha512_initial_hash_value SHA512_Init []"
  "h512.absorbed sha384_initial_hash_value SHA384_Init []"
  unfolding h256.absorbed_def h512.absorbed_def by (simp_all add: SHA256_Init_def SHA512_Init_def SHA384_Init_def full_blocks_short bits512_def)



subsection \<open>The digest as text\<close>

lemma hex_text_lower: "hex_text d = concat (map printf_02x d) @ [0]"
proof -
  have "drop_bit 4 (b AND 0xf0) = drop_bit 4 b" for b :: byte
  proof (rule bit_eqI)
    fix n
    have "bit b (4 + n) \<Longrightarrow> n \<in> {0, 1, 2, 3}" using bit_imp_le_length[of b "4 + n"] by auto
    then show "bit (drop_bit 4 (b AND 0xf0)) n = bit (drop_bit 4 b) n" by (auto simp: bit_simps)
  qed
  then show ?thesis by (simp add: hex_text_def printf_02x_def[abs_def] hexdigit_lower_def sha2_hex_digits_def)
qed

lemma fromhex_loop_lower:
  assumes "count + length d \<le> length dst"
  shows "fromhex_loop dst (concat (map printf_02x d) @ rest) count (length d) =
    Some (int (count + length d), take count dst @ d @ drop (count + length d) dst)"
  using assms
proof (induction d arbitrary: dst count)
  case (Cons b d)
  let ?h = "hexdigit_lower (drop_bit 4 b)" and ?l = "hexdigit_lower (b AND 0xf)"
  have ok: "(word_of_int (hexvalue ?h) :: byte) AND 0xf0 = 0" "(word_of_int (hexvalue ?l) :: byte) AND 0xf0 = 0"
    using hexdigit_lower_xdigit nibbles_less hexvalue_ok by blast+
  have v: "push_bit 4 (word_of_int (hexvalue ?h)) + word_of_int (hexvalue ?l) = b"
    using hex_byte_lower[of b] by (simp add: hex_byte_def)
  have "fromhex_loop dst (concat (map printf_02x (b # d)) @ rest) count (length (b # d)) =
      fromhex_loop (dst[count := b]) (concat (map printf_02x d) @ rest) (Suc count) (length d)"
    using ok v Cons.prems by (simp add: printf_02x_def c_get_def c_put_def numeral_2_eq_2)
  also have "\<dots> = Some (int (Suc count + length d), take (Suc count) (dst[count := b]) @ d @ drop (Suc count + length d) (dst[count := b]))"
    using Cons.IH[of "Suc count" "dst[count := b]"] Cons.prems by simp
  also have "take (Suc count) (dst[count := b]) = take count dst @ [b]"
    using Cons.prems by (simp add: take_Suc_conv_app_nth)
  finally show ?case by (simp add: drop_update_cancel)
qed simp

lemma fromhexstr_hex_text: "length dst = length d \<Longrightarrow> fromhexstr dst (hex_text d) (length d) = Some (0, d)"
proof -
  assume d: "length dst = length d"
  have "length (concat (map printf_02x d)) = 2 * length d" by (induction d) (simp_all add: printf_02x_def)
  then show ?thesis
    using fromhex_loop_lower[of 0 d dst "[0]"] d
    by (simp add: fromhexstr_def fromhex_def hex_text_lower c_get_def nth_append mult.commute nat_mult_distrib)
qed

lemma fips_digest_length [simp]: "length (fips_digest n st) = n * length st"
  by (induction st) (simp_all add: fips_digest_def)

lemma sha_lengths: "length (sha256 m) = 32" "length (sha512 m) = 64" "length (sha384 m) = 48"
  by (simp_all add: sha256_def sha512_def sha384_def fips_state_length)

text \<open>C38. The one-call functions write the digest as lower-case hexadecimal, which
  \<open>fromhexstr\<close> reads back; the pointer they return is to the end of the text, not to its start.\<close>

theorem sha_data_text:
  assumes "8 * length m < 2 ^ 64"
  shows "SHA256_Data m True = Some (Some (hex_text (sha256 m), 64), zero256) \<and>
    SHA512_Data m True = Some (Some (hex_text (sha512 m), 128), zero512) \<and>
    SHA384_Data m True = Some (Some (hex_text (sha384 m), 96), zero512) \<and>
    fromhexstr (replicate 32 0) (hex_text (sha256 m)) 32 = Some (0, sha256 m) \<and>
    fromhexstr (replicate 64 0) (hex_text (sha512 m)) 64 = Some (0, sha512 m) \<and>
    fromhexstr (replicate 48 0) (hex_text (sha384 m)) 48 = Some (0, sha384 m)"
proof -
  have n: "8 * length m < 2 ^ 128" by (rule order.strict_trans[OF assms]) simp
  obtain c where c: "SHA256_Update SHA256_Init m = Some c" "h256.absorbed sha256_initial_hash_value c m"
    using h256.absorb_update[OF init_absorbed(1), of m] by auto
  obtain c' where c': "SHA512_Update SHA512_Init m = Some c'" "h512.absorbed sha512_initial_hash_value c' m"
    using h512.absorb_update[OF init_absorbed(2), of m] by auto
  obtain c'' where c'': "SHA512_Update SHA384_Init m = Some c''" "h512.absorbed sha384_initial_hash_value c'' m"
    using h512.absorb_update[OF init_absorbed(3), of m] by auto
  show ?thesis
    using fromhexstr_hex_text[of "replicate 32 0" "sha256 m"] fromhexstr_hex_text[of "replicate 64 0" "sha512 m"]
      fromhexstr_hex_text[of "replicate 48 0" "sha384 m"]
    by (simp add: SHA256_Data_def SHA512_Data_def SHA384_Data_def SHA256_End_def SHA512_End_def SHA384_End_def
        SHA384_Update_def c(1) c'(1) c''(1) sha256_final[OF c(2) assms] sha512_final[OF c'(2) n] sha384_final[OF c''(2) n] sha_lengths)
qed

theorem sha_data_text_witness:
  "SHA512_Data (cs ''abc'') True = Some (Some (hex_text (sha512 (cs ''abc'')), 128), zero512)"
  using sha_data_text[of "cs ''abc''"] by simp

end
