(* ===== verification/Subscriber_Tree.thy ===== *)
theory Subscriber_Tree
  imports Dataformats
begin

text \<open>
  The tree of known subscribers of \<open>overlay_address.c\<close>. A node has sixteen slots, indexed by
  the next nibble of a subscriber id; a slot is empty, points to a subscriber or, where the
  bit of \<open>is_tree\<close> is set, to another node. Nodes are not shared, so a node is the list of its
  slots. Subscribers are shared: they live in a list that stands for the heap, a
  \<open>struct subscriber *\<close> is an index into it and \<open>malloc\<close>, which is taken to succeed, appends to it.
  The record has the fields that the modelled code reads or writes.
\<close>

record subscriber =
  sub_sid :: "byte list"
  abbreviate_len :: int
  send_full :: int
  reachable :: int
  max_packet_version :: int
  sub_interface :: "nat option"
  sub_address :: "byte list"
  last_probe :: int
  last_explained :: int

datatype slot = Empty | Sub nat | Tree "slot list"

record subscriber_table =
  root :: "slot list"
  subscribers :: "subscriber list"

definition get_nibble :: "byte list \<Rightarrow> nat \<Rightarrow> nat option" where
  "get_nibble sid pos = do {
     b \<leftarrow> c_get sid (int (pos div 2));
     let b = (if even pos then drop_bit 4 b else b);
     Some (unat (b AND 0xF))
   }"

text \<open>The subscriber made for an id: all fields are cleared but the two that are set.\<close>

definition new_subscriber :: "byte list \<Rightarrow> int \<Rightarrow> subscriber" where
  "new_subscriber sid pos = \<lparr>sub_sid = sid, abbreviate_len = pos, send_full = 0, reachable = 0,
     max_packet_version = 0, sub_interface = None, sub_address = replicate 16 0, last_probe = 0, last_explained = 0\<rparr>"

text \<open>The loop of \<open>find_subscriber\<close>, from the node \<open>slots\<close> and the nibble \<open>pos\<close> on: the subscriber
  found or made, the node and the heap afterwards. A node made for a conflicting subscriber is
  where the loop goes on.\<close>

function find_loop :: "byte list \<Rightarrow> nat \<Rightarrow> bool \<Rightarrow> nat \<Rightarrow> slot list \<Rightarrow> subscriber list \<Rightarrow>
    (nat option \<times> slot list \<times> subscriber list) option" where
  "find_loop sid len create pos slots subs = do {
     nibble \<leftarrow> get_nibble sid pos;
     slot \<leftarrow> c_get slots (int nibble);
     case slot of
       Tree t \<Rightarrow>
         if pos + 1 < len * 2 then do {
           (r, t, subs) \<leftarrow> find_loop sid len create (pos + 1) t subs;
           Some (r, slots[nibble := Tree t], subs)
         } else Some (None, slots, subs)
     | Empty \<Rightarrow>
         if create then do {
           d \<leftarrow> c_getn sid 0 (int SID_SIZE);
           Some (Some (length subs), slots[nibble := Sub (length subs)], subs @ [new_subscriber d (int pos + 1)])
         } else Some (None, slots, subs)
     | Sub p \<Rightarrow> do {
         ret \<leftarrow> c_get subs (int p);
         a \<leftarrow> c_getn (sub_sid ret) 0 (int len);
         b \<leftarrow> c_getn sid 0 (int len);
         if a = b then Some (Some p, slots, subs)
         else if \<not> create then Some (None, slots, subs)
         else do {
           n \<leftarrow> get_nibble (sub_sid ret) (pos + 1);
           let t = (replicate 16 Empty)[n := Sub p];
           let subs = subs[p := ret\<lparr>abbreviate_len := int pos + 1 + 1\<rparr>];
           if pos + 1 < len * 2 then do {
             (r, t, subs) \<leftarrow> find_loop sid len create (pos + 1) t subs;
             Some (r, slots[nibble := Tree t], subs)
           } else Some (None, slots[nibble := Tree t], subs)
         }
       }
   }"
  by pat_completeness auto
termination by (relation "measure (\<lambda>(sid, len, create, pos, slots, subs). len * 2 - pos)") auto

declare find_loop.simps [simp del]

definition find_subscriber :: "subscriber_table \<Rightarrow> byte list \<Rightarrow> nat \<Rightarrow> bool \<Rightarrow> (nat option \<times> subscriber_table) option" where
  "find_subscriber st sid len create = do {
     let create = (create \<and> len = SID_SIZE);
     (r, slots, subs) \<leftarrow> find_loop sid len create 0 (root st) (subscribers st);
     Some (r, st\<lparr>root := slots, subscribers := subs\<rparr>)
   }"

text \<open>The walk over the tree. \<open>start\<close> and \<open>end\<close> are \<open>None\<close> for NULL; the callback works on a state of
  its own and stops the walk with a true result. \<open>walk_loop\<close> is the loop over the slots.\<close>

definition walk_first :: "byte list option \<Rightarrow> nat \<Rightarrow> nat \<Rightarrow> nat option" where
  "walk_first start start_len pos = (case start of Some s \<Rightarrow> (if pos < start_len * 2 then get_nibble s pos else Some 0) | None \<Rightarrow> Some 0)"

definition walk_last :: "byte list option \<Rightarrow> nat \<Rightarrow> nat \<Rightarrow> nat option" where
  "walk_last end end_len pos =
     (case end of Some s \<Rightarrow> (if pos < end_len * 2 then map_option Suc (get_nibble s pos) else Some 16) | None \<Rightarrow> Some 16)"

lemma size_list_drop_take: "size_list f (drop i (take e xs)) \<le> size_list f xs"
proof -
  have "size_list f (drop i ys) \<le> size_list f ys" for i and ys :: "'a list"
    by (induction ys arbitrary: i) (auto simp: drop_Cons split: nat.split intro: le_SucI trans_le_add2)
  moreover have "size_list f (take e xs) \<le> size_list f xs"
    by (induction xs arbitrary: e) (auto simp: take_Cons split: nat.split)
  ultimately show ?thesis by (rule order_trans)
qed

function (sequential)
  walk_tree :: "(nat \<Rightarrow> 's \<Rightarrow> (bool \<times> 's) option) \<Rightarrow> slot list \<Rightarrow> nat \<Rightarrow> byte list option \<Rightarrow> nat \<Rightarrow> byte list option \<Rightarrow> nat \<Rightarrow> 's \<Rightarrow> (bool \<times> 's) option"
and walk_loop :: "(nat \<Rightarrow> 's \<Rightarrow> (bool \<times> 's) option) \<Rightarrow> slot list \<Rightarrow> nat \<Rightarrow> byte list option \<Rightarrow> nat \<Rightarrow> byte list option \<Rightarrow> nat \<Rightarrow> 's \<Rightarrow> (bool \<times> 's) option"
where
  "walk_tree callback node pos start start_len end end_len st = do {
     i \<leftarrow> walk_first start start_len pos;
     e \<leftarrow> walk_last end end_len pos;
     walk_loop callback (drop i (take e node)) pos start start_len end end_len st
   }"
| "walk_loop callback [] pos start start_len end end_len st = Some (False, st)"
| "walk_loop callback (s # slots) pos start start_len end end_len st = do {
     (stop, st) \<leftarrow> (case s of
         Tree t \<Rightarrow> walk_tree callback t (pos + 1) start start_len end end_len st
       | Sub p \<Rightarrow> callback p st
       | Empty \<Rightarrow> Some (False, st));
     if stop then Some (True, st)
     else walk_loop callback slots pos None start_len end end_len st
   }"
  by pat_completeness auto

termination
  by (relation "measure (\<lambda>x. case x of Inl (_, node, _) \<Rightarrow> 2 * size_list size node + 1 | Inr (_, node, _) \<Rightarrow> 2 * size_list size node)")
    (auto simp: less_Suc_eq_le intro: size_list_drop_take)

definition enum_subscribers :: "subscriber_table \<Rightarrow> nat \<Rightarrow> (nat \<Rightarrow> 's \<Rightarrow> (bool \<times> 's) option) \<Rightarrow> 's \<Rightarrow> (bool \<times> 's) option" where
  "enum_subscribers tab start callback st = do {
     s \<leftarrow> c_get (subscribers tab) (int start);
     walk_tree callback (root tab) 0 (Some (sub_sid s)) SID_SIZE None 0 st
   }"

end
