(* ===== verification/Subscriber_Tree_Correct.thy ===== *)
theory Subscriber_Tree_Correct
  imports Subscriber_Tree "HOL-Library.List_Lexorder"
begin

text \<open>
  What the subscriber tree promises. A well-formed table is a prefix tree over the nibbles of the
  ids; looking up is looking up in the list of known ids, an abbreviation stands for the one
  subscriber it matches, the stored abbreviation lengths are the shortest possible, and a walk
  meets the subscribers in the order of their ids.
\<close>

subsection \<open>Nibbles\<close>

definition nibbles :: "byte list \<Rightarrow> nat list" where
  "nibbles s = concat (map (\<lambda>b. [unat (drop_bit 4 b), unat (b AND 0xF)]) s)"

lemma nibbles_simps [simp]:
  "nibbles [] = []"
  "nibbles (b # s) = unat (drop_bit 4 b) # unat (b AND 0xF) # nibbles s"
  by (simp_all add: nibbles_def)

lemma nibbles_length [simp]: "length (nibbles s) = 2 * length s"
  by (induction s) simp_all

lemma nibbles_take: "take (2 * n) (nibbles s) = nibbles (take n s)"
proof (induction s arbitrary: n)
  case (Cons b s)
  then show ?case by (cases n) simp_all
qed simp

lemma nibbles_inject [simp]: "nibbles s = nibbles t \<longleftrightarrow> s = t"
proof (induction s arbitrary: t)
  case Nil
  then show ?case by (cases t) simp_all
next
  case (Cons b s)
  have "unat (drop_bit 4 b) = unat (drop_bit 4 c) \<and> unat (b AND 0xF) = unat (c AND 0xF) \<longleftrightarrow> b = c" for c
    using hex_join[of b] hex_join[of c] by (metis word_unat_eq_iff)
  then show ?case using Cons.IH by (cases t) auto
qed

lemma nibble_bound: "n \<in> set (nibbles s) \<Longrightarrow> n < 16"
  by (induction s) (auto simp: nibbles_less)

lemma nibbles_nth: "pos < 2 * length s \<Longrightarrow> nibbles s ! pos = unat ((if even pos then drop_bit 4 (s ! (pos div 2)) else s ! (pos div 2)) AND 0xF)"
proof (induction s arbitrary: pos)
  case (Cons b s)
  have h: "drop_bit 4 b AND 0xF = drop_bit 4 b"
  proof (rule bit_eqI)
    fix n
    have "bit b (4 + n) \<Longrightarrow> n \<in> {0, 1, 2, 3}" using bit_imp_le_length[of b "4 + n"] by auto
    then show "bit (drop_bit 4 b AND 0xF) n = bit (drop_bit 4 b) n" by (auto simp: bit_simps)
  qed
  consider "pos = 0" | "pos = 1" | k where "pos = Suc (Suc k)" by (metis One_nat_def not0_implies_Suc)
  then show ?case
  proof cases
    case 1
    then show ?thesis by (simp only: h even_zero if_True nibbles_simps nth_Cons_0 div_0)
  next
    case 2
    then show ?thesis by simp
  next
    case 3
    then show ?thesis using Cons.IH[of k] Cons.prems by simp
  qed
qed simp

lemma get_nibble: "pos < 2 * length s \<Longrightarrow> get_nibble s pos = Some (nibbles s ! pos)"
  by (auto simp: get_nibble_def c_get_def nibbles_nth Let_def nat_div_distrib zdiv_int[symmetric])

lemma nibbles_nth_less: "pos < 2 * length s \<Longrightarrow> nibbles s ! pos < 16"
  using nibble_bound[OF nth_mem[of pos "nibbles s"]] by simp

subsection \<open>Well-formed trees\<close>

fun ptrs :: "slot \<Rightarrow> nat set" where
  "ptrs Empty = {}"
| "ptrs (Sub p) = {p}"
| "ptrs (Tree ts) = (\<Union>t \<in> set ts. ptrs t)"

text \<open>The slot at the end of the path \<open>q\<close>: a subscriber there has the path as the beginning of its
  id and the length of the path as its abbreviation length; a node below has at least two
  subscribers.\<close>

fun slot_ok :: "subscriber list \<Rightarrow> nat list \<Rightarrow> slot \<Rightarrow> bool"
and slots_ok :: "subscriber list \<Rightarrow> nat list \<Rightarrow> nat \<Rightarrow> slot list \<Rightarrow> bool" where
  "slot_ok subs q Empty = True"
| "slot_ok subs q (Sub p) = (p < length subs \<and> take (length q) (nibbles (sub_sid (subs ! p))) = q \<and> abbreviate_len (subs ! p) = int (length q))"
| "slot_ok subs q (Tree ts) = (length ts = 16 \<and> slots_ok subs q 0 ts \<and> (\<exists>a b. a \<noteq> b \<and> {a, b} \<subseteq> (\<Union>t \<in> set ts. ptrs t)))"
| "slots_ok subs q i [] = True"
| "slots_ok subs q i (s # ss) = (slot_ok subs (q @ [i]) s \<and> slots_ok subs q (Suc i) ss)"

definition node_ok :: "subscriber list \<Rightarrow> nat list \<Rightarrow> slot list \<Rightarrow> bool" where
  "node_ok subs q ts \<longleftrightarrow> length ts = 16 \<and> (\<forall>i < 16. slot_ok subs (q @ [i]) (ts ! i))"

abbreviation node_ptrs :: "slot list \<Rightarrow> nat set" where
  "node_ptrs ts \<equiv> \<Union>t \<in> set ts. ptrs t"

lemma slots_ok_iff: "slots_ok subs q k ts \<longleftrightarrow> (\<forall>i < length ts. slot_ok subs (q @ [k + i]) (ts ! i))"
proof (induction ts arbitrary: k)
  case (Cons t ts)
  then show ?case by (auto simp: less_Suc_eq_0_disj)
qed simp

lemma slot_ok_Tree: "slot_ok subs q (Tree ts) \<longleftrightarrow> node_ok subs q ts \<and> (\<exists>a b. a \<noteq> b \<and> {a, b} \<subseteq> node_ptrs ts)"
  by (auto simp: node_ok_def slots_ok_iff)

declare slot_ok.simps(3) [simp del]

lemma node_ptrs_nth: "p \<in> node_ptrs ts \<longleftrightarrow> (\<exists>i < length ts. p \<in> ptrs (ts ! i))"
  by (auto simp: set_conv_nth)

lemma slot_ok_ptrs:
  "slot_ok subs q s \<Longrightarrow> p \<in> ptrs s \<Longrightarrow> p < length subs \<and> take (length q) (nibbles (sub_sid (subs ! p))) = q"
proof (induction s arbitrary: q rule: ptrs.induct)
  case (3 ts)
  then obtain i where i: "i < length ts" "p \<in> ptrs (ts ! i)" by (auto simp: in_set_conv_nth)
  then have "slot_ok subs (q @ [i]) (ts ! i)" using 3(2) by (simp add: slot_ok_Tree node_ok_def)
  then have "p < length subs \<and> take (length (q @ [i])) (nibbles (sub_sid (subs ! p))) = q @ [i]"
    using 3(1)[of "ts ! i" "q @ [i]"] i by simp
  then have "p < length subs" "take (length q) (take (Suc (length q)) (nibbles (sub_sid (subs ! p)))) = take (length q) (q @ [i])" by simp_all
  then show ?case by simp
qed simp_all

text \<open>Where in a node a subscriber is.\<close>

lemma node_ok_ptrs:
  assumes n: "node_ok subs q ts" and p: "i < 16" "p \<in> ptrs (ts ! i)"
  shows "p < length subs" "take (length q) (nibbles (sub_sid (subs ! p))) = q" "length q < length (nibbles (sub_sid (subs ! p)))"
    "nibbles (sub_sid (subs ! p)) ! length q = i"
proof -
  let ?n = "nibbles (sub_sid (subs ! p))"
  have s: "p < length subs" "take (Suc (length q)) ?n = q @ [i]"
    using slot_ok_ptrs[of subs "q @ [i]" "ts ! i" p] n p by (simp_all add: node_ok_def)
  have "length (take (Suc (length q)) ?n) = Suc (length q)" unfolding s(2) by simp
  then show l: "length q < length ?n" by simp
  then have "take (length q) ?n @ [?n ! length q] = q @ [i]" using s(2) by (simp add: take_Suc_conv_app_nth)
  then show "take (length q) ?n = q" "?n ! length q = i" "p < length subs" using s(1) by simp_all
qed

lemma node_ptrs_here:
  assumes n: "node_ok subs q ts" and p: "p \<in> node_ptrs ts"
  shows "nibbles (sub_sid (subs ! p)) ! length q < 16" "p \<in> ptrs (ts ! (nibbles (sub_sid (subs ! p)) ! length q))"
proof -
  obtain i where "i < 16" "p \<in> ptrs (ts ! i)" using n p unfolding node_ptrs_nth by (auto simp: node_ok_def)
  then show "nibbles (sub_sid (subs ! p)) ! length q < 16" "p \<in> ptrs (ts ! (nibbles (sub_sid (subs ! p)) ! length q))"
    using node_ok_ptrs[OF n] by simp_all
qed

text \<open>Well-formedness looks only at the subscribers of the tree.\<close>

lemma slot_ok_cong:
  "slot_ok subs q s \<Longrightarrow> length subs \<le> length subs' \<Longrightarrow> (\<And>p. p \<in> ptrs s \<Longrightarrow> subs' ! p = subs ! p) \<Longrightarrow> slot_ok subs' q s"
proof (induction s arbitrary: q rule: ptrs.induct)
  case (3 ts)
  have "slot_ok subs' (q @ [i]) (ts ! i)" if "i < 16" for i
  proof -
    have "ts ! i \<in> set ts" "slot_ok subs (q @ [i]) (ts ! i)" using that 3(2) by (simp_all add: slot_ok_Tree node_ok_def)
    then show ?thesis using 3(1)[of "ts ! i" "q @ [i]"] 3(3,4) by auto
  qed
  then show ?case using 3(2) by (auto simp: slot_ok_Tree node_ok_def)
qed simp_all

subsection \<open>Looking up\<close>

text \<open>The subscribers of a tree whose ids begin with the first \<open>len\<close> bytes of \<open>s\<close>.\<close>

definition matching :: "subscriber list \<Rightarrow> nat set \<Rightarrow> byte list \<Rightarrow> nat \<Rightarrow> nat set" where
  "matching subs P s len = {p \<in> P. take len (sub_sid (subs ! p)) = take len s}"

lemma matching_path:
  assumes "p \<in> matching subs P s len" "n \<le> 2 * len"
  shows "take n (nibbles (sub_sid (subs ! p))) = take n (nibbles s)"
proof -
  have "take (2 * len) (nibbles (sub_sid (subs ! p))) = take (2 * len) (nibbles s)"
    using assms(1) by (simp add: matching_def nibbles_take)
  then show ?thesis using assms(2) by (metis min.absorb1 take_take)
qed

lemma matching_one: "matching subs {p} s len = (if take len (sub_sid (subs ! p)) = take len s then {p} else {})"
  by (auto simp: matching_def)

text \<open>Only the slot for the next nibble matters.\<close>

lemma matching_slot:
  assumes n: "node_ok subs q ts" and q: "length q < 2 * len" "len \<le> length s"
  shows "matching subs (node_ptrs ts) s len = matching subs (ptrs (ts ! (nibbles s ! length q))) s len"
proof
  have i: "nibbles s ! length q < 16" using nibbles_nth_less[of "length q" s] q by simp
  show "matching subs (ptrs (ts ! (nibbles s ! length q))) s len \<subseteq> matching subs (node_ptrs ts) s len"
    using i n by (auto simp: matching_def node_ok_def)
  show "matching subs (node_ptrs ts) s len \<subseteq> matching subs (ptrs (ts ! (nibbles s ! length q))) s len"
  proof
    fix p assume p: "p \<in> matching subs (node_ptrs ts) s len"
    have "take (Suc (length q)) (nibbles (sub_sid (subs ! p))) ! length q = take (Suc (length q)) (nibbles s) ! length q"
      using matching_path[OF p, of "Suc (length q)"] q by simp
    then have "nibbles (sub_sid (subs ! p)) ! length q = nibbles s ! length q" by simp
    moreover have "p \<in> node_ptrs ts" using p by (simp add: matching_def)
    ultimately have "p \<in> ptrs (ts ! (nibbles s ! length q))" using node_ptrs_here(2)[OF n] by metis
    then show "p \<in> matching subs (ptrs (ts ! (nibbles s ! length q))) s len" using p by (simp add: matching_def)
  qed
qed

definition the_one :: "'a set \<Rightarrow> 'a option \<Rightarrow> bool" where
  "the_one P r \<longleftrightarrow> (case r of Some p \<Rightarrow> P = {p} | None \<Rightarrow> \<not> (\<exists>p. P = {p}))"

lemma node_sub_sid:
  assumes "node_ok subs q ts" "i < 16" "ts ! i = Sub p"
  shows "p < length subs" "abbreviate_len (subs ! p) = int (length q) + 1" "take (length q) (nibbles (sub_sid (subs ! p))) = q"
    "nibbles (sub_sid (subs ! p)) ! length q = i"
  using node_ok_ptrs[of subs q ts i p] assms by (auto simp: node_ok_def)

lemma find_loop_lookup:
  assumes "node_ok subs q slots" "q = take (length q) (nibbles s)" "length q < 2 * len" "len \<le> length s"
    "\<forall>x \<in> set subs. len \<le> length (sub_sid x)"
  shows "\<exists>r. find_loop s len False (length q) slots subs = Some (r, slots, subs) \<and> the_one (matching subs (node_ptrs slots) s len) r"
  using assms
proof (induction "2 * len - length q" arbitrary: q slots rule: less_induct)
  case less
  let ?i = "nibbles s ! length q"
  have i: "get_nibble s (length q) = Some ?i" "?i < 16" using get_nibble nibbles_nth_less less.prems(3,4) by simp_all
  have len: "length slots = 16" using less.prems(1) by (simp add: node_ok_def)
  have qi: "take (Suc (length q)) (nibbles s) = q @ [?i]"
    using less.prems(2-4) by (metis le_trans less_le_trans mult_le_mono2 nibbles_length take_Suc_conv_app_nth)
  have c: "c_get slots (int ?i) = Some (slots ! ?i)" using i len by (simp add: c_get_def)
  note m = matching_slot[OF less.prems(1,3,4)]
  note f = find_loop.simps[of s len False "length q" slots subs]
  show ?case
  proof (cases "slots ! ?i")
    case Empty
    then have "the_one (matching subs (node_ptrs slots) s len) None" unfolding m by (simp add: matching_def the_one_def)
    then show ?thesis using f i c Empty by simp
  next
    case (Sub p)
    have p: "p < length subs" using node_sub_sid[OF less.prems(1) i(2) Sub] by simp
    then have l: "len \<le> length (sub_sid (subs ! p))" using less.prems(5) by simp
    have g: "c_get subs (int p) = Some (subs ! p)" "c_getn (sub_sid (subs ! p)) 0 (int len) = Some (take len (sub_sid (subs ! p)))"
      "c_getn s 0 (int len) = Some (take len s)" using p l less.prems(4) by (simp_all add: c_get_def c_getn_def)
    have "the_one (matching subs (node_ptrs slots) s len) (if take len (sub_sid (subs ! p)) = take len s then Some p else None)"
      unfolding m Sub ptrs.simps matching_one by (simp add: the_one_def)
    then show ?thesis using f i c Sub g by (cases "take len (sub_sid (subs ! p)) = take len s") simp_all
  next
    case (Tree t)
    have t: "slot_ok subs (q @ [?i]) (Tree t)" using less.prems(1) i(2) Tree by (metis node_ok_def)
    then have n: "node_ok subs (q @ [?i]) t" by (simp add: slot_ok_Tree)
    show ?thesis
    proof (cases "length q + 1 < len * 2")
      case True
      have d: "2 * len - length (q @ [?i]) < 2 * len - length q" using less.prems(3) by simp
      obtain r where "find_loop s len False (length (q @ [?i])) t subs = Some (r, t, subs)" "the_one (matching subs (node_ptrs t) s len) r"
        using less.hyps[OF d n] less.prems(4,5) True qi by auto
      moreover have "slots[?i := Tree t] = slots" using Tree by (metis list_update_id)
      ultimately show ?thesis using f i c Tree True m by simp
    next
      case False
      then have e: "length (q @ [?i]) = 2 * len" using less.prems(3) by simp
      obtain a b where ab: "a \<noteq> b" "a \<in> node_ptrs t" "b \<in> node_ptrs t" using t by (auto simp: slot_ok_Tree)
      have "x \<in> matching subs (node_ptrs t) s len" if x: "x \<in> node_ptrs t" for x
      proof -
        have "take (length (q @ [?i])) (nibbles (sub_sid (subs ! x))) = q @ [?i]"
          using slot_ok_ptrs[OF t, of x] x by simp
        then have "take (2 * len) (nibbles (sub_sid (subs ! x))) = take (2 * len) (nibbles s)" using e qi by simp
        then show ?thesis using x by (simp add: matching_def nibbles_take)
      qed
      then have "a \<in> matching subs (node_ptrs t) s len" "b \<in> matching subs (node_ptrs t) s len" using ab by blast+
      then have "\<nexists>p. matching subs (node_ptrs t) s len = {p}" using ab(1) by fastforce
      then have "the_one (matching subs (node_ptrs slots) s len) None" unfolding m Tree ptrs.simps by (simp add: the_one_def)
      then show ?thesis using f i c Tree False by simp
    qed
  qed
qed

subsection \<open>Inserting\<close>

lemma find_loop_found:
  "find_loop s len False pos slots subs = Some (Some p, slots', subs') \<Longrightarrow>
   find_loop s len True pos slots subs = Some (Some p, slots', subs')"
proof (induction s len False pos slots subs arbitrary: slots' subs' rule: find_loop.induct)
  case (1 s len pos slots subs)
  note f = find_loop.simps[of s len _ pos slots subs]
  obtain i where i: "get_nibble s pos = Some i" using 1(3) unfolding f by (cases "get_nibble s pos") simp_all
  obtain x where x: "c_get slots (int i) = Some x" using 1(3) i unfolding f by (cases "c_get slots (int i)") simp_all
  show ?case
  proof (cases x)
    case Empty
    then show ?thesis using 1(3) i x unfolding f by simp
  next
    case (Sub a)
    then show ?thesis using 1(3) i x unfolding f by (auto simp: bind_eq_Some_conv split: if_splits)
  next
    case (Tree t)
    have l: "pos + 1 < len * 2" using 1(3) i x Tree unfolding f by (simp split: if_splits)
    then obtain r t' u where t: "find_loop s len False (pos + 1) t subs = Some (r, t', u)" "r = Some p" "slots' = slots[i := Tree t']" "subs' = u"
      using 1(3) i x Tree unfolding f by (auto simp: bind_eq_Some_conv)
    then have "find_loop s len True (pos + 1) t subs = Some (Some p, t', u)" using 1(2)[OF i x Tree l] by simp
    then show ?thesis using i x Tree l t unfolding f by simp
  qed
qed

definition grown :: "subscriber list \<Rightarrow> byte list \<Rightarrow> nat set \<Rightarrow> subscriber list \<Rightarrow> bool" where
  "grown subs s P subs' \<longleftrightarrow> length subs' = Suc (length subs) \<and> (\<exists>k. subs' ! length subs = new_subscriber s k) \<and>
     (\<forall>p < length subs. (\<exists>k. subs' ! p = (subs ! p)\<lparr>abbreviate_len := k\<rparr>) \<and> (p \<notin> P \<longrightarrow> subs' ! p = subs ! p))"

lemma node_ok_update:
  assumes "node_ok subs q slots" "i < 16" "slot_ok subs' (q @ [i]) x" "length subs \<le> length subs'"
    "\<And>j p. j < 16 \<Longrightarrow> j \<noteq> i \<Longrightarrow> p \<in> ptrs (slots ! j) \<Longrightarrow> subs' ! p = subs ! p"
  shows "node_ok subs' q (slots[i := x])"
  unfolding node_ok_def
proof (intro conjI allI impI)
  show "length (slots[i := x]) = 16" using assms(1) by (simp add: node_ok_def)
  fix j :: nat assume j: "j < 16"
  show "slot_ok subs' (q @ [j]) (slots[i := x] ! j)"
  proof (cases "j = i")
    case True
    then show ?thesis using assms by (simp add: node_ok_def)
  next
    case False
    then have "slot_ok subs' (q @ [j]) (slots ! j)"
      using assms(1) j by (intro slot_ok_cong[OF _ assms(4)] assms(5)) (simp_all add: node_ok_def)
    then show ?thesis using False by simp
  qed
qed

lemma node_ptrs_update:
  assumes "i < length slots" "ptrs x = insert n (ptrs (slots ! i))"
  shows "node_ptrs (slots[i := x]) = insert n (node_ptrs slots)"
proof -
  have "node_ptrs (slots[i := x]) = ptrs x \<union> node_ptrs (take i slots) \<union> node_ptrs (drop (Suc i) slots)"
    using assms(1) by (auto simp: upd_conv_take_nth_drop)
  moreover have "node_ptrs slots = ptrs (slots ! i) \<union> node_ptrs (take i slots) \<union> node_ptrs (drop (Suc i) slots)"
    using assms(1) by (subst id_take_nth_drop[OF assms(1)]) auto
  ultimately show ?thesis using assms(2) by auto
qed

lemma node_other_slot:
  assumes "node_ok subs q slots" "j < 16" "p \<in> ptrs (slots ! j)" "i < 16" "p \<in> ptrs (slots ! i)"
  shows "i = j"
  using node_ok_ptrs(4)[OF assms(1,2,3)] node_ok_ptrs(4)[OF assms(1,4,5)] by simp

lemma split_node:
  assumes "p < length subs" "take (length q) (nibbles (sub_sid (subs ! p))) = q" "length q < length (nibbles (sub_sid (subs ! p)))"
    "abbreviate_len (subs ! p) = int (length q) + 1"
  shows "node_ok subs q ((replicate 16 Empty)[nibbles (sub_sid (subs ! p)) ! length q := Sub p])"
proof -
  let ?n = "nibbles (sub_sid (subs ! p)) ! length q"
  have "slot_ok subs (q @ [?n]) (Sub p)" using assms by (simp add: take_Suc_conv_app_nth)
  moreover have "node_ok subs q (replicate 16 Empty)" by (simp add: node_ok_def)
  moreover have "?n < 16" using nibble_bound[OF nth_mem[OF assms(3)]] .
  ultimately show ?thesis by (intro node_ok_update[where subs = subs]) simp_all
qed

lemma grown_cong:
  assumes "grown (subs[p := (subs ! p)\<lparr>abbreviate_len := k\<rparr>]) s P subs'" "p < length subs" "p \<in> P"
  shows "grown subs s P subs'"
  unfolding grown_def
proof (intro conjI allI impI)
  fix a assume a: "a < length subs"
  show "\<exists>k. subs' ! a = (subs ! a)\<lparr>abbreviate_len := k\<rparr>" using assms a by (cases "a = p") (fastforce simp: grown_def)+
  assume "a \<notin> P"
  then show "subs' ! a = subs ! a" using assms a by (cases "a = p") (fastforce simp: grown_def)+
qed (use assms in \<open>simp_all add: grown_def\<close>)

lemma keep_abbreviation: "\<exists>k. (x :: subscriber) = x\<lparr>abbreviate_len := k\<rparr>"
  by (rule exI[of _ "abbreviate_len x"]) simp

lemma grown_mono: "grown subs s P subs' \<Longrightarrow> P \<subseteq> Q \<Longrightarrow> grown subs s Q subs'"
  by (auto simp: grown_def)

text \<open>Two different ids differ before their ends.\<close>

lemma same_path_short:
  assumes "length (sub_sid a) = 32" "length (sub_sid b) = 32" "sub_sid a \<noteq> sub_sid b"
    "take n (nibbles (sub_sid a)) = q" "take n (nibbles (sub_sid b)) = q" "n \<le> 64"
  shows "n < 64"
proof (rule ccontr)
  assume "\<not> n < 64"
  then have "n = 2 * 32" using assms(6) by simp
  then have "nibbles (sub_sid a) = nibbles (sub_sid b)" using assms by simp
  then show False using assms(3) by simp
qed

lemma find_loop_create:
  assumes "node_ok subs q slots" "q = take (length q) (nibbles s)" "length q < 64" "length s = 32"
    "\<forall>x \<in> set subs. length (sub_sid x) = 32" "distinct (map sub_sid subs)" "\<forall>p \<in> node_ptrs slots. sub_sid (subs ! p) \<noteq> s"
  shows "\<exists>slots' subs'. find_loop s 32 True (length q) slots subs = Some (Some (length subs), slots', subs') \<and>
    node_ok subs' q slots' \<and> node_ptrs slots' = insert (length subs) (node_ptrs slots) \<and> grown subs s (node_ptrs slots) subs'"
  using assms
proof (induction "64 - length q" arbitrary: q slots subs rule: less_induct)
  case less
  let ?i = "nibbles s ! length q" and ?n = "length subs"
  have i: "get_nibble s (length q) = Some ?i" "?i < 16" using get_nibble nibbles_nth_less less.prems(3,4) by simp_all
  have len: "length slots = 16" using less.prems(1) by (simp add: node_ok_def)
  have qi: "take (Suc (length q)) (nibbles s) = q @ [?i]" "q @ [?i] = take (length (q @ [?i])) (nibbles s)"
    using less.prems(2-4) by (simp_all add: take_Suc_conv_app_nth)
  have c: "c_get slots (int ?i) = Some (slots ! ?i)" using i len by (simp add: c_get_def)
  have in_node: "p \<in> node_ptrs slots" if "p \<in> ptrs (slots ! ?i)" for p using that i(2) len by auto
  have d: "64 - length (q @ [?i]) < 64 - length q" using less.prems(3) by simp
  note f = find_loop.simps[of s 32 True "length q" slots subs]
  have deep: "length (q @ [?i]) < 64" if "a < length subs" "sub_sid (subs ! a) \<noteq> b" "length b = 32"
      "take (Suc (length q)) (nibbles (sub_sid (subs ! a))) = q @ [?i]" "take (Suc (length q)) (nibbles b) = q @ [?i]" for a b
    using same_path_short[of "subs ! a" "(subs ! a)\<lparr>sub_sid := b\<rparr>" "Suc (length q)"] that less.prems(3,5) by simp
  show ?case
  proof (cases "slots ! ?i")
    case Empty
    let ?subs = "subs @ [new_subscriber s (int (length q) + 1)]"
    have "c_getn s 0 (int SID_SIZE) = Some s" using less.prems(4) by (simp add: c_getn_def)
    then have e: "find_loop s 32 True (length q) slots subs = Some (Some ?n, slots[?i := Sub ?n], ?subs)"
      using f i c Empty by simp
    have "node_ok ?subs q (slots[?i := Sub ?n])"
    proof (rule node_ok_update[OF less.prems(1) i(2)])
      show "slot_ok ?subs (q @ [?i]) (Sub ?n)" using qi by (simp add: new_subscriber_def)
      show "?subs ! p = subs ! p" if "j < 16" "p \<in> ptrs (slots ! j)" for j p
        using node_ok_ptrs(1)[OF less.prems(1) that] by (simp add: nth_append)
    qed simp
    moreover have "node_ptrs (slots[?i := Sub ?n]) = insert ?n (node_ptrs slots)"
      by (rule node_ptrs_update) (use i(2) len Empty in simp_all)
    moreover have "grown subs s (node_ptrs slots) ?subs" by (auto simp: grown_def nth_append keep_abbreviation)
    ultimately show ?thesis using e by blast
  next
    case (Sub p)
    note p = node_sub_sid[OF less.prems(1) i(2) Sub]
    have ne: "sub_sid (subs ! p) \<noteq> s" "length (sub_sid (subs ! p)) = 32"
      using bspec[OF less.prems(7) in_node[of p]] less.prems(5) Sub p(1) by simp_all
    have tp: "take (Suc (length q)) (nibbles (sub_sid (subs ! p))) = q @ [?i]"
      using p(3,4) ne(2) less.prems(3) by (simp add: take_Suc_conv_app_nth)
    have l: "length (q @ [?i]) < 64" using deep[OF p(1) ne(1) less.prems(4) tp qi(1)] .
    let ?m = "nibbles (sub_sid (subs ! p)) ! Suc (length q)"
    define t where "t = (replicate 16 Empty)[?m := Sub p]"
    define u where "u = subs[p := (subs ! p)\<lparr>abbreviate_len := int (length q) + 2\<rparr>]"
    have u: "u ! p = (subs ! p)\<lparr>abbreviate_len := int (length q) + 2\<rparr>" "length u = length subs" "map sub_sid u = map sub_sid subs"
      using p(1) by (simp_all add: u_def map_update) (metis list_update_id nth_map)
    have nt: "node_ok u (q @ [?i]) t" "node_ptrs t = {p}"
    proof -
      show "node_ok u (q @ [?i]) t"
        using split_node[of p u "q @ [?i]"] p(1) u tp l ne(2) by (simp add: t_def)
      have "?m < 16" by (rule nibbles_nth_less) (use l ne(2) in simp)
      then show "node_ptrs t = {p}" unfolding t_def by (subst node_ptrs_update[where n = p]) auto
    qed
    obtain t' v where t': "find_loop s 32 True (length (q @ [?i])) t u = Some (Some ?n, t', v)" "node_ok v (q @ [?i]) t'"
      "node_ptrs t' = insert ?n {p}" "grown u s {p} v"
    proof -
      have "\<forall>x \<in> set u. length (sub_sid x) = 32" using less.prems(5) p(1) by (auto simp: u_def dest!: set_update_subset_insert[THEN subsetD])
      then show ?thesis using less.hyps[OF d nt(1) qi(2) l less.prems(4)] less.prems(6) u ne(1) nt(2) that by auto
    qed
    have r: "get_nibble (sub_sid (subs ! p)) (length q + 1) = Some ?m" using get_nibble[of "Suc (length q)" "sub_sid (subs ! p)"] l ne(2) by simp
    have g: "c_get subs (int p) = Some (subs ! p)" "c_getn (sub_sid (subs ! p)) 0 (int 32) = Some (sub_sid (subs ! p))" "c_getn s 0 (int 32) = Some s"
      using p(1) ne(2) less.prems(4) by (simp_all add: c_get_def c_getn_def)
    have "subs[p := (subs ! p)\<lparr>abbreviate_len := 2 + int (length q)\<rparr>] = u" by (simp add: u_def add.commute)
    then have e: "find_loop s 32 True (length q) slots subs = Some (Some ?n, slots[?i := Tree t'], v)"
      using f i c Sub g ne(1) r l t'(1) by (simp add: Let_def t_def[symmetric])
    have gr: "grown subs s {p} v" using grown_cong[OF t'(4)[unfolded u_def] p(1)] by simp
    have "node_ok v q (slots[?i := Tree t'])"
    proof (rule node_ok_update[OF less.prems(1) i(2)])
      show "slot_ok v (q @ [?i]) (Tree t')" unfolding slot_ok_Tree using t'(2,3) p(1) by (intro conjI exI[of _ p] exI[of _ ?n]) auto
      show "length subs \<le> length v" using gr by (simp add: grown_def)
      show "v ! a = subs ! a" if "j < 16" "j \<noteq> ?i" "a \<in> ptrs (slots ! j)" for j a
        using node_ok_ptrs(1)[OF less.prems(1) that(1,3)] node_other_slot[OF less.prems(1) that(1,3) i(2)] that(2) gr Sub by (auto simp: grown_def)
    qed
    moreover have "node_ptrs (slots[?i := Tree t']) = insert ?n (node_ptrs slots)"
      by (rule node_ptrs_update) (use i(2) len Sub t'(3) in auto)
    moreover have "grown subs s (node_ptrs slots) v" by (rule grown_mono[OF gr]) (use in_node[of p] Sub in auto)
    ultimately show ?thesis using e by blast
  next
    case (Tree t)
    have t: "slot_ok subs (q @ [?i]) (Tree t)" using less.prems(1) i(2) Tree by (metis node_ok_def)
    then have n: "node_ok subs (q @ [?i]) t" by (simp add: slot_ok_Tree)
    obtain a b where ab: "a \<noteq> b" "a \<in> node_ptrs t" "b \<in> node_ptrs t" using t by (auto simp: slot_ok_Tree)
    have path: "x < length subs \<and> take (Suc (length q)) (nibbles (sub_sid (subs ! x))) = q @ [?i]" if "x \<in> node_ptrs t" for x
      using slot_ok_ptrs[OF t, of x] that by simp
    have "sub_sid (subs ! a) \<noteq> sub_sid (subs ! b)"
      using less.prems(6) ab(1) path[OF ab(2)] path[OF ab(3)] by (metis length_map nth_eq_iff_index_eq nth_map)
    then have l: "length (q @ [?i]) < 64"
      using deep[of a "sub_sid (subs ! b)"] path[OF ab(2)] path[OF ab(3)] less.prems(5) by simp
    have "\<forall>p \<in> node_ptrs t. sub_sid (subs ! p) \<noteq> s" using bspec[OF less.prems(7) in_node] Tree by simp
    then obtain t' v where t': "find_loop s 32 True (length (q @ [?i])) t subs = Some (Some ?n, t', v)" "node_ok v (q @ [?i]) t'"
      "node_ptrs t' = insert ?n (node_ptrs t)" "grown subs s (node_ptrs t) v"
      using less.hyps[OF d n qi(2) l less.prems(4-6)] by auto
    have e: "find_loop s 32 True (length q) slots subs = Some (Some ?n, slots[?i := Tree t'], v)"
      using f i c Tree l t'(1) by simp
    have "node_ok v q (slots[?i := Tree t'])"
    proof (rule node_ok_update[OF less.prems(1) i(2)])
      show "slot_ok v (q @ [?i]) (Tree t')" using t'(2,3) ab by (auto simp: slot_ok_Tree)
      show "length subs \<le> length v" using t'(4) by (simp add: grown_def)
      show "v ! x = subs ! x" if "j < 16" "j \<noteq> ?i" "x \<in> ptrs (slots ! j)" for j x
        using node_ok_ptrs(1)[OF less.prems(1) that(1,3)] node_other_slot[OF less.prems(1) that(1,3) i(2)] that(2) t'(4) Tree
        unfolding grown_def by auto
    qed
    moreover have "node_ptrs (slots[?i := Tree t']) = insert ?n (node_ptrs slots)"
      by (rule node_ptrs_update) (use i(2) len Tree t'(3) in simp_all)
    moreover have "grown subs s (node_ptrs slots) v" by (rule grown_mono[OF t'(4)]) (use in_node Tree in auto)
    ultimately show ?thesis using e by blast
  qed
qed

subsection \<open>The table\<close>

definition table_ok :: "subscriber_table \<Rightarrow> bool" where
  "table_ok st \<longleftrightarrow> node_ok (subscribers st) [] (root st) \<and> node_ptrs (root st) = {..<length (subscribers st)} \<and>
     (\<forall>x \<in> set (subscribers st). length (sub_sid x) = SID_SIZE) \<and> distinct (map sub_sid (subscribers st))"

abbreviation known :: "subscriber_table \<Rightarrow> byte list list" where
  "known st \<equiv> map sub_sid (subscribers st)"

definition empty_table :: subscriber_table where
  "empty_table = \<lparr>root = replicate 16 Empty, subscribers = []\<rparr>"

lemma empty_table_ok: "table_ok empty_table"
  by (simp add: table_ok_def empty_table_def node_ok_def)

lemma find_abbreviation:
  assumes ok: "table_ok st" and len: "0 < len" "len \<le> SID_SIZE" "len \<le> length s" and c: "create \<longrightarrow> len < SID_SIZE"
  shows "\<exists>r. find_subscriber st s len create = Some (r, st) \<and>
    the_one {p. p < length (known st) \<and> take len (known st ! p) = take len s} r"
proof -
  have n: "node_ok (subscribers st) [] (root st)" and p: "node_ptrs (root st) = {..<length (subscribers st)}"
    and l: "\<forall>x \<in> set (subscribers st). len \<le> length (sub_sid x)" using ok len(2) by (auto simp: table_ok_def)
  obtain r where r: "find_loop s len False 0 (root st) (subscribers st) = Some (r, root st, subscribers st)"
    "the_one (matching (subscribers st) (node_ptrs (root st)) s len) r"
    using find_loop_lookup[OF n, of s len] len l by auto
  have "(create \<and> len = SID_SIZE) = False" using c by auto
  then have "find_subscriber st s len create = Some (r, st)" unfolding find_subscriber_def Let_def by (simp only: r(1) Option.bind.bind_lunit prod.case) simp
  moreover have "matching (subscribers st) (node_ptrs (root st)) s len = {p. p < length (known st) \<and> take len (known st ! p) = take len s}"
    unfolding p matching_def by auto
  ultimately show ?thesis using r(2) by simp
qed

lemma grown_known: "grown subs s P subs' \<Longrightarrow> map sub_sid subs' = map sub_sid subs @ [s]"
proof (rule nth_equalityI)
  assume g: "grown subs s P subs'"
  then show "length (map sub_sid subs') = length (map sub_sid subs @ [s])" by (simp add: grown_def)
  fix i assume "i < length (map sub_sid subs')"
  then have "i < length subs \<or> i = length subs" using g by (auto simp: grown_def)
  then show "map sub_sid subs' ! i = (map sub_sid subs @ [s]) ! i"
    using g by (auto simp: grown_def nth_append new_subscriber_def)
qed

lemma find_known:
  assumes ok: "table_ok st" and p: "p < length (known st)"
  shows "find_subscriber st (known st ! p) SID_SIZE create = Some (Some p, st)"
proof -
  let ?s = "known st ! p"
  have s: "length ?s = SID_SIZE" using ok p by (simp add: table_ok_def)
  obtain r where r: "find_subscriber st ?s SID_SIZE False = Some (r, st)"
    "the_one {q. q < length (known st) \<and> take SID_SIZE (known st ! q) = take SID_SIZE ?s} r"
    using find_abbreviation[OF ok, of SID_SIZE ?s False] s by auto
  have "{q. q < length (known st) \<and> take SID_SIZE (known st ! q) = take SID_SIZE ?s} = {p}"
  proof -
    have "take SID_SIZE (known st ! q) = known st ! q" if "q < length (known st)" for q using ok that by (simp add: table_ok_def)
    moreover have "q = p" if "q < length (known st)" "known st ! q = ?s" for q
      using ok p that nth_eq_iff_index_eq[of "known st" q p] by (simp add: table_ok_def)
    ultimately show ?thesis using p by auto
  qed
  then have "r = Some p" using r(2) by (auto simp: the_one_def split: option.splits)
  then obtain sl su where f: "find_loop ?s SID_SIZE False 0 (root st) (subscribers st) = Some (Some p, sl, su)"
    "st\<lparr>root := sl, subscribers := su\<rparr> = st" using r(1) by (auto simp: find_subscriber_def bind_eq_Some_conv)
  then show ?thesis using find_loop_found[OF f(1)] by (cases create) (simp_all add: find_subscriber_def)
qed

lemma find_new:
  assumes ok: "table_ok st" and s: "length s = SID_SIZE" "s \<notin> set (known st)"
  shows "\<exists>st'. find_subscriber st s SID_SIZE True = Some (Some (length (known st)), st') \<and> table_ok st' \<and>
    grown (subscribers st) s UNIV (subscribers st')"
proof -
  have n: "node_ok (subscribers st) [] (root st)" and p: "node_ptrs (root st) = {..<length (subscribers st)}"
    and l: "\<forall>x \<in> set (subscribers st). length (sub_sid x) = SID_SIZE" and d: "distinct (known st)" using ok by (simp_all add: table_ok_def)
  have "\<forall>p \<in> node_ptrs (root st). sub_sid (subscribers st ! p) \<noteq> s" unfolding p using s(2) by auto
  then obtain slots subs where f: "find_loop s SID_SIZE True 0 (root st) (subscribers st) = Some (Some (length (known st)), slots, subs)"
    "node_ok subs [] slots" "node_ptrs slots = insert (length (known st)) (node_ptrs (root st))" "grown (subscribers st) s (node_ptrs (root st)) subs"
    using find_loop_create[OF n _ _ s(1) l d] by auto
  have g: "grown (subscribers st) s UNIV subs" by (rule grown_mono[OF f(4)]) simp
  have k: "map sub_sid subs = known st @ [s]" by (rule grown_known[OF g])
  have "\<forall>x \<in> set subs. length (sub_sid x) = SID_SIZE"
  proof
    fix x assume "x \<in> set subs"
    then have "sub_sid x \<in> set (known st @ [s])" unfolding k[symmetric] by simp
    then show "length (sub_sid x) = SID_SIZE" using l s(1) by auto
  qed
  moreover have "{..<length subs} = insert (length (known st)) {..<length (subscribers st)}" using g by (simp add: grown_def lessThan_Suc)
  moreover have "distinct (map sub_sid subs)" unfolding k using d s(2) by simp
  ultimately have "table_ok (st\<lparr>root := slots, subscribers := subs\<rparr>)" using f(2,3) p by (simp add: table_ok_def)
  then show ?thesis using f(1) g by (intro exI[of _ "st\<lparr>root := slots, subscribers := subs\<rparr>"]) (simp add: find_subscriber_def)
qed

subsection \<open>Abbreviation lengths\<close>

lemma abbreviation_slot:
  "slot_ok subs q s \<Longrightarrow> p \<in> ptrs s \<Longrightarrow> \<forall>a \<in> ptrs s. length q \<le> length (nibbles (sub_sid (subs ! a))) \<Longrightarrow>
   \<exists>n. abbreviate_len (subs ! p) = int n \<and> length q \<le> n \<and> n \<le> length (nibbles (sub_sid (subs ! p))) \<and>
     (\<forall>a \<in> ptrs s. a \<noteq> p \<longrightarrow> take n (nibbles (sub_sid (subs ! a))) \<noteq> take n (nibbles (sub_sid (subs ! p)))) \<and>
     (length q < n \<longrightarrow> (\<exists>a \<in> ptrs s. a \<noteq> p \<and> take (n - 1) (nibbles (sub_sid (subs ! a))) = take (n - 1) (nibbles (sub_sid (subs ! p)))))"
proof (induction s arbitrary: q rule: ptrs.induct)
  case (3 ts)
  let ?nib = "\<lambda>a. nibbles (sub_sid (subs ! a))"
  have n: "node_ok subs q ts" using 3(2) by (simp add: slot_ok_Tree)
  obtain i where i: "i < 16" "p \<in> ptrs (ts ! i)" using 3(3) n unfolding ptrs.simps node_ptrs_nth by (auto simp: node_ok_def)
  have here: "length q < length (?nib a)" "?nib a ! length q = i" "take (length q) (?nib a) = q" if "a \<in> ptrs (ts ! i)" for a
    using node_ok_ptrs[OF n i(1) that] by simp_all
  have "ts ! i \<in> set ts" using i(1) n by (simp add: node_ok_def)
  moreover have "slot_ok subs (q @ [i]) (ts ! i)" using n i(1) by (simp add: node_ok_def)
  moreover have "\<forall>a \<in> ptrs (ts ! i). length (q @ [i]) \<le> length (?nib a)" using here(1) by (simp add: Suc_leI)
  ultimately obtain k where k: "abbreviate_len (subs ! p) = int k" "Suc (length q) \<le> k" "k \<le> length (?nib p)"
      "\<forall>a \<in> ptrs (ts ! i). a \<noteq> p \<longrightarrow> take k (?nib a) \<noteq> take k (?nib p)"
      "Suc (length q) < k \<longrightarrow> (\<exists>a \<in> ptrs (ts ! i). a \<noteq> p \<and> take (k - 1) (?nib a) = take (k - 1) (?nib p))"
    using 3(1)[of "ts ! i" "q @ [i]"] i(2) by auto
  have "take k (?nib a) \<noteq> take k (?nib p)" if a: "a \<in> node_ptrs ts" "a \<noteq> p" for a
  proof (cases "?nib a ! length q = i")
    case True
    then show ?thesis using k(4) a node_ptrs_here(2)[OF n a(1)] by auto
  next
    case False
    then have "take k (?nib a) ! length q \<noteq> take k (?nib p) ! length q" using k(2) here(2)[OF i(2)] by simp
    then show ?thesis by auto
  qed
  moreover have "\<exists>a \<in> node_ptrs ts. a \<noteq> p \<and> take (k - 1) (?nib a) = take (k - 1) (?nib p)"
  proof (cases "Suc (length q) < k")
    case True
    then show ?thesis using k(5) \<open>ts ! i \<in> set ts\<close> by auto
  next
    case False
    then have e: "k - 1 = length q" using k(2) by simp
    obtain a where a: "a \<in> node_ptrs ts" "a \<noteq> p" using 3(2) unfolding slot_ok_Tree by (metis insert_subset)
    obtain j where "j < 16" "a \<in> ptrs (ts ! j)" using a(1) n unfolding node_ptrs_nth by (auto simp: node_ok_def)
    then have "take (length q) (?nib a) = q" by (rule node_ok_ptrs(2)[OF n])
    then show ?thesis using a here(3)[OF i(2)] e by auto
  qed
  ultimately show ?case using k(1-3) unfolding ptrs.simps by (intro exI[of _ k]) auto
qed (auto simp: min_def)

definition shares :: "nat \<Rightarrow> byte list \<Rightarrow> byte list \<Rightarrow> bool" where
  "shares n a b \<longleftrightarrow> take n (nibbles a) = take n (nibbles b)"

lemma abbreviation_least:
  assumes ok: "table_ok st" and p: "p < length (known st)"
  shows "\<exists>n. abbreviate_len (subscribers st ! p) = int n \<and> 0 < n \<and> n \<le> 2 * SID_SIZE \<and>
    (\<forall>a < length (known st). a \<noteq> p \<longrightarrow> \<not> shares n (known st ! a) (known st ! p)) \<and>
    (1 < n \<longrightarrow> (\<exists>a < length (known st). a \<noteq> p \<and> shares (n - 1) (known st ! a) (known st ! p)))"
proof -
  let ?subs = "subscribers st" let ?nib = "\<lambda>a. nibbles (sub_sid (?subs ! a))"
  have n: "node_ok ?subs [] (root st)" and P: "node_ptrs (root st) = {..<length ?subs}" using ok by (simp_all add: table_ok_def)
  have l: "length (?nib a) = 64" if "a < length ?subs" for a using ok that by (simp add: table_ok_def)
  obtain i where i: "i < 16" "p \<in> ptrs (root st ! i)" using p n P node_ptrs_nth[of p "root st"] by (auto simp: node_ok_def)
  have s: "slot_ok ?subs [i] (root st ! i)" using n i(1) by (simp add: node_ok_def)
  have sub: "a < length ?subs" "?nib a ! 0 = i" if "a \<in> ptrs (root st ! i)" for a using node_ok_ptrs(1,4)[OF n i(1) that] by simp_all
  obtain k where k: "abbreviate_len (?subs ! p) = int k" "1 \<le> k" "k \<le> length (?nib p)"
      "\<forall>a \<in> ptrs (root st ! i). a \<noteq> p \<longrightarrow> take k (?nib a) \<noteq> take k (?nib p)"
      "1 < k \<longrightarrow> (\<exists>a \<in> ptrs (root st ! i). a \<noteq> p \<and> take (k - 1) (?nib a) = take (k - 1) (?nib p))"
    using abbreviation_slot[OF s i(2)] l sub(1) by auto
  have "take k (?nib a) \<noteq> take k (?nib p)" if a: "a < length ?subs" "a \<noteq> p" for a
  proof (cases "?nib a ! 0 = i")
    case True
    have "a \<in> node_ptrs (root st)" using P a(1) by simp
    then show ?thesis using k(4) a(2) True node_ptrs_here(2)[OF n] by auto
  next
    case False
    then have "take k (?nib a) ! 0 \<noteq> take k (?nib p) ! 0" using k(2) sub(2)[OF i(2)] by simp
    then show ?thesis by metis
  qed
  then have "\<forall>a < length (known st). a \<noteq> p \<longrightarrow> \<not> shares k (known st ! a) (known st ! p)" using p by (simp add: shares_def)
  moreover have "\<exists>a < length (known st). a \<noteq> p \<and> shares (k - 1) (known st ! a) (known st ! p)" if k1: "1 < k"
  proof -
    obtain a where "a \<in> ptrs (root st ! i)" "a \<noteq> p" "take (k - 1) (?nib a) = take (k - 1) (?nib p)" using k(5) k1 by blast
    then show ?thesis using sub(1) p by (intro exI[of _ a]) (simp add: shares_def)
  qed
  moreover have "k \<le> 2 * SID_SIZE" using k(3) l[of p] p by simp
  ultimately show ?thesis using k(1,2) by (intro exI[of _ k]) simp
qed

subsection \<open>Walking the tree\<close>

text \<open>Calling the callback on a list of subscribers until it stops.\<close>

fun run_callback :: "(nat \<Rightarrow> 's \<Rightarrow> (bool \<times> 's) option) \<Rightarrow> nat list \<Rightarrow> 's \<Rightarrow> (bool \<times> 's) option" where
  "run_callback f [] x = Some (False, x)"
| "run_callback f (p # ps) x = do { (stop, x) \<leftarrow> f p x; if stop then Some (True, x) else run_callback f ps x }"

lemma run_callback_append:
  "run_callback f (ps @ qs) x = do { (stop, x) \<leftarrow> run_callback f ps x; if stop then Some (True, x) else run_callback f qs x }"
proof (induction ps arbitrary: x)
  case (Cons p ps)
  then show ?case by (cases "f p x") auto
qed simp

fun flat :: "slot \<Rightarrow> nat list" where
  "flat Empty = []"
| "flat (Sub p) = [p]"
| "flat (Tree ts) = concat (map flat ts)"

lemma set_flat [simp]: "set (flat s) = ptrs s"
  by (induction s rule: flat.induct) auto

text \<open>The subscribers along a path, and those from a path on.\<close>

fun along :: "nat list \<Rightarrow> slot list \<Rightarrow> nat list" where
  "along [] slots = concat (map flat slots)"
| "along (n # path) slots = (case slots ! n of Tree t \<Rightarrow> along path t | s \<Rightarrow> flat s)"

fun onward :: "nat list \<Rightarrow> slot list \<Rightarrow> nat list" where
  "onward [] slots = concat (map flat slots)"
| "onward (n # path) slots = (case slots ! n of Tree t \<Rightarrow> onward path t | s \<Rightarrow> flat s) @ concat (map flat (drop (Suc n) slots))"

fun full_nodes :: "slot \<Rightarrow> bool" where
  "full_nodes (Tree ts) = (length ts = 16 \<and> (\<forall>t \<in> set ts. full_nodes t))"
| "full_nodes s = True"

lemma slot_ok_full: "slot_ok subs q s \<Longrightarrow> full_nodes s"
proof (induction s arbitrary: q rule: ptrs.induct)
  case (3 ts)
  then show ?case by (fastforce simp: slot_ok_Tree node_ok_def in_set_conv_nth)
qed simp_all

lemma node_ok_full: "node_ok subs q ts \<Longrightarrow> full_nodes (Tree ts)"
  by (auto simp: node_ok_def in_set_conv_nth) (use slot_ok_full in blast)

lemma walk_loop_Cons:
  "walk_loop f (s # slots) pos start m fin k x = do {
     (stop, x) \<leftarrow> (case s of Tree t \<Rightarrow> walk_tree f t (pos + 1) start m fin k x | Sub p \<Rightarrow> f p x | Empty \<Rightarrow> Some (False, x));
     if stop then Some (True, x) else walk_loop f slots pos None m fin k x }"
  by simp

declare walk_loop.simps(2) [simp del] walk_tree.simps [simp del]

lemma walk_everything:
  "full_nodes (Tree slots) \<Longrightarrow> start = None \<or> m * 2 \<le> pos \<Longrightarrow> fin = None \<or> k * 2 \<le> pos \<Longrightarrow>
   walk_tree f slots pos start m fin k x = run_callback f (concat (map flat slots)) x"
  "\<forall>t \<in> set slots. full_nodes t \<Longrightarrow> start = None \<or> m * 2 \<le> pos \<Longrightarrow> fin = None \<or> k * 2 \<le> pos \<Longrightarrow>
   walk_loop f slots pos start m fin k x = run_callback f (concat (map flat slots)) x"
proof (induction f slots pos start m fin k x and f slots pos start m fin k x rule: walk_tree_walk_loop.induct)
  case (1 f slots pos start m e k x)
  have "walk_first start m pos = Some 0" "walk_last e k pos = Some 16"
    using 1(3,4) by (auto simp: walk_first_def walk_last_def split: option.split)
  then show ?case using 1 by (simp add: walk_tree.simps)
next
  case (3 f s slots pos start m e k x)
  have "(case s of Tree t \<Rightarrow> walk_tree f t (pos + 1) start m e k x | Sub p \<Rightarrow> f p x | Empty \<Rightarrow> Some (False, x)) = run_callback f (flat s) x"
  proof (cases s)
    case (Sub p)
    then show ?thesis by (cases "f p x") auto
  next
    case (Tree t)
    then show ?thesis using 3(1)[OF Tree] 3(3-5) by auto
  qed simp
  note s = this
  show ?case
  proof (cases "run_callback f (flat s) x")
    case None
    then show ?thesis unfolding walk_loop_Cons s by (simp add: run_callback_append)
  next
    case (Some y)
    obtain stop z where y: "y = (stop, z)" by force
    have "\<not> stop \<Longrightarrow> walk_loop f slots pos None m e k z = run_callback f (concat (map flat slots)) z"
      using 3(2)[OF s[unfolded Some] y[symmetric]] 3(3,5) by simp
    then show ?thesis unfolding walk_loop_Cons s Some y by (simp add: run_callback_append Some y)
  qed
qed simp

lemma bind_stop: "Option.bind g (\<lambda>(stop, x). if stop then Some (True, x) else Some (False, x)) = g"
  by (cases g) auto

lemma path_step: "pos < 2 * m \<Longrightarrow> m \<le> length s \<Longrightarrow>
  drop pos (take (2 * m) (nibbles s)) = nibbles s ! pos # drop (Suc pos) (take (2 * m) (nibbles s))"
  using Cons_nth_drop_Suc[of pos "take (2 * m) (nibbles s)"] by simp

lemma walk_slot:
  assumes "\<And>t. s = Tree t \<Longrightarrow> walk_tree f t (pos + 1) start m fin k x = run_callback f (g t) x"
  shows "(case s of Tree t \<Rightarrow> walk_tree f t (pos + 1) start m fin k x | Sub p \<Rightarrow> f p x | Empty \<Rightarrow> Some (False, x)) =
    run_callback f (case s of Tree t \<Rightarrow> g t | s \<Rightarrow> flat s) x"
proof (cases s)
  case (Sub p)
  then show ?thesis by (cases "f p x") auto
qed (use assms in simp_all)

lemma walk_along:
  "full_nodes (Tree slots) \<Longrightarrow> pos \<le> 2 * m \<Longrightarrow> m \<le> length s \<Longrightarrow>
   walk_tree f slots pos (Some s) m (Some s) m x = run_callback f (along (drop pos (take (2 * m) (nibbles s))) slots) x"
proof (induction "2 * m - pos" arbitrary: pos slots rule: less_induct)
  case less
  show ?case
  proof (cases "pos = 2 * m")
    case True
    then show ?thesis using walk_everything(1)[of slots "Some s" m pos "Some s" m f x] less.prems by (simp add: mult.commute)
  next
    case False
    then have pos: "pos < 2 * m" using less.prems(2) by simp
    let ?i = "nibbles s ! pos"
    have i: "get_nibble s pos = Some ?i" "?i < length slots" using get_nibble nibbles_nth_less pos less.prems by simp_all
    have "walk_first (Some s) m pos = Some ?i" "walk_last (Some s) m pos = Some (Suc ?i)"
      using i(1) pos by (simp_all add: walk_first_def walk_last_def mult.commute)
    moreover have "drop ?i (take (Suc ?i) slots) = [slots ! ?i]" using i(2) by (simp add: take_Suc_conv_app_nth)
    moreover have "(case slots ! ?i of Tree t \<Rightarrow> walk_tree f t (pos + 1) (Some s) m (Some s) m x | Sub p \<Rightarrow> f p x | Empty \<Rightarrow> Some (False, x)) =
      run_callback f (case slots ! ?i of Tree t \<Rightarrow> along (drop (Suc pos) (take (2 * m) (nibbles s))) t | s \<Rightarrow> flat s) x"
    proof (rule walk_slot)
      fix t assume t: "slots ! ?i = Tree t"
      then have "full_nodes (Tree t)" using less.prems(1) i(2) by (metis full_nodes.simps(1) nth_mem)
      then show "walk_tree f t (pos + 1) (Some s) m (Some s) m x = run_callback f (along (drop (Suc pos) (take (2 * m) (nibbles s))) t) x"
        using less.hyps[of "pos + 1" t] pos less.prems(3) by simp
    qed
    ultimately show ?thesis unfolding path_step[OF pos less.prems(3)]
      by (simp add: walk_tree.simps walk_loop_Cons bind_stop cong: if_cong)
  qed
qed

lemma walk_onward:
  "full_nodes (Tree slots) \<Longrightarrow> pos \<le> 2 * m \<Longrightarrow> m \<le> length s \<Longrightarrow>
   walk_tree f slots pos (Some s) m None k x = run_callback f (onward (drop pos (take (2 * m) (nibbles s))) slots) x"
proof (induction "2 * m - pos" arbitrary: pos slots rule: less_induct)
  case less
  show ?case
  proof (cases "pos = 2 * m")
    case True
    then show ?thesis using walk_everything(1)[of slots "Some s" m pos None k f x] less.prems by (simp add: mult.commute)
  next
    case False
    then have pos: "pos < 2 * m" using less.prems(2) by simp
    let ?i = "nibbles s ! pos"
    have i: "get_nibble s pos = Some ?i" "?i < length slots" "length slots = 16" using get_nibble nibbles_nth_less pos less.prems by simp_all
    have w: "walk_first (Some s) m pos = Some ?i" "walk_last None k pos = Some 16"
      using i(1) pos by (simp_all add: walk_first_def walk_last_def mult.commute)
    have d: "drop ?i (take 16 slots) = slots ! ?i # drop (Suc ?i) slots" using i(2,3) by (simp add: Cons_nth_drop_Suc)
    have c: "(case slots ! ?i of Tree t \<Rightarrow> walk_tree f t (pos + 1) (Some s) m None k x | Sub p \<Rightarrow> f p x | Empty \<Rightarrow> Some (False, x)) =
      run_callback f (case slots ! ?i of Tree t \<Rightarrow> onward (drop (Suc pos) (take (2 * m) (nibbles s))) t | s \<Rightarrow> flat s) x"
    proof (rule walk_slot)
      fix t assume t: "slots ! ?i = Tree t"
      then have "full_nodes (Tree t)" using less.prems(1) i(2) by (metis full_nodes.simps(1) nth_mem)
      then show "walk_tree f t (pos + 1) (Some s) m None k x = run_callback f (onward (drop (Suc pos) (take (2 * m) (nibbles s))) t) x"
        using less.hyps[of "pos + 1" t] pos less.prems(3) by simp
    qed
    have r: "walk_loop f (drop (Suc ?i) slots) pos None m None k y = run_callback f (concat (map flat (drop (Suc ?i) slots))) y" for y
      by (rule walk_everything(2)) (use less.prems(1) in \<open>auto dest: in_set_dropD\<close>)
    have "walk_tree f slots pos (Some s) m None k x = walk_loop f (slots ! ?i # drop (Suc ?i) slots) pos (Some s) m None k x"
      by (subst walk_tree.simps) (simp add: w d)
    then show ?thesis unfolding path_step[OF pos less.prems(3)] walk_loop_Cons c r by (simp only: onward.simps run_callback_append)
  qed
qed

subsection \<open>Order\<close>

lemma append_less_left: "(xs @ ys < xs @ zs) = (ys < (zs :: 'a :: linorder list))"
  by (induction xs) simp_all

lemma lex_less:
  fixes a b :: "'a :: linorder list"
  assumes "take n a = take n b" "n < length a" "n < length b" "a ! n < b ! n"
  shows "a < b"
proof -
  have "a = take n a @ a ! n # drop (Suc n) a" "b = take n a @ b ! n # drop (Suc n) b"
    using assms(1-3) by (metis id_take_nth_drop)+
  then show ?thesis using assms(4) by (metis Cons_less_Cons append_less_left)
qed

lemma byte_order: "(b :: byte) < c \<longleftrightarrow> unat (drop_bit 4 b) < unat (drop_bit 4 c) \<or> unat (drop_bit 4 b) = unat (drop_bit 4 c) \<and> unat (b AND 0xF) < unat (c AND 0xF)"
proof -
  have e: "unat x = 16 * unat (drop_bit 4 x) + unat (x AND 0xF)" for x :: byte
  proof -
    have "unat (drop_bit 4 x) = unat x div 16" by (subst unat_drop_bit_eq) (simp add: drop_bit_eq_div)
    moreover have "x AND 0xF = take_bit 4 x" by (simp add: take_bit_eq_mask mask_eq_exp_minus_1)
    then have "unat (x AND 0xF) = unat x mod 16" by (simp add: unat_mod take_bit_eq_mod)
    ultimately show ?thesis by simp
  qed
  have l: "unat (x AND 0xF) < 16" for x :: byte using nibbles_less(2)[of x] .
  show ?thesis unfolding word_less_nat_alt[of b c] e[of b] e[of c]
    using l[of b] l[of c] by linarith
qed

lemma nibbles_order: "length s = length t \<Longrightarrow> nibbles s < nibbles t \<longleftrightarrow> s < t"
proof (induction s arbitrary: t)
  case (Cons b s)
  then obtain c t' where t: "t = c # t'" by (cases t) auto
  have eq: "b = c \<longleftrightarrow> unat (drop_bit 4 b) = unat (drop_bit 4 c) \<and> unat (b AND 0xF) = unat (c AND 0xF)"
    using hex_join[of b] hex_join[of c] by (metis word_unat_eq_iff)
  show ?case using Cons.IH[of t'] Cons.prems unfolding t by (auto simp: byte_order[of b c] eq)
qed simp

text \<open>Subscribers in earlier slots of a node have smaller ids.\<close>

lemma slot_order:
  assumes n: "node_ok subs q ts" and i: "i < j" "j < 16" and p: "a \<in> ptrs (ts ! i)" "b \<in> ptrs (ts ! j)"
  shows "nibbles (sub_sid (subs ! a)) < nibbles (sub_sid (subs ! b))"
proof -
  have "i < 16" using i by simp
  then show ?thesis
    using node_ok_ptrs[OF n _ p(1)] node_ok_ptrs[OF n i(2) p(2)] i(1) by (intro lex_less[of "length q"]) simp_all
qed

lemma sorted_concat:
  "(\<And>i. i < length xss \<Longrightarrow> sorted_wrt R (xss ! i)) \<Longrightarrow>
   (\<And>i j a b. i < j \<Longrightarrow> j < length xss \<Longrightarrow> a \<in> set (xss ! i) \<Longrightarrow> b \<in> set (xss ! j) \<Longrightarrow> R a b) \<Longrightarrow> sorted_wrt R (concat xss)"
proof (induction xss)
  case (Cons xs xss)
  have "sorted_wrt R xs" using Cons.prems(1)[of 0] by simp
  moreover have "sorted_wrt R (concat xss)"
    by (rule Cons.IH) (use Cons.prems(1)[of "Suc _"] Cons.prems(2)[of "Suc _" "Suc _"] in simp_all)
  moreover have "R a b" if a: "a \<in> set xs" and b: "b \<in> set (concat xss)" for a b
  proof -
    obtain j where "j < length xss" "b \<in> set (xss ! j)" using b by (metis UN_iff in_set_conv_nth set_concat)
    then show ?thesis using Cons.prems(2)[of 0 "Suc j" a b] a by simp
  qed
  ultimately show ?case by (simp add: sorted_wrt_append)
qed simp

abbreviation before :: "subscriber list \<Rightarrow> nat \<Rightarrow> nat \<Rightarrow> bool" where
  "before subs a b \<equiv> nibbles (sub_sid (subs ! a)) < nibbles (sub_sid (subs ! b))"

lemma flat_sorted: "slot_ok subs q s \<Longrightarrow> sorted_wrt (before subs) (flat s)"
proof (induction s arbitrary: q rule: flat.induct)
  case (3 ts)
  have n: "node_ok subs q ts" using 3(2) by (simp add: slot_ok_Tree)
  have "sorted_wrt (before subs) (flat (ts ! i))" if "i < length ts" for i
    using 3(1)[of "ts ! i" "q @ [i]"] that n by (simp add: node_ok_def)
  then show ?case unfolding flat.simps
    by (intro sorted_concat) (use slot_order[OF n] n in \<open>simp_all add: node_ok_def\<close>)
qed simp_all

lemma flat_node_sorted:
  assumes n: "node_ok subs q ts"
  shows "sorted_wrt (before subs) (concat (map flat (drop k ts)))"
proof (rule sorted_concat)
  show "sorted_wrt (before subs) (map flat (drop k ts) ! i)" if "i < length (map flat (drop k ts))" for i
    using flat_sorted[of subs "q @ [k + i]" "ts ! (k + i)"] n that by (simp add: node_ok_def)
  show "before subs a b" if "i < j" "j < length (map flat (drop k ts))" "a \<in> set (map flat (drop k ts) ! i)" "b \<in> set (map flat (drop k ts) ! j)" for i j a b
    using slot_order[OF n, of "k + i" "k + j" a b] n that by (simp add: node_ok_def)
qed

lemma onward_set:
  assumes "node_ok subs q slots" "a \<in> node_ptrs slots" "q = take (length q) (nibbles (sub_sid (subs ! a)))"
  shows "sorted_wrt (before subs) (onward (drop (length q) (nibbles (sub_sid (subs ! a)))) slots) \<and>
    set (onward (drop (length q) (nibbles (sub_sid (subs ! a)))) slots) = {b \<in> node_ptrs slots. \<not> before subs b a}"
  using assms
proof (induction "length (nibbles (sub_sid (subs ! a))) - length q" arbitrary: q slots rule: less_induct)
  case less
  let ?nib = "\<lambda>a. nibbles (sub_sid (subs ! a))" let ?i = "?nib a ! length q"
  let ?rest = "concat (map flat (drop (Suc ?i) slots))"
  note n = less.prems(1)
  have i: "?i < 16" "a \<in> ptrs (slots ! ?i)" using node_ptrs_here[OF n less.prems(2)] by simp_all
  have l: "length q < length (?nib a)" "length slots = 16" using node_ok_ptrs(3)[OF n i] n by (simp_all add: node_ok_def)
  have step: "drop (length q) (?nib a) = ?i # drop (Suc (length q)) (?nib a)" using l(1) by (simp add: Cons_nth_drop_Suc)
  have rest: "set ?rest = {b \<in> node_ptrs slots. ?i < ?nib b ! length q}"
  proof (intro set_eqI iffI)
    fix b assume "b \<in> set ?rest"
    then obtain s where s: "s \<in> set (drop (Suc ?i) slots)" "b \<in> ptrs s" by auto
    then obtain k where k: "k < length (drop (Suc ?i) slots)" "drop (Suc ?i) slots ! k = s" by (auto simp: in_set_conv_nth)
    then have j: "Suc ?i + k < 16" "b \<in> ptrs (slots ! (Suc ?i + k))" using s(2) l(2) by auto
    then show "b \<in> {b \<in> node_ptrs slots. ?i < ?nib b ! length q}"
      using node_ok_ptrs(4)[OF n j] l(2) node_ptrs_nth[of b slots] by auto
  next
    fix b assume b: "b \<in> {b \<in> node_ptrs slots. ?i < ?nib b ! length q}"
    let ?j = "?nib b ! length q"
    have "?j < 16" "b \<in> ptrs (slots ! ?j)" "?i < ?j" using node_ptrs_here[OF n, of b] b by auto
    then have "?j - Suc ?i < length (drop (Suc ?i) slots)" "drop (Suc ?i) slots ! (?j - Suc ?i) = slots ! ?j" using l(2) by auto
    then have "slots ! ?j \<in> set (drop (Suc ?i) slots)" by (metis nth_mem)
    then show "b \<in> set ?rest" using \<open>b \<in> ptrs (slots ! ?j)\<close> by auto
  qed
  have later: "before subs b c" if "b \<in> node_ptrs slots" "c \<in> node_ptrs slots" "?nib b ! length q < ?nib c ! length q" for b c
    using slot_order[OF n that(3) node_ptrs_here(1)[OF n that(2)] node_ptrs_here(2)[OF n that(1)] node_ptrs_here(2)[OF n that(2)]] .
  define first where "first = (case slots ! ?i of Tree t \<Rightarrow> onward (drop (Suc (length q)) (?nib a)) t | s \<Rightarrow> flat s)"
  have "sorted_wrt (before subs) first \<and> set first = {b \<in> ptrs (slots ! ?i). \<not> before subs b a}"
  proof (cases "slots ! ?i")
    case Empty
    then show ?thesis using i(2) by simp
  next
    case (Sub p)
    then have "p = a" using i(2) by simp
    then show ?thesis using Sub by (auto simp: first_def)
  next
    case (Tree t)
    have t: "node_ok subs (q @ [?i]) t" using n i(1) Tree by (metis node_ok_def slot_ok_Tree)
    have "a \<in> node_ptrs t" using i(2) Tree by simp
    moreover have "q @ [?i] = take (length (q @ [?i])) (?nib a)" using less.prems(3) l(1) by (simp add: take_Suc_conv_app_nth)
    moreover have "length (?nib a) - length (q @ [?i]) < length (?nib a) - length q" using l(1) by simp
    ultimately show ?thesis using less.hyps[OF _ t] Tree by (simp add: first_def)
  qed
  then have f: "sorted_wrt (before subs) first" "set first = {b \<in> ptrs (slots ! ?i). \<not> before subs b a}" by simp_all
  have fi: "b \<in> node_ptrs slots \<and> ?nib b ! length q = ?i" if "b \<in> set first" for b
    using that f(2) node_ok_ptrs(4)[OF n i(1), of b] node_ptrs_nth[of b slots] i(1) l(2) by auto
  have e: "onward (drop (length q) (?nib a)) slots = first @ ?rest" unfolding step onward.simps first_def ..
  have "sorted_wrt (before subs) (first @ ?rest)"
    unfolding sorted_wrt_append using f(1) flat_node_sorted[OF n, of "Suc ?i"] rest fi later by auto
  moreover have "set (first @ ?rest) = {b \<in> node_ptrs slots. \<not> before subs b a}"
  proof (intro set_eqI iffI)
    fix b assume "b \<in> set (first @ ?rest)"
    then have "b \<in> set first \<or> b \<in> set ?rest" by (simp only: set_append Un_iff)
    then show "b \<in> {b \<in> node_ptrs slots. \<not> before subs b a}"
    proof
      assume "b \<in> set first"
      then show ?thesis using fi[of b] f(2) by simp
    next
      assume "b \<in> set ?rest"
      then have b: "b \<in> node_ptrs slots" "?i < ?nib b ! length q" unfolding rest by simp_all
      then have "\<not> before subs b a" using later[OF less.prems(2) b] by (meson less_asym)
      then show ?thesis using b(1) by blast
    qed
  next
    fix b assume "b \<in> {b \<in> node_ptrs slots. \<not> before subs b a}"
    then have b: "b \<in> node_ptrs slots" "\<not> before subs b a" by simp_all
    then have "\<not> ?nib b ! length q < ?i" using later[OF b(1) less.prems(2)] by blast
    then consider "?nib b ! length q = ?i" | "?i < ?nib b ! length q" by linarith
    then have "b \<in> set first \<or> b \<in> set ?rest"
    proof cases
      case 1
      then show ?thesis using node_ptrs_here(2)[OF n b(1)] b(2) f(2) by simp
    next
      case 2
      then show ?thesis using b(1) unfolding rest by simp
    qed
    then show "b \<in> set (first @ ?rest)" by (simp only: set_append Un_iff)
  qed
  ultimately show ?case unfolding e by simp
qed

lemma along_set:
  assumes "node_ok subs q slots" "q = take (length q) (nibbles s)" "length q \<le> 2 * len" "len \<le> length s"
  shows "matching subs (node_ptrs slots) s len \<subseteq> set (along (drop (length q) (take (2 * len) (nibbles s))) slots) \<and>
    set (along (drop (length q) (take (2 * len) (nibbles s))) slots) \<subseteq> node_ptrs slots \<and>
    (set (along (drop (length q) (take (2 * len) (nibbles s))) slots) \<subseteq> matching subs (node_ptrs slots) s len \<or>
     length (along (drop (length q) (take (2 * len) (nibbles s))) slots) = 1)"
  using assms
proof (induction "2 * len - length q" arbitrary: q slots rule: less_induct)
  case less
  note n = less.prems(1)
  show ?case
  proof (cases "length q = 2 * len")
    case True
    have "b \<in> matching subs (node_ptrs slots) s len" if b: "b \<in> node_ptrs slots" for b
    proof -
      have "take (2 * len) (nibbles (sub_sid (subs ! b))) = take (2 * len) (nibbles s)"
        using node_ok_ptrs(2)[OF n node_ptrs_here[OF n b]] less.prems(2) True by simp
      then show ?thesis using b by (simp add: matching_def nibbles_take)
    qed
    then show ?thesis using True by (auto simp: matching_def)
  next
    case False
    then have pos: "length q < 2 * len" using less.prems(3) by simp
    let ?i = "nibbles s ! length q"
    have i: "?i < 16" using nibbles_nth_less pos less.prems(4) by simp
    have sub: "ptrs (slots ! ?i) \<subseteq> node_ptrs slots" using UN_upper[of "slots ! ?i" "set slots" ptrs] i n by (simp add: node_ok_def)
    note m = matching_slot[OF n pos less.prems(4)]
    show ?thesis
    proof (cases "slots ! ?i")
      case Empty
      then show ?thesis unfolding path_step[OF pos less.prems(4)] m by (simp add: matching_def)
    next
      case (Sub p)
      then show ?thesis using sub unfolding path_step[OF pos less.prems(4)] m by (simp add: matching_one)
    next
      case (Tree t)
      have t: "node_ok subs (q @ [?i]) t" using n i Tree by (metis node_ok_def slot_ok_Tree)
      let ?P = "along (drop (Suc (length q)) (take (2 * len) (nibbles s))) t"
      have q: "q @ [?i] = take (length (q @ [?i])) (nibbles s)" using less.prems(2,4) pos by (simp add: take_Suc_conv_app_nth)
      have d: "2 * len - length (q @ [?i]) < 2 * len - length q" "length (q @ [?i]) \<le> 2 * len" using pos by simp_all
      have ih: "matching subs (node_ptrs t) s len \<subseteq> set ?P" "set ?P \<subseteq> node_ptrs t" "set ?P \<subseteq> matching subs (node_ptrs t) s len \<or> length ?P = 1"
        using less.hyps[OF d(1) t q d(2) less.prems(4)] by simp_all
      have "set ?P \<subseteq> node_ptrs slots" using ih(2) sub Tree by (metis order_trans ptrs.simps(3))
      then show ?thesis using ih(1,3) unfolding path_step[OF pos less.prems(4)] m along.simps Tree ptrs.simps slot.case by blast
    qed
  qed
qed

subsection \<open>Properties of the subscriber table\<close>

text \<open>A sequence of look-ups.\<close>

fun find_calls :: "(byte list \<times> bool) list \<Rightarrow> subscriber_table \<Rightarrow> subscriber_table option" where
  "find_calls [] st = Some st"
| "find_calls ((s, create) # calls) st = do {
     (_, st) \<leftarrow> find_subscriber st s (length s) create;
     find_calls calls st
   }"

lemma find_calls_ok:
  "table_ok st \<Longrightarrow> \<forall>c \<in> set calls. fst c \<noteq> [] \<and> length (fst c) \<le> SID_SIZE \<Longrightarrow> \<exists>st'. find_calls calls st = Some st' \<and> table_ok st'"
proof (induction calls arbitrary: st)
  case (Cons c calls)
  obtain s create where c: "c = (s, create)" by force
  have s: "0 < length s" "length s \<le> SID_SIZE" using Cons.prems(2) c by simp_all
  have "\<exists>r st'. find_subscriber st s (length s) create = Some (r, st') \<and> table_ok st'"
  proof (cases "create \<longrightarrow> length s < SID_SIZE")
    case True
    then show ?thesis using find_abbreviation[OF Cons.prems(1) s, of s create] Cons.prems(1) by auto
  next
    case False
    then have f: "length s = SID_SIZE" create using s by auto
    show ?thesis
    proof (cases "s \<in> set (known st)")
      case True
      then obtain p where "p < length (known st)" "known st ! p = s" by (metis in_set_conv_nth)
      then show ?thesis using find_known[OF Cons.prems(1), of p True] Cons.prems(1) f by auto
    next
      case new: False
      then show ?thesis using find_new[OF Cons.prems(1) f(1)] f by auto
    qed
  qed
  then show ?case using Cons.IH Cons.prems(2) by (fastforce simp: c)
qed simp

definition two_subscribers :: subscriber_table where
  "two_subscribers = \<lparr>root = (replicate 16 Empty)[0 := Tree ((replicate 16 Empty)[1 := Sub 0, 2 := Sub 1])],
     subscribers = [new_subscriber (replicate 32 0x01) 2, new_subscriber (replicate 32 0x02) 2]\<rparr>"

lemma two_subscribers_known: "known two_subscribers = [replicate 32 0x01, replicate 32 0x02]"
  by (simp add: two_subscribers_def new_subscriber_def)

lemma two_subscribers_ok: "table_ok two_subscribers"
proof -
  let ?subs = "subscribers two_subscribers"
  define t where "t = (replicate 16 Empty)[1 := Sub 0, 2 := Sub 1]"
  have r: "replicate 32 x = x # replicate 31 x" for x :: byte by (simp add: numeral_eq_Suc)
  have nib: "nibbles (replicate 32 0x01) = [0, 1] @ nibbles (replicate 31 0x01)" "nibbles (replicate 32 0x02) = [0, 2] @ nibbles (replicate 31 0x02)"
    unfolding r nibbles_simps by simp_all
  have subs: "sub_sid (?subs ! 0) = replicate 32 0x01" "sub_sid (?subs ! 1) = replicate 32 0x02" "abbreviate_len (?subs ! 0) = 2" "abbreviate_len (?subs ! 1) = 2" "length ?subs = 2"
    by (simp_all add: two_subscribers_def new_subscriber_def)
  have "node_ok ?subs [0] (replicate 16 Empty)" by (simp add: node_ok_def)
  then have "node_ok ?subs [0] ((replicate 16 Empty)[1 := Sub 0])"
    by (rule node_ok_update) (simp_all add: subs nib subs[unfolded One_nat_def])
  then have t: "node_ok ?subs [0] t" unfolding t_def
    by (rule node_ok_update) (simp_all add: subs nib subs[unfolded One_nat_def])
  have pt: "node_ptrs t = {0, 1}" by (simp add: t_def numeral_eq_Suc insert_commute)
  have "slot_ok ?subs ([] @ [0]) (Tree t)" unfolding slot_ok_Tree pt using t by (intro conjI exI[of _ 0] exI[of _ 1]) simp_all
  then have "node_ok ?subs [] ((replicate 16 Empty)[0 := Tree t])"
    by (intro node_ok_update[where subs = ?subs]) (simp_all add: node_ok_def)
  moreover have "node_ptrs ((replicate 16 Empty)[0 := Tree t]) = {0, 1}" using pt by (simp add: numeral_eq_Suc)
  moreover have "root two_subscribers = (replicate 16 Empty)[0 := Tree t]" by (simp add: two_subscribers_def t_def)
  moreover have "{..<length ?subs} = {0, 1}" by (auto simp: subs)
  moreover have "distinct (known two_subscribers)" "\<forall>x \<in> set ?subs. length (sub_sid x) = SID_SIZE"
    by (simp_all add: two_subscribers_def new_subscriber_def)
  ultimately show ?thesis by (simp only: table_ok_def simp_thms)
qed

text \<open>C5. Looking up a full id with \<open>create\<close> returns the subscriber with that id: the known one,
  leaving everything as it is, or a new one added to the known ones, whose other fields and
  pointers do not change.\<close>

theorem find_subscriber_create:
  assumes "table_ok st" "length s = SID_SIZE"
  shows "\<exists>p st'. find_subscriber st s SID_SIZE True = Some (Some p, st') \<and> table_ok st' \<and>
    p < length (known st') \<and> known st' ! p = s \<and> (if s \<in> set (known st) then st' = st else known st' = known st @ [s]) \<and>
    (\<forall>q < length (known st). \<exists>k. subscribers st' ! q = (subscribers st ! q)\<lparr>abbreviate_len := k\<rparr>)"
proof (cases "s \<in> set (known st)")
  case True
  then obtain p where p: "p < length (known st)" "known st ! p = s" by (metis in_set_conv_nth)
  then show ?thesis using find_known[OF assms(1) p(1), of True] assms(1) True keep_abbreviation
    by (intro exI[of _ p] exI[of _ st]) auto
next
  case False
  then obtain st' where st': "find_subscriber st s SID_SIZE True = Some (Some (length (known st)), st')" "table_ok st'"
    "grown (subscribers st) s UNIV (subscribers st')" using find_new[OF assms] by blast
  then have k: "known st' = known st @ [s]" by (simp add: grown_known)
  then show ?thesis using st' False
    by (intro exI[of _ "length (known st)"] exI[of _ st']) (auto simp: grown_def nth_append)
qed

theorem find_subscriber_create_witness:
  "\<exists>p st'. find_subscriber two_subscribers (replicate 32 3) SID_SIZE True = Some (Some p, st') \<and> known st' = known two_subscribers @ [replicate 32 3]"
proof -
  have "replicate 32 3 \<notin> set (known two_subscribers)" by (simp add: two_subscribers_known)
  then show ?thesis using find_subscriber_create[OF two_subscribers_ok, of "replicate 32 3"] by auto
qed

text \<open>C13. Looking up an abbreviation finds a subscriber exactly when one and only one known
  subscriber matches it, and changes nothing.\<close>

theorem find_subscriber_abbreviation:
  assumes "table_ok st" "0 < len" "len < SID_SIZE" "len \<le> length s"
  shows "\<exists>r. find_subscriber st s len create = Some (r, st) \<and>
    (\<forall>p. r = Some p \<longleftrightarrow> {q. q < length (known st) \<and> take len (known st ! q) = take len s} = {p})"
  using find_abbreviation[OF assms(1,2) _ assms(4), of create] assms(3) by (fastforce simp: the_one_def split: option.splits)

theorem find_subscriber_abbreviation_witness:
  "\<exists>r. find_subscriber two_subscribers [0x02] 1 True = Some (r, two_subscribers) \<and> r = Some 1"
proof -
  have one: "{q. q < length (known two_subscribers) \<and> take 1 (known two_subscribers ! q) = take 1 [0x02]} = {1}"
    unfolding two_subscribers_known by (auto simp: less_2_cases_iff nth_Cons')
  have "\<exists>r. find_subscriber two_subscribers [0x02] 1 True = Some (r, two_subscribers) \<and>
      (\<forall>p. r = Some p \<longleftrightarrow> {q. q < length (known two_subscribers) \<and> take 1 (known two_subscribers ! q) = take 1 [0x02]} = {p})"
    by (rule find_subscriber_abbreviation[OF two_subscribers_ok]) simp_all
  then show ?thesis unfolding one by blast
qed





text \<open>Whatever ids and abbreviations are looked up, starting with no subscribers, the table
  stays well-formed: sixteen slots to a node, every pointer in it to a subscriber whose id begins
  with the path to it, every subscriber reachable, ids of 32 bytes and no id twice.\<close>

lemma find_calls_wellformed:
  assumes "\<forall>c \<in> set calls. fst c \<noteq> [] \<and> length (fst c) \<le> SID_SIZE"
  shows "\<exists>st. find_calls calls empty_table = Some st \<and> table_ok st"
  by (rule find_calls_ok[OF empty_table_ok assms])

end
