(* ===== verification/Link_Neighbour.thy ===== *)
theory Link_Neighbour
  imports Serval_Prelude
begin

text \<open>
  The neighbours of \<open>route_link.c\<close> as far as received frames use them: the list of neighbours,
  and for each the window of payload sequence numbers by which duplicates are recognised. A
  neighbour is identified by its subscriber, an index or NULL. The shift \<open>1<<offset\<close> of the
  source is one of an \<open>int\<close>: from 32 on it is a fault, as is a shift of the 64-bit mask from 64 on.
\<close>

subsection \<open>Definitions\<close>

record neighbour =
  nb_subscriber :: "nat option"
  using_us :: int
  routing_through_us :: int
  mdp_ack_sequence :: int
  mdp_ack_mask :: u64
  next_neighbour_update :: int

record link_table =
  neighbours :: "neighbour list"
  link_send_alarm :: int

definition new_neighbour :: "nat option \<Rightarrow> neighbour" where
  "new_neighbour subscriber = \<lparr>nb_subscriber = subscriber, using_us = 0, routing_through_us = 0, mdp_ack_sequence = -1, mdp_ack_mask = 0,
     next_neighbour_update = 0\<rparr>"

fun neighbour_loop :: "nat option \<Rightarrow> neighbour list \<Rightarrow> nat option" where
  "neighbour_loop subscriber [] = None"
| "neighbour_loop subscriber (n # ns) =
     (if nb_subscriber n = subscriber then Some 0 else map_option Suc (neighbour_loop subscriber ns))"

text \<open>The position of the neighbour in the list. A new one becomes the head.\<close>

definition get_neighbour :: "link_table \<Rightarrow> nat option \<Rightarrow> bool \<Rightarrow> nat option \<times> link_table" where
  "get_neighbour t subscriber create =
     (case neighbour_loop subscriber (neighbours t) of
        Some n \<Rightarrow> (Some n, t)
      | None \<Rightarrow> (if create then (Some 0, t\<lparr>neighbours := new_neighbour subscriber # neighbours t\<rparr>) else (None, t)))"

definition update_alarm :: "link_table \<Rightarrow> int \<Rightarrow> link_table" where
  "update_alarm t limit =
     (if link_send_alarm t > limit \<or> link_send_alarm t = 0 then t\<lparr>link_send_alarm := limit\<rparr> else t)"

text \<open>\<open>1<<offset\<close> at the width of \<open>int\<close>, converted to the 64 bits of the mask.\<close>

definition int_bit :: "int \<Rightarrow> u64 option" where
  "int_bit offset = (if 0 \<le> offset \<and> offset < 32 then Some (scast (push_bit (nat offset) (1 :: u32))) else None)"

definition received_sequence :: "neighbour \<Rightarrow> int \<Rightarrow> (int \<times> neighbour) option" where
  "received_sequence n payload_seq =
     (if mdp_ack_sequence n \<noteq> -1 then
        (if mdp_ack_sequence n = payload_seq then Some (1, n)
         else
           let offset = (mdp_ack_sequence n - 1 - payload_seq) AND 0xFF
           in if offset < 64 then do {
                m \<leftarrow> int_bit offset;
                if mdp_ack_mask n AND m \<noteq> 0 then Some (1, n)
                else Some (0, n\<lparr>mdp_ack_mask := mdp_ack_mask n OR m\<rparr>)
              } else
                let offset = (payload_seq - mdp_ack_sequence n - 1) AND 0xFF;
                    mask = (push_bit 1 (mdp_ack_mask n)) OR 1
                in if offset < 64 then Some (0, n\<lparr>mdp_ack_mask := push_bit (nat offset) mask, mdp_ack_sequence := payload_seq\<rparr>)
                   else None)
      else Some (0, n\<lparr>mdp_ack_sequence := payload_seq\<rparr>))"

definition link_received_duplicate :: "link_table \<Rightarrow> nat option \<Rightarrow> int \<Rightarrow> (int \<times> link_table) option" where
  "link_received_duplicate t subscriber payload_seq =
     (case get_neighbour t subscriber False of
        (None, t) \<Rightarrow> Some (0, t)
      | (Some i, t) \<Rightarrow> do {
          n \<leftarrow> c_get (neighbours t) (int i);
          (r, n) \<leftarrow> received_sequence n payload_seq;
          Some (r, t\<lparr>neighbours := (neighbours t)[i := n]\<rparr>)
        })"

subsection \<open>The window\<close>

lemma neighbour_loop_Some:
  "neighbour_loop s ns = Some i \<Longrightarrow> i < length ns \<and> nb_subscriber (ns ! i) = s"
  by (induction ns arbitrary: i) (auto split: if_splits)

lemma neighbour_loop_update:
  "neighbour_loop s ns = Some i \<Longrightarrow> nb_subscriber n = s \<Longrightarrow> neighbour_loop s (ns[i := n]) = Some i"
  by (induction ns arbitrary: i) (auto split: if_splits)

lemma received_sequence_subscriber: "received_sequence n s = Some (r, n') \<Longrightarrow> nb_subscriber n' = nb_subscriber n"
  by (auto simp: received_sequence_def Let_def bind_eq_Some_conv split: if_splits)

lemma link_received_duplicate_known:
  assumes "neighbour_loop s (neighbours t) = Some i"
  shows "link_received_duplicate t s q =
    map_option (\<lambda>(r, n). (r, t\<lparr>neighbours := (neighbours t)[i := n]\<rparr>)) (received_sequence (neighbours t ! i) q)"
  using assms neighbour_loop_Some[OF assms]
  by (simp add: link_received_duplicate_def get_neighbour_def c_get_def bind_map_option split_def map_option_case split: option.split)

text \<open>The sequence numbers received so far, counted without wrap-around, and the newest.\<close>

definition window_ok :: "neighbour \<Rightarrow> int set \<Rightarrow> int \<Rightarrow> bool" where
  "window_ok n S newest \<longleftrightarrow> newest \<in> S \<and> (\<forall>x \<in> S. x \<le> newest) \<and> mdp_ack_sequence n = newest mod 256 \<and>
     (\<forall>i < 64. bit (mdp_ack_mask n) i \<longleftrightarrow> newest - 1 - int i \<in> S)"

lemma int_bit_mask: "0 \<le> k \<Longrightarrow> k < 31 \<Longrightarrow> int_bit k = Some (push_bit (nat k) 1)"
proof -
  assume k: "0 \<le> k" "k < 31"
  have "scast (push_bit (nat k) (1 :: u32)) = (push_bit (nat k) 1 :: u64)"
    using k by (intro bit_word_eqI) (auto simp: bit_simps bit_signed_iff)
  then show ?thesis using k by (simp add: int_bit_def)
qed

lemma and_bit_zero: "(m :: u64) AND push_bit k 1 = 0 \<longleftrightarrow> \<not> bit m k" if "k < 64"
  using that by (metis and_exp_eq_0_iff_not_bit push_bit_of_1)

lemma and_255: "(x :: int) AND 0xFF = x mod 256"
  using and_mask_mod[of x 8] by simp

lemma mod_diffs: "(a mod 256 - 1 - b mod 256) mod 256 = (a - 1 - b) mod (256 :: int)" "(a mod 256 - b mod 256 - 1) mod 256 = (a - b - 1) mod (256 :: int)"
proof -
  show "(a mod 256 - 1 - b mod 256) mod 256 = (a - 1 - b) mod (256 :: int)"
    by (rule mod_diff_cong) (simp_all add: mod_diff_left_eq)
  show "(a mod 256 - b mod 256 - 1) mod 256 = (a - b - 1) mod (256 :: int)"
    by (rule mod_diff_cong) (simp_all add: mod_diff_eq)
qed

lemma received_old:
  assumes w: "window_ok n S newest" and x: "newest - 31 \<le> x" "x \<le> newest"
  shows "\<exists>n'. received_sequence n (x mod 256) = Some (if x \<in> S then 1 else 0, n') \<and> window_ok n' (insert x S) newest"
proof (cases "x = newest")
  case True
  then show ?thesis using w by (auto simp: received_sequence_def window_ok_def insert_absorb)
next
  case False
  define k where "k = newest - 1 - x"
  have k: "0 \<le> k" "k < 31" "x = newest - 1 - k" using x False by (simp_all add: k_def)
  have ack: "mdp_ack_sequence n = newest mod 256" using w by (simp add: window_ok_def)
  have pos: "mdp_ack_sequence n \<noteq> -1" unfolding ack using pos_mod_sign[of 256 newest] by auto
  have o: "(mdp_ack_sequence n - 1 - x mod 256) mod 256 = k"
  proof -
    have "(newest mod 256 - 1 - x mod 256) mod 256 = (newest - 1 - x) mod 256" by (rule mod_diffs)
    also have "\<dots> = k" unfolding k_def[symmetric] by (rule mod_pos_pos_trivial) (use k in simp_all)
    finally show ?thesis unfolding ack by simp
  qed
  have ne: "mdp_ack_sequence n \<noteq> x mod 256"
  proof
    assume "mdp_ack_sequence n = x mod 256"
    then have "(newest - x) mod 256 = 0" unfolding ack by (simp add: mod_eq_dvd_iff)
    then show False using x False mod_pos_pos_trivial[of "newest - x" 256] by simp
  qed
  have b: "bit (mdp_ack_mask n) (nat k) \<longleftrightarrow> x \<in> S" using w k by (simp add: window_ok_def)
  show ?thesis
  proof (cases "x \<in> S")
    case True
    then have "mdp_ack_mask n AND push_bit (nat k) 1 \<noteq> 0" using b and_bit_zero[of "nat k"] k by simp
    then show ?thesis using pos ne o k w True int_bit_mask[OF k(1,2)] by (simp add: received_sequence_def and_255 insert_absorb)
  next
    case new: False
    then have "mdp_ack_mask n AND push_bit (nat k) 1 = 0" using b and_bit_zero[of "nat k"] k by simp
    then have "received_sequence n (x mod 256) = Some (0, n\<lparr>mdp_ack_mask := mdp_ack_mask n OR push_bit (nat k) 1\<rparr>)"
      using pos ne o k int_bit_mask[OF k(1,2)] by (simp add: received_sequence_def and_255)
    moreover have "window_ok (n\<lparr>mdp_ack_mask := mdp_ack_mask n OR push_bit (nat k) 1\<rparr>) (insert x S) newest"
      using w k x by (auto simp: window_ok_def bit_simps)
    ultimately show ?thesis using new by simp
  qed
qed

lemma received_new:
  assumes w: "window_ok n S newest" and x: "newest < x" "x \<le> newest + 64"
  shows "\<exists>n'. received_sequence n (x mod 256) = Some (0, n') \<and> window_ok n' (insert x S) x" "x \<notin> S"
proof -
  show nx: "x \<notin> S" using w x by (auto simp: window_ok_def)
  define a where "a = x - newest - 1"
  have a: "0 \<le> a" "a < 64" "x = newest + 1 + a" using x by (simp_all add: a_def)
  have ack: "mdp_ack_sequence n = newest mod 256" using w by (simp add: window_ok_def)
  have pos: "mdp_ack_sequence n \<noteq> -1" unfolding ack using pos_mod_sign[of 256 newest] by auto
  have o: "(mdp_ack_sequence n - 1 - x mod 256) mod 256 = 254 - a"
  proof -
    have "(newest mod 256 - 1 - x mod 256) mod 256 = (newest - 1 - x) mod 256" by (rule mod_diffs)
    also have "\<dots> = (254 - a + 256 * (-1)) mod 256" using a by simp
    also have "\<dots> = (254 - a) mod 256" by (rule mod_mult_self2)
    also have "\<dots> = 254 - a" by (rule mod_pos_pos_trivial) (use a in simp_all)
    finally show ?thesis unfolding ack by simp
  qed
  have o2: "(x mod 256 - mdp_ack_sequence n - 1) mod 256 = a"
  proof -
    have "(x mod 256 - newest mod 256 - 1) mod 256 = (x - newest - 1) mod 256" by (rule mod_diffs)
    also have "\<dots> = a" unfolding a_def[symmetric] by (rule mod_pos_pos_trivial) (use a in simp_all)
    finally show ?thesis unfolding ack by simp
  qed
  have ne: "mdp_ack_sequence n \<noteq> x mod 256"
  proof
    assume "mdp_ack_sequence n = x mod 256"
    then have "x mod 256 = newest mod 256" unfolding ack by simp
    then have "(x - newest) mod 256 = 0" by (simp add: mod_eq_dvd_iff)
    then show False using x mod_pos_pos_trivial[of "x - newest" 256] by simp
  qed
  define M where "M = push_bit 1 (mdp_ack_mask n) OR 1"
  let ?n = "n\<lparr>mdp_ack_mask := push_bit (nat a) M, mdp_ack_sequence := x mod 256\<rparr>"
  have "received_sequence n (x mod 256) = Some (0, ?n)" using pos ne o o2 a by (simp add: received_sequence_def and_255 M_def)
  moreover have "window_ok ?n (insert x S) x"
  proof -
    have "bit (mdp_ack_mask ?n) i \<longleftrightarrow> x - 1 - int i \<in> insert x S" if i: "i < 64" for i
    proof -
      have m: "bit M j \<longleftrightarrow> newest - int j \<in> S" if "j < 64" for j
      proof (cases j)
        case 0
        then show ?thesis using w by (simp add: M_def window_ok_def bit_or_iff)
      next
        case (Suc i)
        then have "bit (push_bit 1 (mdp_ack_mask n)) j \<longleftrightarrow> bit (mdp_ack_mask n) i"
          using that unfolding bit_push_bit_iff by simp
        then have "bit M j \<longleftrightarrow> bit (mdp_ack_mask n) i" using Suc unfolding M_def bit_or_iff by (simp add: bit_1_iff)
        also have "\<dots> \<longleftrightarrow> newest - int j \<in> S" using w Suc that by (simp add: window_ok_def algebra_simps)
        finally show ?thesis .
      qed
      have "bit (mdp_ack_mask ?n) i \<longleftrightarrow> nat a \<le> i \<and> bit M (i - nat a)"
        using i by (simp add: bit_push_bit_iff)
      also have "\<dots> \<longleftrightarrow> nat a \<le> i \<and> newest - int (i - nat a) \<in> S" using m[of "i - nat a"] i by auto
      also have "\<dots> \<longleftrightarrow> x - 1 - int i \<in> insert x S"
      proof (cases "nat a \<le> i")
        case True
        then have e: "newest - int (i - nat a) = x - 1 - int i" using a by (simp add: of_nat_diff)
        show ?thesis unfolding e using True by simp
      next
        case False
        then have "newest < x - 1 - int i" using a by linarith
        then have "x - 1 - int i \<notin> S" using w by (auto simp: window_ok_def)
        then show ?thesis using False by simp
      qed
      finally show ?thesis .
    qed
    then show ?thesis using w x by (auto simp: window_ok_def)
  qed
  ultimately show "\<exists>n'. received_sequence n (x mod 256) = Some (0, n') \<and> window_ok n' (insert x S) x" by blast
qed

text \<open>Calls for the numbers \<open>xs\<close>, each sent as its low byte; the answers and the table.\<close>

fun receive_all :: "link_table \<Rightarrow> nat option \<Rightarrow> int list \<Rightarrow> (int list \<times> link_table) option" where
  "receive_all t s [] = Some ([], t)"
| "receive_all t s (x # xs) = do {
     (r, t) \<leftarrow> link_received_duplicate t s (x mod 256);
     (rs, t) \<leftarrow> receive_all t s xs;
     Some (r # rs, t)
   }"

text \<open>Each number is at most 31 behind and at most 64 ahead of the newest before it.\<close>

fun in_window :: "int \<Rightarrow> int list \<Rightarrow> bool" where
  "in_window newest [] = True"
| "in_window newest (x # xs) = (newest - 31 \<le> x \<and> x \<le> newest + 64 \<and> in_window (max newest x) xs)"

fun repeats :: "int set \<Rightarrow> int list \<Rightarrow> int list" where
  "repeats S [] = []"
| "repeats S (x # xs) = (if x \<in> S then 1 else 0) # repeats (insert x S) xs"

lemma receive_step:
  assumes "window_ok n S newest" "newest - 31 \<le> x" "x \<le> newest + 64"
  shows "\<exists>n'. received_sequence n (x mod 256) = Some (if x \<in> S then 1 else 0, n') \<and> window_ok n' (insert x S) (max newest x)"
proof (cases "x \<le> newest")
  case True
  then show ?thesis using received_old[OF assms(1,2)] by (simp add: max_def)
next
  case False
  then show ?thesis using received_new[OF assms(1), of x] assms(3) by (auto simp: max_def)
qed

lemma receive_all_window:
  assumes "neighbour_loop s (neighbours t) = Some i" "window_ok (neighbours t ! i) S newest" "in_window newest xs"
  shows "\<exists>t'. receive_all t s xs = Some (repeats S xs, t')"
  using assms
proof (induction xs arbitrary: t S newest)
  case (Cons x xs)
  let ?n = "neighbours t ! i"
  obtain n' where n': "received_sequence ?n (x mod 256) = Some (if x \<in> S then 1 else 0, n')" "window_ok n' (insert x S) (max newest x)"
    using receive_step[OF Cons.prems(2)] Cons.prems(3) by auto
  let ?t = "t\<lparr>neighbours := (neighbours t)[i := n']\<rparr>"
  have i: "i < length (neighbours t)" "nb_subscriber ?n = s" using neighbour_loop_Some[OF Cons.prems(1)] by auto
  have "neighbour_loop s (neighbours ?t) = Some i"
    using neighbour_loop_update[OF Cons.prems(1), of n'] received_sequence_subscriber[OF n'(1)] i(2) by simp
  moreover have "window_ok (neighbours ?t ! i) (insert x S) (max newest x)" using n'(2) i(1) by simp
  ultimately obtain t' where "receive_all ?t s xs = Some (repeats (insert x S) xs, t')"
    using Cons.IH[of ?t "insert x S" "max newest x"] Cons.prems(3) by auto
  then show ?case using n'(1) by (simp add: link_received_duplicate_known[OF Cons.prems(1)])
qed simp

text \<open>C10. Duplicates from a new neighbour are recognised exactly: of numbers that are at most 31
  behind and at most 64 ahead of the newest before them, link_received_duplicate reports those and
  only those that came before.\<close>

theorem duplicates_recognised:
  assumes "neighbour_loop s (neighbours t) = Some i" "neighbours t ! i = new_neighbour s" "in_window x xs"
  shows "\<exists>t'. receive_all t s (x # xs) = Some (repeats {} (x # xs), t')"
proof -
  let ?n = "(new_neighbour s)\<lparr>mdp_ack_sequence := x mod 256\<rparr>"
  let ?t = "t\<lparr>neighbours := (neighbours t)[i := ?n]\<rparr>"
  have i: "i < length (neighbours t)" using neighbour_loop_Some[OF assms(1)] by simp
  have "link_received_duplicate t s (x mod 256) = Some (0, ?t)"
    using assms(2) by (simp add: link_received_duplicate_known[OF assms(1)] received_sequence_def new_neighbour_def)
  moreover have "neighbour_loop s (neighbours ?t) = Some i" using neighbour_loop_update[OF assms(1), of ?n] by (simp add: new_neighbour_def)
  moreover have "window_ok (neighbours ?t ! i) {x} x" using i by (simp add: window_ok_def new_neighbour_def)
  ultimately show ?thesis using receive_all_window[of s ?t i "{x}" x xs] assms(3) by auto
qed

theorem duplicates_recognised_witness:
  "\<exists>t'. receive_all \<lparr>neighbours = [new_neighbour (Some 4), new_neighbour (Some 7)], link_send_alarm = 0\<rparr> (Some 7) [250, 260, 255, 260, 250, 255] =
     Some ([0, 0, 0, 1, 1, 1], t')"
  using duplicates_recognised[of "Some 7" "\<lparr>neighbours = [new_neighbour (Some 4), new_neighbour (Some 7)], link_send_alarm = 0\<rparr>" 1 250 "[260, 255, 260, 250, 255]"]
  by (simp add: new_neighbour_def)

text \<open>Outside the window the masks are shifted too far: by 32 or more for a number that is 33 to 64
  behind, by 64 or more for one that is 65 to 191 ahead.\<close>

lemma received_sequence_faults:
  assumes "mdp_ack_sequence n = newest mod 256" "33 \<le> d \<and> d \<le> 64 \<or> -191 \<le> d \<and> d \<le> -65"
  shows "received_sequence n ((newest - d) mod 256) = None"
proof -
  have pos: "mdp_ack_sequence n \<noteq> -1" unfolding assms(1) using pos_mod_sign[of 256 newest] by auto
  have ne: "mdp_ack_sequence n \<noteq> (newest - d) mod 256"
  proof
    assume "mdp_ack_sequence n = (newest - d) mod 256"
    then have "d mod 256 = 0" unfolding assms(1) by (simp add: mod_eq_dvd_iff)
    then have "256 dvd d" by presburger
    then obtain k where "d = 256 * k" by (rule dvdE)
    then show False using assms(2) by presburger
  qed
  have o: "(mdp_ack_sequence n - 1 - (newest - d) mod 256) mod 256 = (d - 1) mod 256"
    using mod_diffs(1)[of newest "newest - d"] unfolding assms(1) by (simp add: algebra_simps)
  have o2: "((newest - d) mod 256 - mdp_ack_sequence n - 1) mod 256 = (- d - 1) mod 256"
    using mod_diffs(2)[of "newest - d" newest] unfolding assms(1) by (simp add: algebra_simps)
  from assms(2) show ?thesis
  proof
    assume d: "33 \<le> d \<and> d \<le> 64"
    then have "(d - 1) mod 256 = d - 1" by (intro mod_pos_pos_trivial) simp_all
    then show ?thesis using pos ne o d by (simp add: received_sequence_def and_255 int_bit_def)
  next
    assume d: "-191 \<le> d \<and> d \<le> -65"
    have "(d - 1) mod 256 = (d + 255 + 256 * (-1)) mod 256" by simp
    also have "\<dots> = (d + 255) mod 256" by (rule mod_mult_self2)
    also have "\<dots> = d + 255" by (rule mod_pos_pos_trivial) (use d in simp_all)
    finally have "(d - 1) mod 256 = d + 255" .
    moreover have "(- d - 1) mod 256 = - d - 1" by (rule mod_pos_pos_trivial) (use d in simp_all)
    ultimately show ?thesis using pos ne o o2 d by (simp add: received_sequence_def and_255)
  qed
qed

end
