(* ===== verification/Overlay_Address.thy ===== *)
theory Overlay_Address
  imports Overlay_Buffer Subscriber_Tree_Correct Link_Neighbour
begin

text \<open>
  Addresses on the wire, \<open>overlay_address.c\<close>: abbreviated subscriber ids, the codes for the
  sender and the previous address, broadcast identifiers and their suppression, and the
  messages that ask for and give explanations of abbreviations. The state has the subscriber
  table, the recent broadcasts and \<open>my_subscriber\<close>; \<open>clock\<close> are the successive readings of
  \<open>gettime_ms\<close>, of which \<open>readings\<close> have been taken, and \<open>link_explanations\<close> are the calls of
  \<open>link_explained\<close>, the routing module's notice that an id was explained; \<open>links\<close> are its neighbours. A pointer to
  a subscriber is an index into the table, NULL is \<open>None\<close>; reading through NULL is a fault.
\<close>

subsection \<open>State\<close>

abbreviation (input) REACHABLE_SELF :: int where "REACHABLE_SELF \<equiv> 1"
abbreviation (input) REACHABLE :: int where "REACHABLE \<equiv> 0xe"
abbreviation (input) OF_TYPE_PLEASEEXPLAIN :: int where "OF_TYPE_PLEASEEXPLAIN \<equiv> 0x60"
abbreviation (input) OQ_MESH_MANAGEMENT :: int where "OQ_MESH_MANAGEMENT \<equiv> 1"
abbreviation (input) PAYLOAD_TTL_DEFAULT :: int where "PAYLOAD_TTL_DEFAULT \<equiv> 31"
abbreviation (input) BROADCAST_LEN :: nat where "BROADCAST_LEN \<equiv> 8"
abbreviation (input) MAX_BPIS :: nat where "MAX_BPIS \<equiv> 1024"
abbreviation (input) OA_CODE_SELF :: int where "OA_CODE_SELF \<equiv> 0xff"
abbreviation (input) OA_CODE_PREVIOUS :: int where "OA_CODE_PREVIOUS \<equiv> 0xfe"
abbreviation (input) MDP_MTU :: int where "MDP_MTU \<equiv> 1200"

record overlay_state =
  sub_table :: subscriber_table
  my_subscriber :: "nat option"
  bpilist :: "byte list list"
  clock :: "nat \<Rightarrow> int"
  readings :: nat
  link_explanations :: "nat list"
  links :: link_table
  malloc_fill :: "nat \<Rightarrow> byte"

record overlay_frame =
  frame_type :: int
  frame_modifiers :: int
  frame_ttl :: int
  frame_queue :: int
  broadcast_id :: "byte list"
  frame_destination :: "nat option"
  frame_next_hop :: "nat option"
  source_full :: int
  frame_source :: "nat option"
  destination_resolved :: int
  frame_recvaddr :: "byte list"
  frame_interface :: "nat option"
  frame_packet_version :: int
  mdp_sequence :: int
  frame_payload :: "overlay_buffer option"

text \<open>A cleared frame: \<open>calloc\<close> or \<open>bzero\<close>.\<close>

definition empty_frame :: overlay_frame where
  "empty_frame = \<lparr>frame_type = 0, frame_modifiers = 0, frame_ttl = 0, frame_queue = 0, broadcast_id = replicate BROADCAST_LEN 0,
     frame_destination = None, frame_next_hop = None, source_full = 0, frame_source = None, destination_resolved = 0,
     frame_recvaddr = replicate 16 0, frame_interface = None, frame_packet_version = 0, mdp_sequence = 0, frame_payload = None\<rparr>"

text \<open>An interface is its index; \<open>struct sockaddr_in\<close> is its bytes.\<close>

record decode_context =
  ctx_interface :: "nat option"
  ctx_sender_interface :: int
  ctx_packet_version :: int
  ctx_encapsulation :: int
  ctx_addr :: "byte list"
  invalid_addresses :: int
  please_explain :: "overlay_frame option"
  ctx_sender :: "nat option"
  ctx_previous :: "nat option"

definition empty_context :: decode_context where
  "empty_context = \<lparr>ctx_interface = None, ctx_sender_interface = 0, ctx_packet_version = 0, ctx_encapsulation = 0, ctx_addr = replicate 16 0, invalid_addresses = 0, please_explain = None,
     ctx_sender = None, ctx_previous = None\<rparr>"

definition deref :: "overlay_state \<Rightarrow> nat \<Rightarrow> subscriber option" where
  "deref st p = c_get (subscribers (sub_table st)) (int p)"

definition set_subscriber :: "overlay_state \<Rightarrow> nat \<Rightarrow> subscriber \<Rightarrow> overlay_state" where
  "set_subscriber st p s = st\<lparr>sub_table := (sub_table st)\<lparr>subscribers := (subscribers (sub_table st))[p := s]\<rparr>\<rparr>"

definition gettime_ms :: "overlay_state \<Rightarrow> int \<times> overlay_state" where
  "gettime_ms st = (clock st (readings st), st\<lparr>readings := Suc (readings st)\<rparr>)"

subsection \<open>Broadcast identifiers\<close>

text \<open>\<open>random\<close> are the values the C library's generator hands out.\<close>

definition overlay_broadcast_generate_address :: "(nat \<Rightarrow> u64) \<Rightarrow> byte list" where
  "overlay_broadcast_generate_address random = map (\<lambda>i. ucast (random i AND 0xff)) [0..<BROADCAST_LEN]"

definition bpi_hash :: "byte list \<Rightarrow> int" where
  "bpi_hash addr = foldl (\<lambda>h v. (((push_bit 3 h) AND 0xfff8) + ((drop_bit 13 h) AND 0x7)) XOR uint v) 0 addr AND 0x3ff"

definition overlay_broadcast_drop_check :: "overlay_state \<Rightarrow> byte list \<Rightarrow> (int \<times> overlay_state) option" where
  "overlay_broadcast_drop_check st addr = do {
     let bpi_index = bpi_hash addr;
     seen \<leftarrow> c_get (bpilist st) bpi_index;
     if seen \<noteq> addr then do {
       l \<leftarrow> c_put (bpilist st) bpi_index addr;
       Some (0, st\<lparr>bpilist := l\<rparr>)
     } else Some (1, st)
   }"

definition overlay_broadcast_append :: "overlay_buffer \<Rightarrow> byte list \<Rightarrow> int ob_result" where
  "overlay_broadcast_append b addr = ob_append_bytes b addr (int BROADCAST_LEN)"

definition overlay_broadcast_parse :: "overlay_buffer \<Rightarrow> (int \<times> byte list) ob_result" where
  "overlay_broadcast_parse b = ob_get_bytes b (int BROADCAST_LEN)"

subsection \<open>Appending addresses\<close>

text \<open>How many bytes of its id stand for a subscriber that need not be sent in full.\<close>

definition abbreviation_bytes :: "subscriber \<Rightarrow> int" where
  "abbreviation_bytes s =
     (let len = (abbreviate_len s + 2) div 2;
          len = (if reachable s = REACHABLE_SELF then len + 1 else len)
      in if len > int SID_SIZE then int SID_SIZE else len)"

definition append_sid :: "overlay_buffer \<Rightarrow> nat \<Rightarrow> overlay_state \<Rightarrow> (int \<times> overlay_buffer \<times> overlay_state) option" where
  "append_sid b p st = do {
     s \<leftarrow> deref st p;
     let (len, st) = (if send_full s \<noteq> 0 then (int SID_SIZE, set_subscriber st p (s\<lparr>send_full := 0\<rparr>)) else (abbreviation_bytes s, st));
     (r, b) \<leftarrow> ob_append_byte b (word_of_int len);
     if r \<noteq> 0 then Some (-1, b, st) else do {
       (r, b) \<leftarrow> ob_append_bytes b (sub_sid s) len;
       Some (if r \<noteq> 0 then -1 else 0, b, st)
     }
   }"

definition append_code :: "overlay_buffer \<Rightarrow> int \<Rightarrow> overlay_state \<Rightarrow> (int \<times> overlay_buffer \<times> overlay_state) option" where
  "append_code b code st = do {
     (r, b) \<leftarrow> ob_append_byte b (word_of_int code);
     Some (if r \<noteq> 0 then -1 else 0, b, st)
   }"

definition overlay_address_append ::
    "decode_context option \<Rightarrow> overlay_buffer \<Rightarrow> nat option \<Rightarrow> overlay_state \<Rightarrow> (int \<times> decode_context option \<times> overlay_buffer \<times> overlay_state) option" where
  "overlay_address_append context b subscriber st =
     (case subscriber of
        None \<Rightarrow> Some (-1, context, b, st)
      | Some p \<Rightarrow> do {
          (r, b, st) \<leftarrow>
            (if context \<noteq> None \<and> ctx_sender (the context) = Some p then append_code b OA_CODE_SELF st
             else if context \<noteq> None \<and> ctx_previous (the context) = Some p then append_code b OA_CODE_PREVIOUS st
             else append_sid b p st);
          if r \<noteq> 0 then Some (-1, context, b, st)
          else Some (0, map_option (\<lambda>c. c\<lparr>ctx_previous := Some p\<rparr>) context, b, st)
        })"

subsection \<open>Explanations\<close>

text \<open>The frame that explanations are collected in, limited to \<open>limit\<close> bytes.\<close>

definition explain_frame :: "overlay_state \<Rightarrow> int \<Rightarrow> decode_context \<Rightarrow> decode_context" where
  "explain_frame st limit response =
     (if please_explain response = None
      then response\<lparr>please_explain := Some (empty_frame\<lparr>frame_payload := Some (snd (ob_limitsize (ob_new (malloc_fill st)) limit))\<rparr>)\<rparr>
      else response)"

definition append_explanation :: "decode_context \<Rightarrow> byte list \<Rightarrow> int \<Rightarrow> (int \<times> decode_context) option" where
  "append_explanation response sid len = do {
     frame \<leftarrow> please_explain response;
     b \<leftarrow> frame_payload frame;
     (r, b) \<leftarrow> ob_append_byte b (word_of_int len);
     if r \<noteq> 0 then Some (1, response\<lparr>please_explain := Some (frame\<lparr>frame_payload := Some b\<rparr>)\<rparr>) else do {
       (r, b) \<leftarrow> ob_append_bytes b sid len;
       Some (if r \<noteq> 0 then 1 else 0, response\<lparr>please_explain := Some (frame\<lparr>frame_payload := Some b\<rparr>)\<rparr>)
     }
   }"

text \<open>The callback of the walk; its state is the response and the global state.\<close>

definition add_explain_response :: "nat \<Rightarrow> decode_context \<times> overlay_state \<Rightarrow> (bool \<times> decode_context \<times> overlay_state) option" where
  "add_explain_response p = (\<lambda>(response, st). do {
     let (now, st) = gettime_ms st;
     s \<leftarrow> deref st p;
     if now - last_explained s < 500 then Some (False, response, st) else do {
       let s = s\<lparr>last_explained := now\<rparr>;
       let response = explain_frame st 1024 response;
       let s = (if reachable s = REACHABLE_SELF then s\<lparr>send_full := 1\<rparr> else s);
       let st = set_subscriber st p s;
       if reachable s = REACHABLE_SELF \<and> my_subscriber st = Some p
       then Some (False, response\<lparr>please_explain := map_option (\<lambda>f. f\<lparr>source_full := 1\<rparr>) (please_explain response)\<rparr>, st)
       else do {
         (r, response) \<leftarrow> append_explanation response (sub_sid s) (int SID_SIZE);
         if r \<noteq> 0 then Some (True, response, st)
         else Some (False, response, st\<lparr>link_explanations := link_explanations st @ [p]\<rparr>)
       }
     }
   })"

definition explain_matching :: "byte list \<Rightarrow> decode_context \<times> overlay_state \<Rightarrow> (bool \<times> decode_context \<times> overlay_state) option" where
  "explain_matching i = (\<lambda>(response, st).
     walk_tree add_explain_response (root (sub_table st)) 0 (Some i) (length i) (Some i) (length i) (response, st))"

subsection \<open>Parsing addresses\<close>

text \<open>The results of the parsers: the return code, what is stored through the
  \<open>subscriber\<close> pointer (\<open>None\<close> when nothing is), the context, the buffer and the state.
  Both calls that append the abbreviation to the explanation ignore failures.\<close>

type_synonym parse_result = "(int \<times> nat option option \<times> decode_context option \<times> overlay_buffer \<times> overlay_state) option"

definition find_subscr_buffer :: "decode_context option \<Rightarrow> overlay_buffer \<Rightarrow> int \<Rightarrow> bool \<Rightarrow> overlay_state \<Rightarrow> parse_result" where
  "find_subscr_buffer context b len wanted st =
     (if len \<le> 0 \<or> len > int SID_SIZE then Some (-1, None, context, b, st)
      else case ob_get_bytes_ptr b len of
        (None, b) \<Rightarrow> Some (-1, None, context, b, st)
      | (Some ptr, b) \<Rightarrow> do {
          i \<leftarrow> c_getn (ob_mem b) ptr len;
          if \<not> wanted then do {
            c \<leftarrow> context;
            Some (0, None, Some (c\<lparr>invalid_addresses := 1\<rparr>), b, st)
          } else do {
            (r, tab) \<leftarrow> find_subscriber (sub_table st) i (nat len) True;
            let st = st\<lparr>sub_table := tab\<rparr>;
            case r of
              Some p \<Rightarrow> Some (0, Some (Some p), map_option (\<lambda>c. c\<lparr>ctx_previous := Some p\<rparr>) context, b, st)
            | None \<Rightarrow> do {
                c \<leftarrow> context;
                let c = explain_frame st MDP_MTU (c\<lparr>invalid_addresses := 1\<rparr>);
                (_, c, st) \<leftarrow> explain_matching i (c, st);
                frame \<leftarrow> please_explain c;
                payload \<leftarrow> frame_payload frame;
                (_, payload) \<leftarrow> ob_append_byte payload (word_of_int len);
                (_, payload) \<leftarrow> ob_append_bytes payload i len;
                Some (0, Some None, Some (c\<lparr>please_explain := Some (frame\<lparr>frame_payload := Some payload\<rparr>)\<rparr>), b, st)
              }
          }
        })"

definition overlay_address_parse :: "decode_context option \<Rightarrow> overlay_buffer \<Rightarrow> overlay_state \<Rightarrow> parse_result" where
  "overlay_address_parse context b st = do {
     (len, b) \<leftarrow> ob_get b;
     if len < 0 then Some (-1, None, context, b, st)
     else if len = OA_CODE_SELF then do {
       c \<leftarrow> context;
       case ctx_sender c of
         None \<Rightarrow> Some (0, None, Some (c\<lparr>invalid_addresses := 1\<rparr>), b, st)
       | Some p \<Rightarrow> Some (0, Some (Some p), Some (c\<lparr>ctx_previous := Some p\<rparr>), b, st)
     } else if len = OA_CODE_PREVIOUS then do {
       c \<leftarrow> context;
       case ctx_previous c of
         None \<Rightarrow> Some (0, None, Some (c\<lparr>invalid_addresses := 1\<rparr>), b, st)
       | Some p \<Rightarrow> Some (0, Some (Some p), Some c, b, st)
     } else find_subscr_buffer context b len True st
   }"

subsection \<open>Sending and processing explanations\<close>

text \<open>\<open>enqueue\<close> is \<open>overlay_payload_enqueue\<close> and \<open>random\<close> the values for a new broadcast address.
  The result is the return code and the frame as it was queued.\<close>

definition send_please_explain :: "(overlay_frame \<Rightarrow> int) \<Rightarrow> (nat \<Rightarrow> u64) \<Rightarrow> decode_context \<Rightarrow> nat option \<Rightarrow> nat option \<Rightarrow> overlay_state \<Rightarrow> (int \<times> overlay_frame option) option" where
  "send_please_explain enqueue random context source destination st =
     (case please_explain context of
        None \<Rightarrow> Some (0, None)
      | Some frame \<Rightarrow> do {
          let frame = frame\<lparr>frame_type := OF_TYPE_PLEASEEXPLAIN\<rparr>;
          let frame = frame\<lparr>frame_source := (if source \<noteq> None then source else my_subscriber st)\<rparr>;
          let frame = (if ctx_sender context = None then frame\<lparr>source_full := 1\<rparr> else frame);
          let frame = frame\<lparr>frame_destination := destination\<rparr>;
          direct \<leftarrow> (case destination of None \<Rightarrow> Some False | Some p \<Rightarrow> do { d \<leftarrow> deref st p; Some (reachable d AND REACHABLE \<noteq> 0) });
          let frame =
            (if direct then frame\<lparr>frame_ttl := PAYLOAD_TTL_DEFAULT\<rparr>
             else let frame = frame\<lparr>frame_ttl := 1, broadcast_id := overlay_broadcast_generate_address random\<rparr>
                  in if ctx_interface context \<noteq> None
                     then frame\<lparr>destination_resolved := 1, frame_next_hop := destination, frame_recvaddr := ctx_addr context,
                            frame_interface := ctx_interface context\<rparr>
                     else frame);
          let frame = frame\<lparr>frame_queue := OQ_MESH_MANAGEMENT\<rparr>;
          if enqueue frame = 0 then Some (0, Some frame) else Some (-1, None)
        })"

lemma ob_get_step: "ob_get b = Some (n, b') \<Longrightarrow> 0 \<le> n \<Longrightarrow> sizeLimit b' = sizeLimit b \<and> position b' = position b + 1"
  by (auto simp: ob_get_def bind_eq_Some_conv split: if_splits)

lemma ob_get_bytes_ptr_step:
  "ob_get_bytes_ptr b n = (Some p, b') \<Longrightarrow> sizeLimit b' = sizeLimit b \<and> position b' = position b + n"
  by (auto simp: ob_get_bytes_ptr_def split: if_splits)

function process_explain_loop :: "decode_context \<Rightarrow> overlay_buffer \<Rightarrow> overlay_state \<Rightarrow> (int \<times> decode_context \<times> overlay_state) option" where
  "process_explain_loop context b st =
     (if ob_remaining b > 0 then
        Option.bind (ob_get b) (\<lambda>(len, b).
          if len \<le> 0 \<or> len > int SID_SIZE then Some (-1, context, st)
          else case ob_get_bytes_ptr b len of
            (None, b) \<Rightarrow> Some (-1, context, st)
          | (Some ptr, b) \<Rightarrow> do {
              sid \<leftarrow> c_getn (ob_mem b) ptr len;
              (context, st) \<leftarrow>
                (if len = int SID_SIZE then do {
                   (_, tab) \<leftarrow> find_subscriber (sub_table st) sid (nat len) True;
                   Some (context, st\<lparr>sub_table := tab\<rparr>)
                 } else do {
                   (_, context, st) \<leftarrow> explain_matching sid (context, st);
                   Some (context, st)
                 });
              process_explain_loop context b st
            })
      else Some (0, context, st))"
  by pat_completeness auto
termination
  by (relation "measure (\<lambda>(context, b, st). nat (ob_remaining b))")
    (auto simp: ob_remaining_def dest!: ob_get_step ob_get_bytes_ptr_step[OF sym])

declare process_explain_loop.simps [simp del]

text \<open>The result is the return code, the frame sent in reply, if any, and the state.\<close>

definition process_explain :: "(overlay_frame \<Rightarrow> int) \<Rightarrow> (nat \<Rightarrow> u64) \<Rightarrow> overlay_frame \<Rightarrow> overlay_state \<Rightarrow> (int \<times> overlay_frame option \<times> overlay_state) option" where
  "process_explain enqueue random frame st = do {
     b \<leftarrow> frame_payload frame;
     (r, context, st) \<leftarrow> process_explain_loop (empty_context\<lparr>ctx_sender := frame_source frame\<rparr>) b st;
     if r \<noteq> 0 then Some (-1, None, st) else do {
       (_, reply) \<leftarrow> send_please_explain enqueue random context (frame_destination frame) (frame_source frame) st;
       Some (0, reply, st)
     }
   }"

end
