(* ===== verification/Overlay_Address_Correct.thy ===== *)
theory Overlay_Address_Correct
  imports Overlay_Address
begin

text \<open>
  What the address module promises: broadcasts are suppressed by the last identifier seen with
  the same hash, addresses resolve at the receiver to the subscribers the sender meant, and the
  parsers are safe on arbitrary bytes. The subscriber tables of the two ends are related by the
  ids in them, since a pointer means nothing outside its own table.
\<close>

subsection \<open>Broadcast suppression\<close>

lemma bpi_hash_range: "0 \<le> bpi_hash a" "bpi_hash a < int MAX_BPIS"
proof -
  have "bpi_hash a = foldl (\<lambda>h v. (push_bit 3 h AND 0xfff8) + (drop_bit 13 h AND 7) XOR uint v) 0 a mod 2 ^ 10"
    using and_mask_mod[of _ 10] by (simp add: bpi_hash_def)
  then show "0 \<le> bpi_hash a" "bpi_hash a < int MAX_BPIS" by simp_all
qed

fun drop_checks :: "byte list list \<Rightarrow> overlay_state \<Rightarrow> overlay_state option" where
  "drop_checks [] st = Some st"
| "drop_checks (a # as) st = do { (_, st) \<leftarrow> overlay_broadcast_drop_check st a; drop_checks as st }"

text \<open>The last address with a given hash, the zero address if there is none.\<close>

definition last_seen :: "byte list list \<Rightarrow> int \<Rightarrow> byte list" where
  "last_seen as h = last (replicate BROADCAST_LEN 0 # filter (\<lambda>a. bpi_hash a = h) as)"

definition remembers :: "overlay_state \<Rightarrow> byte list list \<Rightarrow> bool" where
  "remembers st as \<longleftrightarrow> length (bpilist st) = MAX_BPIS \<and> (\<forall>h < MAX_BPIS. bpilist st ! h = last_seen as (int h))"

lemma drop_check_step:
  assumes "remembers st as"
  shows "\<exists>st'. overlay_broadcast_drop_check st a = Some (if last_seen as (bpi_hash a) = a then 1 else 0, st') \<and>
    remembers st' (as @ [a]) \<and> st' = st\<lparr>bpilist := bpilist st'\<rparr>"
proof -
  define h where "h = nat (bpi_hash a)"
  have h: "bpi_hash a = int h" "h < MAX_BPIS" using bpi_hash_range[of a] by (simp_all add: h_def)
  have l: "length (bpilist st) = MAX_BPIS" "bpilist st ! h = last_seen as (int h)" using assms h by (simp_all add: remembers_def)
  have s: "last_seen (as @ [a]) (int k) = (if k = h then a else last_seen as (int k))" for k
    using h(1) by (simp add: last_seen_def)
  show ?thesis
  proof (cases "last_seen as (int h) = a")
    case True
    then have "overlay_broadcast_drop_check st a = Some (1, st)" using l h by (simp add: overlay_broadcast_drop_check_def c_get_def)
    moreover have "remembers st (as @ [a])" using assms True unfolding remembers_def s by simp
    ultimately show ?thesis using True h(1) by simp
  next
    case False
    let ?st = "st\<lparr>bpilist := (bpilist st)[h := a]\<rparr>"
    have "overlay_broadcast_drop_check st a = Some (0, ?st)"
      using l h False by (simp add: overlay_broadcast_drop_check_def c_get_def c_put_def)
    moreover have "remembers ?st (as @ [a])" using assms h(2) unfolding remembers_def s by (simp add: nth_list_update)
    ultimately show ?thesis using False h(1) by simp
  qed
qed

lemma drop_checks_ok:
  "remembers st as \<Longrightarrow> \<exists>st'. drop_checks bs st = Some st' \<and> remembers st' (as @ bs)"
proof (induction bs arbitrary: st as)
  case (Cons b bs)
  then show ?case using drop_check_step[OF Cons.prems, of b] Cons.IH[of _ "as @ [b]"] by auto
qed simp

definition cleared_bpilist :: "byte list list" where
  "cleared_bpilist = replicate MAX_BPIS (replicate BROADCAST_LEN 0)"

lemma remembers_cleared: "bpilist st = cleared_bpilist \<Longrightarrow> remembers st []"
  by (simp add: remembers_def cleared_bpilist_def last_seen_def)


subsection \<open>Addresses in sight of two tables\<close>

lemma slot_ok_fields:
  "slot_ok subs q s \<Longrightarrow> length subs = length subs' \<Longrightarrow>
   (\<And>p. p < length subs \<Longrightarrow> sub_sid (subs' ! p) = sub_sid (subs ! p) \<and> abbreviate_len (subs' ! p) = abbreviate_len (subs ! p)) \<Longrightarrow>
   slot_ok subs' q s"
proof (induction s arbitrary: q rule: ptrs.induct)
  case (3 ts)
  have "slot_ok subs' (q @ [i]) (ts ! i)" if "i < 16" for i
  proof -
    have "ts ! i \<in> set ts" "slot_ok subs (q @ [i]) (ts ! i)" using that 3(2) by (simp_all add: slot_ok_Tree node_ok_def)
    then show ?thesis using 3(1)[of "ts ! i" "q @ [i]"] 3(3,4) by auto
  qed
  then show ?case using 3(2) by (auto simp: slot_ok_Tree node_ok_def)
qed simp_all

lemma table_ok_fields:
  assumes "table_ok tab" "root tab' = root tab" "known tab' = known tab"
    "\<And>p. p < length (subscribers tab) \<Longrightarrow> abbreviate_len (subscribers tab' ! p) = abbreviate_len (subscribers tab ! p)"
  shows "table_ok tab'"
proof -
  have l: "length (subscribers tab') = length (subscribers tab)" using arg_cong[OF assms(3), of length] by simp
  then have s: "p < length (subscribers tab) \<Longrightarrow> sub_sid (subscribers tab' ! p) = sub_sid (subscribers tab ! p)" for p
    using arg_cong[OF assms(3), of "\<lambda>l. l ! p"] by simp
  have "node_ok (subscribers tab') [] (root tab')"
    using assms(1,2) slot_ok_fields[OF _ l[symmetric]] s assms(4) by (auto simp: table_ok_def node_ok_def)
  moreover have "\<forall>x \<in> set (subscribers tab'). length (sub_sid x) = SID_SIZE"
  proof
    fix x assume "x \<in> set (subscribers tab')"
    then have "sub_sid x \<in> set (known tab)" unfolding assms(3)[symmetric] by simp
    then show "length (sub_sid x) = SID_SIZE" using assms(1) by (auto simp: table_ok_def)
  qed
  ultimately show ?thesis using assms(1,2,3) l by (simp add: table_ok_def)
qed

abbreviation sids :: "overlay_state \<Rightarrow> byte list list" where
  "sids st \<equiv> known (sub_table st)"

lemma set_subscriber_ok:
  assumes "table_ok (sub_table st)" "deref st p = Some s" "sub_sid s' = sub_sid s" "abbreviate_len s' = abbreviate_len s"
  shows "table_ok (sub_table (set_subscriber st p s'))" "sids (set_subscriber st p s') = sids st"
proof -
  have p: "p < length (subscribers (sub_table st))" "subscribers (sub_table st) ! p = s"
    using assms(2) by (auto simp: deref_def c_get_def split: if_splits)
  show k: "sids (set_subscriber st p s') = sids st"
    using p assms(3) by (simp add: set_subscriber_def map_update) (metis list_update_id nth_map)
  show "table_ok (sub_table (set_subscriber st p s'))"
    by (rule table_ok_fields[OF assms(1) _ k]) (use p assms(4) in \<open>auto simp: set_subscriber_def nth_list_update\<close>)
qed

lemma deref_known: "p < length (sids st) \<Longrightarrow> \<exists>s. deref st p = Some s \<and> s = subscribers (sub_table st) ! p \<and> sub_sid s = sids st ! p"
  by (simp add: deref_def c_get_def)

lemma ob_ptr_read:
  assumes "ob_inv b" "k \<le> length (ob_unread b)"
  shows "\<exists>b'. ob_get_bytes_ptr b (int k) = (Some (position b), b') \<and> c_getn (ob_mem b') (position b) (int k) = Some (take k (ob_unread b)) \<and>
    ob_inv b' \<and> ob_unread b' = drop k (ob_unread b)"
proof -
  have t: "test_offset b (position b) (int k) = 0" using test_offset_unread[OF assms(1), of "int k"] assms(2) by simp
  define l where "l = nat (if sizeLimit b \<ge> 0 then min (sizeLimit b) (allocSize b) else allocSize b)"
  have u: "ob_unread b = drop (nat (position b)) (take l (ob_mem b))" by (simp add: ob_unread_def l_def)
  have p: "0 \<le> position b" using assms(1) by (simp add: ob_inv_def)
  have k: "nat (position b) + k \<le> length (ob_mem b) \<or> k = 0" "nat (position b) + k \<le> l \<or> k = 0" using assms(2) unfolding u by auto
  have "allocSize b \<le> int (length (ob_mem b))" by (rule ob_mem_length[OF assms(1)])
  then have n: "position b + int k \<le> int (length (ob_mem b))" using k(1) p assms(1) by (cases "k = 0") (auto simp: ob_inv_def)
  have "take k (drop (nat (position b)) (ob_mem b)) = take k (ob_unread b)"
    using k(2) unfolding u by (cases "k = 0") (simp_all add: take_drop min_def add.commute)
  then have "c_getn (ob_mem b) (position b) (int k) = Some (take k (ob_unread b))" using p n by (simp add: c_getn_def)
  then show ?thesis using t ob_unread_advance[OF assms(1), of "int k"] assms(2) by (simp add: ob_get_bytes_ptr_def)
qed

lemma ob_read_byte:
  assumes "ob_inv b" "ob_unread b = v # vs"
  shows "\<exists>b'. ob_get b = Some (uint v, b') \<and> ob_inv b' \<and> ob_unread b' = vs"
  using ob_get_next[OF assms] ob_unread_advance[OF assms(1), of 1] assms(2) by simp

subsection \<open>The bytes of an address\<close>

lemma shares_mono: "shares m a b \<Longrightarrow> n \<le> m \<Longrightarrow> shares n a b"
proof -
  assume "shares m a b" "n \<le> m"
  then have "take n (take m (nibbles a)) = take n (take m (nibbles b))" by (simp add: shares_def)
  then show ?thesis using \<open>n \<le> m\<close> by (simp add: shares_def min_def)
qed

text \<open>How many bytes of the id of subscriber \<open>p\<close> are sent.\<close>

definition sent_bytes :: "overlay_state \<Rightarrow> nat \<Rightarrow> nat" where
  "sent_bytes st p = (let s = subscribers (sub_table st) ! p in if send_full s \<noteq> 0 then SID_SIZE else nat (abbreviation_bytes s))"

lemma sent_bytes_unique:
  assumes ok: "table_ok (sub_table st)" and p: "p < length (sids st)"
  shows "0 < sent_bytes st p" "sent_bytes st p \<le> SID_SIZE"
    "\<And>q. q < length (sids st) \<Longrightarrow> take (sent_bytes st p) (sids st ! q) = take (sent_bytes st p) (sids st ! p) \<Longrightarrow> q = p"
    "send_full (subscribers (sub_table st) ! p) = 0 \<Longrightarrow> abbreviation_bytes (subscribers (sub_table st) ! p) = int (sent_bytes st p)"
proof -
  let ?s = "subscribers (sub_table st) ! p" and ?k = "sent_bytes st p"
  obtain n where n: "abbreviate_len ?s = int n" "0 < n" "n \<le> 64"
      "\<And>a. a < length (sids st) \<Longrightarrow> a \<noteq> p \<Longrightarrow> \<not> shares n (sids st ! a) (sids st ! p)"
    using abbreviation_least[OF ok p] by auto
  have a: "0 < abbreviation_bytes ?s" "abbreviation_bytes ?s \<le> int SID_SIZE" "int n \<le> 2 * abbreviation_bytes ?s"
    using n(1-3) by (auto simp: abbreviation_bytes_def Let_def)
  show "0 < ?k" "?k \<le> SID_SIZE" "send_full ?s = 0 \<Longrightarrow> abbreviation_bytes ?s = int ?k"
    using a by (auto simp: sent_bytes_def Let_def)
  have k: "n \<le> 2 * ?k" using a n(3) by (auto simp: sent_bytes_def Let_def)
  fix q assume q: "q < length (sids st)" "take ?k (sids st ! q) = take ?k (sids st ! p)"
  then have "take (2 * ?k) (nibbles (sids st ! q)) = take (2 * ?k) (nibbles (sids st ! p))" by (simp add: nibbles_take)
  then have "shares (2 * ?k) (sids st ! q) (sids st ! p)" by (simp only: shares_def)
  then have "shares n (sids st ! q) (sids st ! p)" by (rule shares_mono[OF _ k])
  then show "q = p" using n(4) q(1) by blast
qed

text \<open>A receiver that knows no ids that the sender does not know finds the same id.\<close>

lemma resolves:
  assumes ok: "table_ok (sub_table sS)" "table_ok (sub_table sR)" and sub: "set (sids sR) \<subseteq> set (sids sS)"
    and p: "p < length (sids sS)" and q: "q < length (sids sR)" "sids sR ! q = sids sS ! p"
  shows "find_subscriber (sub_table sR) (take (sent_bytes sS p) (sids sS ! p)) (sent_bytes sS p) True = Some (Some q, sub_table sR)"
proof -
  let ?k = "sent_bytes sS p" and ?s = "sids sS ! p"
  note k = sent_bytes_unique[OF ok(1) p]
  have l: "length ?s = SID_SIZE" using ok(1) p by (simp add: table_ok_def)
  show ?thesis
  proof (cases "?k = SID_SIZE")
    case True
    then show ?thesis using find_known[OF ok(2) q(1), of True] q(2) l by simp
  next
    case False
    then have lt: "?k < SID_SIZE" using k(2) by simp
    obtain r where r: "find_subscriber (sub_table sR) (take ?k ?s) ?k True = Some (r, sub_table sR)"
      "the_one {x. x < length (sids sR) \<and> take ?k (sids sR ! x) = take ?k (take ?k ?s)} r"
      using find_abbreviation[OF ok(2) k(1,2), of "take ?k ?s" True] lt l by auto
    have "{x. x < length (sids sR) \<and> take ?k (sids sR ! x) = take ?k (take ?k ?s)} = {q}"
    proof -
      have "x = q" if x: "x < length (sids sR)" "take ?k (sids sR ! x) = take ?k ?s" for x
      proof -
        have "sids sR ! x \<in> set (sids sS)" using sub nth_mem[OF x(1)] by blast
        then obtain y where y: "y < length (sids sS)" "sids sS ! y = sids sR ! x" by (metis in_set_conv_nth)
        then have "y = p" using k(3) x(2) by metis
        then have "sids sR ! x = sids sR ! q" using y(2) q(2) by simp
        moreover have "distinct (sids sR)" using ok(2) by (simp add: table_ok_def)
        ultimately show ?thesis using x(1) q(1) nth_eq_iff_index_eq by blast
      qed
      note u = this
      show ?thesis
      proof (intro equalityI subsetI)
        fix x assume "x \<in> {x. x < length (sids sR) \<and> take ?k (sids sR ! x) = take ?k (take ?k ?s)}"
        then have x: "x < length (sids sR)" "take ?k (sids sR ! x) = take ?k ?s" by (simp_all del: nth_map)
        show "x \<in> {q}" using u[OF x] by simp
      qed (use q in simp)
    qed
    then have "the_one {q} r" using r(2) by (simp only:)
    then have "r = Some q" by (cases r) (simp_all add: the_one_def)
    then show ?thesis using r(1) by simp
  qed
qed

definition same_subscriber :: "overlay_state \<Rightarrow> overlay_state \<Rightarrow> nat \<Rightarrow> nat \<Rightarrow> bool" where
  "same_subscriber sS sR p q \<longleftrightarrow> p < length (sids sS) \<and> q < length (sids sR) \<and> sids sR ! q = sids sS ! p"

lemma same_subscriber_inj:
  assumes "table_ok (sub_table sS)" "table_ok (sub_table sR)" "same_subscriber sS sR p q" "same_subscriber sS sR p' q'"
  shows "p = p' \<longleftrightarrow> q = q'"
proof -
  have "distinct (sids sS)" "distinct (sids sR)" using assms(1,2) by (simp_all add: table_ok_def)
  then show ?thesis using assms(3,4) unfolding same_subscriber_def by (metis nth_eq_iff_index_eq)
qed

text \<open>The two ends agree on the sender and on the previous address.\<close>

definition in_step :: "overlay_state \<Rightarrow> overlay_state \<Rightarrow> decode_context \<Rightarrow> decode_context \<Rightarrow> bool" where
  "in_step sS sR cS cR \<longleftrightarrow> rel_option (same_subscriber sS sR) (ctx_sender cS) (ctx_sender cR) \<and>
     rel_option (same_subscriber sS sR) (ctx_previous cS) (ctx_previous cR)"

lemma append_code_room:
  assumes "ob_inv b" "ob_fits b 33"
  shows "\<exists>b'. append_code b code st = Some (0, b', st) \<and> ob_inv b' \<and> ob_data b' = ob_data b @ [word_of_int code] \<and> position b' = position b + 1 \<and> ob_frame b b'"
proof -
  have "ob_fits b 1" by (rule ob_fits_mono[OF assms(2)]) simp
  then obtain b' where "ob_append_bytes b [word_of_int code] 1 = Some (0, b')" "ob_inv b'" "ob_data b' = ob_data b @ take (nat 1) [word_of_int code]"
    "position b' = position b + 1" "ob_frame b b'"
    by (rule ob_append_bytes_fits[OF assms(1), of 1 "[word_of_int code]"]) simp_all
  then show ?thesis by (simp add: append_code_def ob_append_byte_eq)
qed

lemma append_sid_room:
  assumes ok: "table_ok (sub_table st)" "p < length (sids st)" and b: "ob_inv b" "ob_fits b 33"
  shows "\<exists>b' st'. append_sid b p st = Some (0, b', st') \<and> ob_inv b' \<and> position b' = position b + 1 + int (sent_bytes st p) \<and> ob_frame b b' \<and>
    ob_data b' = ob_data b @ of_nat (sent_bytes st p) # take (sent_bytes st p) (sids st ! p) \<and>
    table_ok (sub_table st') \<and> sids st' = sids st \<and> st' = st\<lparr>sub_table := sub_table st'\<rparr>"
proof -
  obtain s where s: "deref st p = Some s" "s = subscribers (sub_table st) ! p" "sub_sid s = sids st ! p" using deref_known[OF ok(2)] by auto
  define st' where "st' = (if send_full s \<noteq> 0 then set_subscriber st p (s\<lparr>send_full := 0\<rparr>) else st)"
  let ?k = "sent_bytes st p"
  note k = sent_bytes_unique[OF ok]
  have l: "length (sub_sid s) = SID_SIZE" using ok s(3) by (simp add: table_ok_def)
  have e: "(if send_full s \<noteq> 0 then (int SID_SIZE, set_subscriber st p (s\<lparr>send_full := 0\<rparr>)) else (abbreviation_bytes s, st)) = (int ?k, st')"
    using k(4) s(2) by (simp add: sent_bytes_def st'_def Let_def)
  have "ob_fits b 1" by (rule ob_fits_mono[OF b(2)]) simp
  then obtain b1 where b1: "ob_append_bytes b [word_of_int (int ?k)] 1 = Some (0, b1)" "ob_inv b1" "ob_data b1 = ob_data b @ take (nat 1) [word_of_int (int ?k)]"
      "position b1 = position b + 1" "ob_frame b b1"
    by (rule ob_append_bytes_fits[OF b(1), of 1 "[word_of_int (int ?k)]"]) simp_all
  have "ob_fits b1 (int ?k)" unfolding ob_frame_fits[OF b1(5,4)] by (rule ob_fits_mono[OF b(2)]) (use k(2) in simp)
  then obtain b2 where b2: "ob_append_bytes b1 (sub_sid s) (int ?k) = Some (0, b2)" "ob_inv b2" "ob_data b2 = ob_data b1 @ take (nat (int ?k)) (sub_sid s)"
      "position b2 = position b1 + int ?k" "ob_frame b1 b2"
    by (rule ob_append_bytes_fits[OF b1(2), of "int ?k" "sub_sid s"]) (use k(2) l in simp_all)
  have "append_sid b p st = Some (0, b2, st')"
    unfolding append_sid_def s(1) Option.bind.bind_lunit e using b1(1) b2(1) by (simp add: ob_append_byte_eq)
  moreover have "table_ok (sub_table st')" "sids st' = sids st" "st' = st\<lparr>sub_table := sub_table st'\<rparr>"
    using ok(1) set_subscriber_ok[OF ok(1) s(1), of "s\<lparr>send_full := 0\<rparr>"] by (simp_all add: st'_def set_subscriber_def)
  moreover have "ob_data b2 = ob_data b @ of_nat ?k # take ?k (sids st ! p)" using b2(3) b1(3) s(3) by simp
  ultimately show ?thesis using b2(2,4) b1(4) ob_frame_trans[OF b1(5) b2(5)] by auto
qed

lemma parse_self:
  assumes "ob_inv r" "ob_unread r = 0xff # vs" "ctx_sender c = Some q"
  shows "\<exists>r'. overlay_address_parse (Some c) r st = Some (0, Some (Some q), Some (c\<lparr>ctx_previous := Some q\<rparr>), r', st) \<and> ob_inv r' \<and> ob_unread r' = vs"
  using ob_read_byte[OF assms(1,2)] assms(3) by (auto simp: overlay_address_parse_def)

lemma parse_previous:
  assumes "ob_inv r" "ob_unread r = 0xfe # vs" "ctx_previous c = Some q"
  shows "\<exists>r'. overlay_address_parse (Some c) r st = Some (0, Some (Some q), Some (c\<lparr>ctx_previous := Some q\<rparr>), r', st) \<and> ob_inv r' \<and> ob_unread r' = vs"
  using ob_read_byte[OF assms(1,2)] assms(3) by (auto simp: overlay_address_parse_def)

lemma uint_small: "k \<le> 255 \<Longrightarrow> uint (of_nat k :: byte) = int k"
  by (simp add: uint_nat unat_of_nat)

lemma parse_sid:
  assumes r: "ob_inv r" "ob_unread r = of_nat k # i @ vs" and k: "length i = k" "0 < k" "k \<le> SID_SIZE"
    and f: "find_subscriber (sub_table st) i k True = Some (Some q, sub_table st)"
  shows "\<exists>r'. overlay_address_parse (Some c) r st = Some (0, Some (Some q), Some (c\<lparr>ctx_previous := Some q\<rparr>), r', st) \<and> ob_inv r' \<and> ob_unread r' = vs"
proof -
  obtain r1 where r1: "ob_get r = Some (uint (of_nat k :: byte), r1)" "ob_inv r1" "ob_unread r1 = i @ vs" using ob_read_byte[OF r] by auto
  obtain r2 where r2: "ob_get_bytes_ptr r1 (int k) = (Some (position r1), r2)" "c_getn (ob_mem r2) (position r1) (int k) = Some i" "ob_inv r2" "ob_unread r2 = vs"
    using ob_ptr_read[OF r1(2), of k] r1(3) k(1) by auto
  have "find_subscr_buffer (Some c) r1 (int k) True st = Some (0, Some (Some q), Some (c\<lparr>ctx_previous := Some q\<rparr>), r2, st)"
    using k r2 f by (simp add: find_subscr_buffer_def)
  then show ?thesis using r1 r2(3,4) k(3) uint_small[of k] by (simp add: overlay_address_parse_def)
qed

text \<open>One address: what is appended is what is parsed.\<close>

lemma address_step:
  assumes ok: "table_ok (sub_table sS)" "table_ok (sub_table sR)" "set (sids sR) \<subseteq> set (sids sS)"
    and pq: "same_subscriber sS sR p q" and c: "in_step sS sR cS cR" and b: "ob_inv b" "ob_fits b 33"
  obtains vs b' sS' where "overlay_address_append (Some cS) b (Some p) sS = Some (0, Some (cS\<lparr>ctx_previous := Some p\<rparr>), b', sS')"
    "ob_inv b'" "ob_data b' = ob_data b @ vs" "ob_frame b b'" "position b' = position b + int (length vs)" "length vs \<le> 33"
    "table_ok (sub_table sS')" "sids sS' = sids sS" "sS' = sS\<lparr>sub_table := sub_table sS'\<rparr>"
    "\<And>r rest. ob_inv r \<Longrightarrow> ob_unread r = vs @ rest \<Longrightarrow>
       \<exists>r'. overlay_address_parse (Some cR) r sR = Some (0, Some (Some q), Some (cR\<lparr>ctx_previous := Some q\<rparr>), r', sR) \<and> ob_inv r' \<and> ob_unread r' = rest"
proof -
  have p: "p < length (sids sS)" and q: "q < length (sids sR)" "sids sR ! q = sids sS ! p" using pq by (simp_all add: same_subscriber_def)
  consider (self) "ctx_sender cS = Some p" | (prev) "ctx_sender cS \<noteq> Some p" "ctx_previous cS = Some p" | (sid) "ctx_sender cS \<noteq> Some p" "ctx_previous cS \<noteq> Some p"
    by blast
  then show thesis
  proof cases
    case self
    then obtain q' where "ctx_sender cR = Some q'" "same_subscriber sS sR p q'" using c by (auto simp: in_step_def option_rel_Some1)
    then have cR: "ctx_sender cR = Some q" using same_subscriber_inj[OF ok(1,2) pq] by blast
    obtain b' where b': "append_code b OA_CODE_SELF sS = Some (0, b', sS)" "ob_inv b'" "ob_data b' = ob_data b @ [word_of_int OA_CODE_SELF]"
        "position b' = position b + 1" "ob_frame b b'" using append_code_room[OF b, of OA_CODE_SELF sS] by blast
    have "word_of_int OA_CODE_SELF = (0xff :: byte)" by simp
    then show thesis using that[of b' sS "[0xff]"] self b' ok(1) parse_self[OF _ _ cR] by (simp add: overlay_address_append_def)
  next
    case prev
    then obtain q' where "ctx_previous cR = Some q'" "same_subscriber sS sR p q'" using c by (auto simp: in_step_def option_rel_Some1)
    then have cR: "ctx_previous cR = Some q" using same_subscriber_inj[OF ok(1,2) pq] by blast
    obtain b' where b': "append_code b OA_CODE_PREVIOUS sS = Some (0, b', sS)" "ob_inv b'" "ob_data b' = ob_data b @ [word_of_int OA_CODE_PREVIOUS]"
        "position b' = position b + 1" "ob_frame b b'" using append_code_room[OF b, of OA_CODE_PREVIOUS sS] by blast
    have "word_of_int OA_CODE_PREVIOUS = (0xfe :: byte)" by simp
    then show thesis using that[of b' sS "[0xfe]"] prev b' ok(1) parse_previous[OF _ _ cR] by (simp add: overlay_address_append_def)
  next
    case sid
    let ?k = "sent_bytes sS p"
    obtain b' sS' where b': "append_sid b p sS = Some (0, b', sS')" "ob_inv b'" "position b' = position b + 1 + int ?k" "ob_frame b b'"
        "ob_data b' = ob_data b @ of_nat ?k # take ?k (sids sS ! p)" "table_ok (sub_table sS')" "sids sS' = sids sS" "sS' = sS\<lparr>sub_table := sub_table sS'\<rparr>"
      using append_sid_room[OF ok(1) p b] by blast
    note k = sent_bytes_unique(1,2)[OF ok(1) p]
    have l: "length (take ?k (sids sS ! p)) = ?k" using k(2) ok(1) p by (simp add: table_ok_def)
    show thesis
    proof (rule that[of b' sS' "of_nat ?k # take ?k (sids sS ! p)"])
      show "overlay_address_append (Some cS) b (Some p) sS = Some (0, Some (cS\<lparr>ctx_previous := Some p\<rparr>), b', sS')"
        using sid b'(1) by (simp add: overlay_address_append_def)
      show "position b' = position b + int (length (of_nat ?k # take ?k (sids sS ! p)))" "length (of_nat ?k # take ?k (sids sS ! p)) \<le> 33"
        using b'(3) l k(2) by (simp_all del: nth_map length_take)
      show "\<exists>r'. overlay_address_parse (Some cR) r sR = Some (0, Some (Some q), Some (cR\<lparr>ctx_previous := Some q\<rparr>), r', sR) \<and> ob_inv r' \<and> ob_unread r' = rest"
        if "ob_inv r" "ob_unread r = (of_nat ?k # take ?k (sids sS ! p)) @ rest" for r rest
        by (rule parse_sid[OF that(1) _ l k resolves[OF ok p q]]) (use that(2) in simp)
    qed (fact b')+
  qed
qed

lemma in_step_previous:
  assumes "in_step sS sR cS cR" "same_subscriber sS sR p q" "sids sS' = sids sS"
  shows "in_step sS' sR (cS\<lparr>ctx_previous := Some p\<rparr>) (cR\<lparr>ctx_previous := Some q\<rparr>)"
proof -
  have "same_subscriber sS' sR = same_subscriber sS sR" using assms(3) by (intro ext) (simp only: same_subscriber_def)
  then show ?thesis using assms(1,2) by (simp add: in_step_def)
qed

text \<open>Appending and parsing several addresses, with the context carried along.\<close>

fun append_addresses :: "nat list \<Rightarrow> decode_context \<Rightarrow> overlay_buffer \<Rightarrow> overlay_state \<Rightarrow> (decode_context \<times> overlay_buffer \<times> overlay_state) option" where
  "append_addresses [] c b st = Some (c, b, st)"
| "append_addresses (p # ps) c b st = do {
     (r, c, b, st) \<leftarrow> overlay_address_append (Some c) b (Some p) st;
     if r \<noteq> 0 then None else do { c \<leftarrow> c; append_addresses ps c b st }
   }"

fun parse_addresses :: "nat \<Rightarrow> decode_context \<Rightarrow> overlay_buffer \<Rightarrow> overlay_state \<Rightarrow> (nat list \<times> decode_context \<times> overlay_buffer \<times> overlay_state) option" where
  "parse_addresses 0 c b st = Some ([], c, b, st)"
| "parse_addresses (Suc n) c b st = do {
     (r, p, c, b, st) \<leftarrow> overlay_address_parse (Some c) b st;
     if r \<noteq> 0 then None else do {
       p \<leftarrow> p; p \<leftarrow> p; c \<leftarrow> c;
       (ps, c, b, st) \<leftarrow> parse_addresses n c b st;
       Some (p # ps, c, b, st)
     }
   }"

lemma addresses_roundtrip:
  assumes "table_ok (sub_table sS)" "table_ok (sub_table sR)" "set (sids sR) \<subseteq> set (sids sS)"
    "list_all2 (same_subscriber sS sR) ps qs" "in_step sS sR cS cR" "ob_inv b" "ob_fits b (33 * int (length ps))"
  shows "\<exists>vs cS' b' sS' cR'. append_addresses ps cS b sS = Some (cS', b', sS') \<and> ob_inv b' \<and> ob_data b' = ob_data b @ vs \<and>
    (\<forall>r rest. ob_inv r \<longrightarrow> ob_unread r = vs @ rest \<longrightarrow>
      (\<exists>r'. parse_addresses (length ps) cR r sR = Some (qs, cR', r', sR) \<and> ob_inv r' \<and> ob_unread r' = rest)) \<and>
    sids sS' = sids sS \<and> invalid_addresses cR' = invalid_addresses cR"
  using assms
proof (induction ps arbitrary: qs cS cR b sS)
  case Nil
  then show ?case by (intro exI[of _ "[]"]) (auto intro: exI[of _ cR])
next
  case (Cons p ps)
  obtain q qs' where q: "qs = q # qs'" "same_subscriber sS sR p q" "list_all2 (same_subscriber sS sR) ps qs'"
    using Cons.prems(4) by (auto simp: list_all2_Cons1)
  have f: "ob_fits b 33" by (rule ob_fits_mono[OF Cons.prems(7)]) simp
  obtain vs b1 s1 where a: "overlay_address_append (Some cS) b (Some p) sS = Some (0, Some (cS\<lparr>ctx_previous := Some p\<rparr>), b1, s1)"
    "ob_inv b1" "ob_data b1 = ob_data b @ vs" "ob_frame b b1" "position b1 = position b + int (length vs)" "length vs \<le> 33"
    "table_ok (sub_table s1)" "sids s1 = sids sS"
    "\<And>r rest. ob_inv r \<Longrightarrow> ob_unread r = vs @ rest \<Longrightarrow>
       \<exists>r'. overlay_address_parse (Some cR) r sR = Some (0, Some (Some q), Some (cR\<lparr>ctx_previous := Some q\<rparr>), r', sR) \<and> ob_inv r' \<and> ob_unread r' = rest"
    using address_step[OF Cons.prems(1-3) q(2) Cons.prems(5,6) f] by metis
  have same: "same_subscriber s1 sR = same_subscriber sS sR" using a(8) by (intro ext) (simp only: same_subscriber_def)
  have f1: "ob_fits b1 (33 * int (length ps))" unfolding ob_frame_fits[OF a(4,5)] by (rule ob_fits_mono[OF Cons.prems(7)]) (use a(6) in simp)
  have sub: "set (sids sR) \<subseteq> set (sids s1)" using Cons.prems(3) by (simp only: a(8))
  obtain ws cS' b' sS' cR' where r: "append_addresses ps (cS\<lparr>ctx_previous := Some p\<rparr>) b1 s1 = Some (cS', b', sS')" "ob_inv b'" "ob_data b' = ob_data b1 @ ws"
    "\<forall>r rest. ob_inv r \<longrightarrow> ob_unread r = ws @ rest \<longrightarrow>
      (\<exists>r'. parse_addresses (length ps) (cR\<lparr>ctx_previous := Some q\<rparr>) r sR = Some (qs', cR', r', sR) \<and> ob_inv r' \<and> ob_unread r' = rest)"
    "sids sS' = sids s1" "invalid_addresses cR' = invalid_addresses (cR\<lparr>ctx_previous := Some q\<rparr>)"
    using Cons.IH[OF a(7) Cons.prems(2) sub q(3)[folded same] in_step_previous[OF Cons.prems(5) q(2) a(8)] a(2) f1] by blast
  have "\<exists>r'. parse_addresses (length (p # ps)) cR r sR = Some (qs, cR', r', sR) \<and> ob_inv r' \<and> ob_unread r' = rest"
    if ri: "ob_inv r" "ob_unread r = (vs @ ws) @ rest" for r rest
  proof -
    obtain r1 where r1: "overlay_address_parse (Some cR) r sR = Some (0, Some (Some q), Some (cR\<lparr>ctx_previous := Some q\<rparr>), r1, sR)" "ob_inv r1" "ob_unread r1 = ws @ rest"
      using a(9)[of r "ws @ rest"] ri by auto
    obtain r2 where "parse_addresses (length ps) (cR\<lparr>ctx_previous := Some q\<rparr>) r1 sR = Some (qs', cR', r2, sR)" "ob_inv r2" "ob_unread r2 = rest"
      using r(4) r1(2,3) by blast
    then show ?thesis using r1(1) q(1) by simp
  qed
  moreover have "append_addresses (p # ps) cS b sS = Some (cS', b', sS')" using a(1) r(1) by simp
  moreover have "ob_data b' = ob_data b @ (vs @ ws)" "invalid_addresses cR' = invalid_addresses cR" using r(3,6) a(3) by simp_all
  moreover have "sids sS' = sids sS" using r(5) a(8) by (simp only:)
  ultimately show ?case using r(2) by blast
qed

subsection \<open>Parsing arbitrary bytes\<close>

definition valid_ptr :: "overlay_state \<Rightarrow> nat option \<Rightarrow> bool" where
  "valid_ptr st x \<longleftrightarrow> (\<forall>p. x = Some p \<longrightarrow> p < length (sids st))"

definition explain_ok :: "decode_context \<Rightarrow> bool" where
  "explain_ok c \<longleftrightarrow> (\<forall>f. please_explain c = Some f \<longrightarrow> (\<exists>b. frame_payload f = Some b \<and> ob_inv b))"

definition ctx_ok :: "overlay_state \<Rightarrow> decode_context \<Rightarrow> bool" where
  "ctx_ok st c \<longleftrightarrow> valid_ptr st (ctx_sender c) \<and> valid_ptr st (ctx_previous c) \<and> explain_ok c"

text \<open>What parsing and explaining leave alone in the state and in the context.\<close>

definition others :: "overlay_state \<Rightarrow> nat option \<times> byte list list \<times> link_table" where
  "others st = (my_subscriber st, bpilist st, links st)"

definition ctx_header :: "decode_context \<Rightarrow> nat option \<times> int \<times> int \<times> int \<times> byte list \<times> nat option" where
  "ctx_header c = (ctx_interface c, ctx_sender_interface c, ctx_packet_version c, ctx_encapsulation c, ctx_addr c, ctx_sender c)"

lemma others_update [simp]:
  "others (st\<lparr>sub_table := t\<rparr>) = others st" "others (st\<lparr>readings := n\<rparr>) = others st" "others (st\<lparr>link_explanations := l\<rparr>) = others st"
  "others (set_subscriber st p s) = others st"
  by (simp_all add: others_def set_subscriber_def)

lemma ctx_header_update [simp]:
  "ctx_header (c\<lparr>please_explain := f\<rparr>) = ctx_header c" "ctx_header (c\<lparr>invalid_addresses := i\<rparr>) = ctx_header c"
  "ctx_header (c\<lparr>ctx_previous := q\<rparr>) = ctx_header c"
  by (simp_all add: ctx_header_def)

text \<open>What explaining changes: the explanation and fields of subscribers, no more.\<close>

definition explains :: "decode_context \<Rightarrow> overlay_state \<Rightarrow> decode_context \<Rightarrow> overlay_state \<Rightarrow> bool" where
  "explains c st c' st' \<longleftrightarrow> table_ok (sub_table st') \<and> root (sub_table st') = root (sub_table st) \<and> sids st' = sids st \<and> others st' = others st \<and>
     explain_ok c' \<and> c' = c\<lparr>please_explain := please_explain c'\<rparr> \<and> (please_explain c \<noteq> None \<longrightarrow> please_explain c' \<noteq> None)"

lemma explains_refl: "table_ok (sub_table st) \<Longrightarrow> explain_ok c \<Longrightarrow> explains c st c st"
  by (simp add: explains_def)

lemma explains_trans: "explains c st c' st' \<Longrightarrow> explains c' st' c'' st'' \<Longrightarrow> explains c st c'' st''"
  unfolding explains_def by (elim conjE, intro conjI) (simp_all, metis (no_types, lifting) decode_context.surjective decode_context.update_convs(7))

lemma ob_new_limited: "0 \<le> n \<Longrightarrow> ob_inv (snd (ob_limitsize (ob_new f) n))"
  by (simp add: ob_limitsize_def ob_new_def ob_unlimitsize_def ob_calloc_def ob_inv_def ob_mem_def)

lemma explain_frame_ok:
  assumes "explain_ok c" "0 \<le> n"
  shows "explain_ok (explain_frame st n c)" "please_explain (explain_frame st n c) \<noteq> None"
    "explain_frame st n c = c\<lparr>please_explain := please_explain (explain_frame st n c)\<rparr>"
  using assms ob_new_limited[OF assms(2)] by (auto simp: explain_frame_def explain_ok_def empty_frame_def)

lemma append_explanation_ok:
  assumes "explain_ok c" "please_explain c \<noteq> None" "0 \<le> n" "n \<le> int (length s)"
  shows "\<exists>r c'. append_explanation c s n = Some (r, c') \<and> explain_ok c' \<and> please_explain c' \<noteq> None \<and> c' = c\<lparr>please_explain := please_explain c'\<rparr>"
proof -
  obtain f b where f: "please_explain c = Some f" "frame_payload f = Some b" "ob_inv b" using assms(1,2) by (auto simp: explain_ok_def)
  obtain r1 b1 where b1: "ob_append_byte b (word_of_int n) = Some (r1, b1)" "ob_inv b1"
    using ob_append_bytes_total[OF f(3), of 1 "[word_of_int n]"] by (auto simp: ob_append_byte_eq)
  obtain r2 b2 where b2: "ob_append_bytes b1 s n = Some (r2, b2)" "ob_inv b2" using ob_append_bytes_total[OF b1(2) assms(3,4)] by blast
  show ?thesis using f b1 b2 by (simp add: append_explanation_def explain_ok_def)
qed

lemma add_explain_response_ok:
  assumes ok: "table_ok (sub_table st)" "explain_ok c" and p: "p < length (sids st)"
  shows "\<exists>stop c' st'. add_explain_response p (c, st) = Some (stop, c', st') \<and> explains c st c' st'"
proof -
  obtain now st1 where t: "gettime_ms st = (now, st1)" by force
  have st1: "sub_table st1 = sub_table st" "others st1 = others st" using t by (auto simp: gettime_ms_def)
  obtain s where s: "deref st1 p = Some s" "sub_sid s = sids st ! p" using deref_known[of p st1] p st1 by auto
  show ?thesis
  proof (cases "now - last_explained s < 500")
    case True
    then show ?thesis using ok st1 s t by (auto simp: add_explain_response_def explains_def)
  next
    case False
    define s' where "s' = (if reachable s = REACHABLE_SELF then s\<lparr>last_explained := now, send_full := 1\<rparr> else s\<lparr>last_explained := now\<rparr>)"
    define c1 where "c1 = explain_frame st1 1024 c"
    define st2 where "st2 = set_subscriber st1 p s'"
    have s': "sub_sid s' = sub_sid s" "abbreviate_len s' = abbreviate_len s" "reachable s' = reachable s" by (simp_all add: s'_def)
    have st2: "table_ok (sub_table st2)" "sids st2 = sids st" "root (sub_table st2) = root (sub_table st)" "others st2 = others st"
      using set_subscriber_ok[of st1 p s s'] ok(1) st1 s(1) s' by (simp_all add: st2_def set_subscriber_def)
    have c1: "explain_ok c1" "please_explain c1 \<noteq> None" "c1 = c\<lparr>please_explain := please_explain c1\<rparr>"
      unfolding c1_def by (rule explain_frame_ok[OF ok(2)], simp)+
    have eq: "add_explain_response p (c, st) =
       (if reachable s = REACHABLE_SELF \<and> my_subscriber st2 = Some p
        then Some (False, c1\<lparr>please_explain := map_option (\<lambda>f. f\<lparr>source_full := 1\<rparr>) (please_explain c1)\<rparr>, st2)
        else do {
          (r, response) \<leftarrow> append_explanation c1 (sub_sid s) (int SID_SIZE);
          if r \<noteq> 0 then Some (True, response, st2) else Some (False, response, st2\<lparr>link_explanations := link_explanations st2 @ [p]\<rparr>)
        })"
      using False s(1) by (cases "reachable s = REACHABLE_SELF") (simp_all add: add_explain_response_def t c1_def st2_def s'_def Let_def cong: if_cong)
    have l: "length (sub_sid s) = SID_SIZE" using ok(1) p s(2) by (simp add: table_ok_def)
    obtain r c2 where c2: "append_explanation c1 (sub_sid s) (int SID_SIZE) = Some (r, c2)" "explain_ok c2" "please_explain c2 \<noteq> None" "c2 = c1\<lparr>please_explain := please_explain c2\<rparr>"
      using append_explanation_ok[OF c1(1,2), of "int SID_SIZE" "sub_sid s"] l by auto
    have e: "c2 = c\<lparr>please_explain := please_explain c2\<rparr>" using c1(3) c2(4)
      by (metis (no_types, lifting) decode_context.surjective decode_context.update_convs(7))
    show ?thesis
    proof (cases "reachable s = REACHABLE_SELF \<and> my_subscriber st2 = Some p")
      case True
      have "explains c st (c1\<lparr>please_explain := map_option (\<lambda>f. f\<lparr>source_full := 1\<rparr>) (please_explain c1)\<rparr>) st2"
        unfolding explains_def using st2 c1(1,2) by (subst c1(3)) (auto simp: explain_ok_def)
      then show ?thesis using eq True by auto
    next
      case F: False
      have "explains c st c2 st2" "explains c st c2 (st2\<lparr>link_explanations := link_explanations st2 @ [p]\<rparr>)"
        using st2 c2(2,3) e by (simp_all add: explains_def)
      then show ?thesis using eq F c2(1) by (cases "r = 0") auto
    qed
  qed
qed

lemma run_explain:
  assumes "table_ok (sub_table st)" "explain_ok c" "\<forall>p \<in> set ps. p < length (sids st)"
  shows "\<exists>stop c' st'. run_callback add_explain_response ps (c, st) = Some (stop, c', st') \<and> explains c st c' st'"
  using assms
proof (induction ps arbitrary: c st)
  case Nil
  then show ?case by (auto simp: explains_refl)
next
  case (Cons p ps)
  obtain stop c1 st1 where 1: "add_explain_response p (c, st) = Some (stop, c1, st1)" "explains c st c1 st1"
    using add_explain_response_ok[OF Cons.prems(1,2), of p] Cons.prems(3) by auto
  show ?case
  proof (cases stop)
    case True
    then show ?thesis using 1 by auto
  next
    case False
    have s: "sids st1 = sids st" and o: "table_ok (sub_table st1)" "explain_ok c1" using 1(2) by (simp_all add: explains_def)
    have "\<forall>p \<in> set ps. p < length (sids st1)" unfolding s using Cons.prems(3) by simp
    then obtain stop' c2 st2 where "run_callback add_explain_response ps (c1, st1) = Some (stop', c2, st2)" "explains c1 st1 c2 st2"
      using Cons.IH[OF o] by blast
    then show ?thesis using 1 False explains_trans[OF 1(2)] by auto
  qed
qed

text \<open>An abbreviation is explained with every known subscriber that matches it, and with others
  only if there is just one subscriber to explain.\<close>

lemma explain_matching_ok:
  assumes ok: "table_ok (sub_table st)" "explain_ok c" and i: "length i \<le> SID_SIZE"
  shows "\<exists>stop c' st'. explain_matching i (c, st) = Some (stop, c', st') \<and> explains c st c' st'"
proof -
  have n: "node_ok (subscribers (sub_table st)) [] (root (sub_table st))" "node_ptrs (root (sub_table st)) = {..<length (subscribers (sub_table st))}"
    using ok(1) by (simp_all add: table_ok_def)
  let ?ps = "along (nibbles i) (root (sub_table st))"
  have "explain_matching i (c, st) = run_callback add_explain_response ?ps (c, st)"
    using walk_along[OF node_ok_full[OF n(1)], of 0 "length i" i add_explain_response "(c, st)"] by (simp add: explain_matching_def)
  moreover have "set ?ps \<subseteq> node_ptrs (root (sub_table st))" using along_set[OF n(1), of i "length i"] by simp
  then have "\<forall>p \<in> set ?ps. p < length (sids st)" unfolding n(2) by auto
  ultimately show ?thesis using run_explain[OF ok] by simp
qed

lemma find_total:
  assumes ok: "table_ok tab" and i: "0 < length i" "length i \<le> SID_SIZE"
  obtains r tab' new where "find_subscriber tab i (length i) True = Some (r, tab')" "table_ok tab'" "known tab' = known tab @ new"
    "\<And>p. r = Some p \<Longrightarrow> p < length (known tab')" "set new = (if length i = SID_SIZE then {i} - set (known tab) else {})"
proof (cases "length i = SID_SIZE")
  case True
  show thesis
  proof (cases "i \<in> set (known tab)")
    case known: True
    then obtain p where p: "p < length (known tab)" "known tab ! p = i" by (metis in_set_conv_nth)
    show thesis using that[of "Some p" tab "[]"] find_known[OF ok p(1), of True] p ok True known by auto
  next
    case False
    obtain tab' where t: "find_subscriber tab i SID_SIZE True = Some (Some (length (known tab)), tab')" "table_ok tab'" "known tab' = known tab @ [i]"
      using find_new[OF ok True False] grown_known by blast
    have "p < length (known tab')" if "Some (length (known tab)) = Some p" for p using that unfolding t(3) by simp
    then show thesis using that[of "Some (length (known tab))" tab' "[i]"] t True False by auto
  qed
next
  case False
  obtain r where r: "find_subscriber tab i (length i) True = Some (r, tab)" "the_one {p. p < length (known tab) \<and> take (length i) (known tab ! p) = take (length i) i} r"
    using find_abbreviation[OF ok i, of i True] False i by auto
  have "p < length (known tab)" if "r = Some p" for p using r(2) that by (auto simp: the_one_def)
  then show thesis using that[of r tab "[]"] r(1) ok False by auto
qed

lemma valid_ptr_mono: "valid_ptr st x \<Longrightarrow> sids st' = sids st @ new \<Longrightarrow> valid_ptr st' x"
  by (auto simp: valid_ptr_def simp del: length_map)

lemma ob_ptr_total:
  assumes "ob_inv b" "0 \<le> len"
  shows "(\<exists>b' i. ob_get_bytes_ptr b len = (Some (position b), b') \<and> c_getn (ob_mem b') (position b) len = Some i \<and> int (length i) = len \<and> ob_inv b') \<or>
    ob_get_bytes_ptr b len = (None, b)"
proof (cases "len \<le> int (length (ob_unread b))")
  case True
  then have "nat len \<le> length (ob_unread b)" by simp
  from ob_ptr_read[OF assms(1) this] assms(2) show ?thesis using True by (auto simp: min_def)
next
  case False
  then show ?thesis using test_offset_unread[OF assms] by (simp add: ob_get_bytes_ptr_def)
qed

lemma find_subscr_buffer_total:
  assumes ok: "table_ok (sub_table st)" "ctx_ok st c" "ob_inv b"
  shows "\<exists>r out c' b' st' new. find_subscr_buffer (Some c) b len True st = Some (r, out, Some c', b', st') \<and> r \<in> {0, -1} \<and>
    table_ok (sub_table st') \<and> sids st' = sids st @ new \<and> ctx_ok st' c' \<and> ob_inv b' \<and> others st' = others st \<and> ctx_header c' = ctx_header c \<and> invalid_addresses c' \<in> {invalid_addresses c, 1} \<and>
    (case out of Some (Some p) \<Rightarrow> p < length (sids st') | _ \<Rightarrow> r = 0 \<longrightarrow> invalid_addresses c' = 1)"
proof (cases "len \<le> 0 \<or> len > int SID_SIZE")
  case True
  then show ?thesis using ok by (intro exI[of _ "[]"] exI) (auto simp: find_subscr_buffer_def)
next
  case len: False
  consider b' i where "ob_get_bytes_ptr b len = (Some (position b), b')" "c_getn (ob_mem b') (position b) len = Some i" "int (length i) = len" "ob_inv b'"
    | "ob_get_bytes_ptr b len = (None, b)" using ob_ptr_total[OF ok(3), of len] len by auto
  then show ?thesis
  proof cases
    case 2
    then show ?thesis using ok len by (auto simp: find_subscr_buffer_def)
  next
    case (1 b' i)
    have i: "0 < length i" "length i \<le> SID_SIZE" "nat len = length i" using 1(3) len by auto
    obtain r tab new where f: "find_subscriber (sub_table st) i (length i) True = Some (r, tab)" "table_ok tab" "known tab = sids st @ new"
      "\<And>p. r = Some p \<Longrightarrow> p < length (known tab)" using find_total[OF ok(1) i(1,2)] by metis
    let ?st = "st\<lparr>sub_table := tab\<rparr>"
    have st: "table_ok (sub_table ?st)" "sids ?st = sids st @ new" using f(2,3) by simp_all
    have c: "valid_ptr ?st (ctx_sender c)" "valid_ptr ?st (ctx_previous c)" "explain_ok c"
      using ok(2) valid_ptr_mono[OF _ st(2)] by (simp_all add: ctx_ok_def)
    show ?thesis
    proof (cases r)
      case (Some p)
      have p: "p < length (sids ?st)" using f(4)[OF Some] by simp
      then have "valid_ptr ?st (Some p)" by (simp add: valid_ptr_def)
      then have "ctx_ok ?st (c\<lparr>ctx_previous := Some p\<rparr>)" using c by (simp add: ctx_ok_def explain_ok_def)
      moreover have "find_subscr_buffer (Some c) b len True st = Some (0, Some (Some p), Some (c\<lparr>ctx_previous := Some p\<rparr>), b', ?st)"
        using len 1 i(3) f(1) Some by (simp add: find_subscr_buffer_def)
      moreover have "case Some (Some p) of Some (Some p) \<Rightarrow> p < length (sids ?st) | _ \<Rightarrow> (0 :: int) = 0 \<longrightarrow> invalid_addresses (c\<lparr>ctx_previous := Some p\<rparr>) = 1"
        using p by (simp only: option.case)
      moreover have "others ?st = others st" "ctx_header (c\<lparr>ctx_previous := Some p\<rparr>) = ctx_header c"
        "invalid_addresses (c\<lparr>ctx_previous := Some p\<rparr>) \<in> {invalid_addresses c, 1}" by simp_all
      ultimately show ?thesis using st 1(4) by blast
    next
      case None
      define c1 where "c1 = explain_frame ?st MDP_MTU (c\<lparr>invalid_addresses := 1\<rparr>)"
      have "explain_ok (c\<lparr>invalid_addresses := 1\<rparr>)" using c(3) by (simp add: explain_ok_def)
      then have c1: "explain_ok c1" "please_explain c1 \<noteq> None" "c1 = c\<lparr>invalid_addresses := 1\<rparr>\<lparr>please_explain := please_explain c1\<rparr>"
        unfolding c1_def by (rule explain_frame_ok, simp)+
      obtain stop c2 st2 where e: "explain_matching i (c1, ?st) = Some (stop, c2, st2)" "explains c1 ?st c2 st2"
        using explain_matching_ok[OF st(1) c1(1) i(2)] by blast
      have c2: "explain_ok c2" "please_explain c2 \<noteq> None" "c2 = c1\<lparr>please_explain := please_explain c2\<rparr>" "table_ok (sub_table st2)" "sids st2 = sids ?st" "others st2 = others ?st"
        using e(2) c1(2) by (simp_all add: explains_def)
      obtain f p where fp: "please_explain c2 = Some f" "frame_payload f = Some p" "ob_inv p" using c2(1,2) by (auto simp: explain_ok_def)
      obtain r1 p1 where p1: "ob_append_byte p (word_of_int len) = Some (r1, p1)" "ob_inv p1"
        using ob_append_bytes_total[OF fp(3), of 1 "[word_of_int len]"] by (auto simp: ob_append_byte_eq)
      obtain r2 p2 where p2: "ob_append_bytes p1 i len = Some (r2, p2)" "ob_inv p2" using ob_append_bytes_total[OF p1(2), of len i] 1(3) len by auto
      let ?c = "c2\<lparr>please_explain := Some (f\<lparr>frame_payload := Some p2\<rparr>)\<rparr>"
      have x: "find_subscr_buffer (Some c) b len True st = Some (0, Some None, Some ?c, b', st2)"
        using len 1 i(3) f(1) None e(1) fp p1 p2 by (simp add: find_subscr_buffer_def c1_def)
      have "sids st2 = sids st @ new" using c2(5) st(2) by (simp only:)
      moreover have "ctx_sender ?c = ctx_sender c" "ctx_previous ?c = ctx_previous c" "invalid_addresses ?c = 1"
        by (subst c2(3), subst c1(3), simp)+
      moreover have "valid_ptr st2 (ctx_sender c)" "valid_ptr st2 (ctx_previous c)"
        using c(1,2) c2(5) unfolding valid_ptr_def by (simp_all only:)
      ultimately have y: "sids st2 = sids st @ new" "ctx_ok st2 ?c" "invalid_addresses ?c = 1" using p2(2) by (simp_all add: ctx_ok_def explain_ok_def)
      then have "case Some None of Some (Some p) \<Rightarrow> p < length (sids st2) | _ \<Rightarrow> (0 :: int) = 0 \<longrightarrow> invalid_addresses ?c = 1" by simp
      moreover have "others st2 = others st" using c2(6) by simp
      moreover have "ctx_header ?c = ctx_header c" "invalid_addresses ?c \<in> {invalid_addresses c, 1}" by (subst c2(3), subst c1(3), simp)+
      ultimately show ?thesis using x y(1,2) c2(4) 1(4) by blast
    qed
  qed
qed

lemma overlay_address_parse_total:
  assumes ok: "table_ok (sub_table st)" "ctx_ok st c" "ob_inv b"
  shows "\<exists>r out c' b' st' new. overlay_address_parse (Some c) b st = Some (r, out, Some c', b', st') \<and> r \<in> {0, -1} \<and>
    table_ok (sub_table st') \<and> sids st' = sids st @ new \<and> ctx_ok st' c' \<and> ob_inv b' \<and> others st' = others st \<and> ctx_header c' = ctx_header c \<and> invalid_addresses c' \<in> {invalid_addresses c, 1} \<and>
    (case out of Some (Some p) \<Rightarrow> p < length (sids st') | _ \<Rightarrow> r = 0 \<longrightarrow> invalid_addresses c' = 1)"
proof -
  obtain len b1 where b1: "ob_get b = Some (len, b1)" "ob_inv b1" using ob_get_total[OF ok(3)] by blast
  consider "len < 0" | "len = OA_CODE_SELF" | "len = OA_CODE_PREVIOUS" | "0 \<le> len" "len \<noteq> OA_CODE_SELF" "len \<noteq> OA_CODE_PREVIOUS" by linarith
  then show ?thesis
  proof cases
    case 1
    then show ?thesis using ok b1 by (auto simp: overlay_address_parse_def)
  next
    case 2
    then show ?thesis using ok b1 by (cases "ctx_sender c") (auto simp: overlay_address_parse_def ctx_ok_def valid_ptr_def explain_ok_def ctx_header_def)
  next
    case 3
    then show ?thesis using ok b1 by (cases "ctx_previous c") (auto simp: overlay_address_parse_def ctx_ok_def valid_ptr_def explain_ok_def ctx_header_def)
  next
    case 4
    then have "overlay_address_parse (Some c) b st = find_subscr_buffer (Some c) b1 len True st" using b1(1) by (simp add: overlay_address_parse_def)
    then show ?thesis using find_subscr_buffer_total[OF ok(1,2) b1(2), of len] by simp
  qed
qed

text \<open>C16. Parsing an address from arbitrary bytes never faults, keeps the table and the
  context well-formed, adds no more than the address it read, and returns either an error, a
  known subscriber or an address marked invalid; it never returns 1.\<close>

theorem overlay_address_parse_safe:
  assumes ok: "table_ok (sub_table st)" "ctx_ok st c" "ob_inv b"
  shows "\<exists>r out c' b' st' new. overlay_address_parse (Some c) b st = Some (r, out, Some c', b', st') \<and> r \<in> {0, -1} \<and>
    table_ok (sub_table st') \<and> sids st' = sids st @ new \<and> ctx_ok st' c' \<and> ob_inv b' \<and>
    (case out of Some (Some p) \<Rightarrow> p < length (sids st') | _ \<Rightarrow> r = 0 \<longrightarrow> invalid_addresses c' = 1)"
  using overlay_address_parse_total[OF assms] by blast

text \<open>Without a context, as in the STUN services of \<open>overlay_link.c\<close>, the parser dereferences
  NULL on the codes for the sender and the previous address and on every abbreviation that does
  not resolve.\<close>

lemma parse_without_context:
  assumes ok: "table_ok (sub_table st)" "ob_inv b" and u: "ob_unread b = v # i @ vs"
    and v: "v = 0xff \<or> v = 0xfe \<or>
      v = of_nat (length i) \<and> 0 < length i \<and> length i < SID_SIZE \<and> \<not> (\<exists>p. {q. q < length (sids st) \<and> take (length i) (sids st ! q) = i} = {p})"
  shows "overlay_address_parse None b st = None"
proof -
  obtain b1 where b1: "ob_get b = Some (uint v, b1)" "ob_inv b1" "ob_unread b1 = i @ vs" using ob_read_byte[OF ok(2) u] by auto
  show ?thesis
  proof (cases "v = 0xff \<or> v = 0xfe")
    case True
    then show ?thesis using b1 by (auto simp: overlay_address_parse_def)
  next
    case False
    then have i: "v = of_nat (length i)" "0 < length i" "length i < SID_SIZE" "\<not> (\<exists>p. {q. q < length (sids st) \<and> take (length i) (sids st ! q) = i} = {p})"
      using v by auto
    have len: "uint v = int (length i)" using i(1,3) uint_small[of "length i"] by simp
    obtain b2 where b2: "ob_get_bytes_ptr b1 (int (length i)) = (Some (position b1), b2)" "c_getn (ob_mem b2) (position b1) (int (length i)) = Some i"
      using ob_ptr_read[OF b1(2), of "length i"] b1(3) by auto
    obtain r where r: "find_subscriber (sub_table st) i (length i) True = Some (r, sub_table st)"
      "the_one {p. p < length (sids st) \<and> take (length i) (sids st ! p) = take (length i) i} r"
      using find_abbreviation[OF ok(1) i(2), of i True] i(3) by auto
    have "r = None" using r(2) i(4) by (cases r) (simp_all add: the_one_def del: nth_map)
    then show ?thesis using b1(1) b2 r(1) i(2,3) by (simp add: overlay_address_parse_def find_subscr_buffer_def len)
  qed
qed

subsection \<open>Explanations\<close>

text \<open>The entries of an explanation message, up to the first malformed one, and whether there is
  none.\<close>

function explain_entries :: "byte list \<Rightarrow> byte list list \<times> bool" where
  "explain_entries [] = ([], True)"
| "explain_entries (v # vs) =
     (if unat v = 0 \<or> unat v > SID_SIZE \<or> length vs < unat v then ([], False)
      else let (es, ok) = explain_entries (drop (unat v) vs) in (take (unat v) vs # es, ok))"
  by pat_completeness auto
termination by (relation "measure length") auto

abbreviation full_ids :: "byte list list \<Rightarrow> byte list set" where
  "full_ids es \<equiv> {e \<in> set es. length e = SID_SIZE}"

lemma new_ids_step:
  "A = (if c then {s} - S else {}) \<Longrightarrow> N = F - (S \<union> A) \<Longrightarrow> A \<union> N = ((if c then {s} else {}) \<union> F) - S"
  by auto

lemma explain_loop:
  assumes "ob_unread b = us" "table_ok (sub_table st)" "explain_ok c" "ob_inv b" "0 \<le> sizeLimit b" "sizeLimit b \<le> allocSize b"
  shows "\<exists>c' st' new. process_explain_loop c b st = Some (if snd (explain_entries us) then 0 else -1, c', st') \<and>
    table_ok (sub_table st') \<and> explain_ok c' \<and> c' = c\<lparr>please_explain := please_explain c'\<rparr> \<and> sids st' = sids st @ new \<and> others st' = others st \<and>
    set new = full_ids (fst (explain_entries us)) - set (sids st)"
  using assms
proof (induction us arbitrary: b c st rule: explain_entries.induct)
  case 1
  have "ob_remaining b = 0" using ob_unread_length[OF 1(4)] 1(1,5,6) by (simp add: ob_remaining_def)
  then show ?case using 1 by (subst process_explain_loop.simps) auto
next
  case (2 v vs)
  have rem: "0 < ob_remaining b" using ob_unread_length[OF 2(5)] 2(2,6,7) by (simp add: ob_remaining_def)
  define b1 where "b1 = b\<lparr>position := position b + 1\<rparr>"
  have b1: "ob_get b = Some (uint v, b1)" "ob_inv b1" "ob_unread b1 = vs"
    using ob_get_next[OF 2(5,2)] ob_unread_advance[OF 2(5), of 1] 2(2) by (simp_all add: b1_def)
  have uv: "uint v = int (unat v)" by simp
  have bounds: "uint v \<le> 0 \<longleftrightarrow> unat v = 0" "uint v > int SID_SIZE \<longleftrightarrow> unat v > SID_SIZE" "uint v = int SID_SIZE \<longleftrightarrow> unat v = SID_SIZE" "nat (uint v) = unat v"
    using uv by linarith+
  note loop = process_explain_loop.simps[of c b st]
  consider (bad) "unat v = 0 \<or> unat v > SID_SIZE" | (short) "\<not> (unat v = 0 \<or> unat v > SID_SIZE)" "length vs < unat v"
    | (good) "\<not> (unat v = 0 \<or> unat v > SID_SIZE \<or> length vs < unat v)" by blast
  then show ?case
  proof cases
    case bad
    then have "uint v \<le> 0 \<or> uint v > int SID_SIZE" unfolding bounds .
    then show ?thesis using loop rem b1(1) bad 2(3,4) by auto
  next
    case short
    have "\<not> uint v \<le> int (length (ob_unread b1))" unfolding b1(3) using short(2) uv by linarith
    then have "test_offset b1 (position b1) (uint v) = -1" using test_offset_unread[OF b1(2), of "uint v"] by simp
    then have "ob_get_bytes_ptr b1 (uint v) = (None, b1)" by (simp add: ob_get_bytes_ptr_def)
    moreover have "\<not> (uint v \<le> 0 \<or> uint v > int SID_SIZE)" using short(1) unfolding bounds .
    ultimately show ?thesis using loop rem b1(1) short 2(3,4) by auto
  next
    case good
    let ?n = "unat v" and ?s = "take (unat v) vs"
    have g: "\<not> (uint v \<le> 0 \<or> uint v > int SID_SIZE)" "nat (uint v) = ?n" "uint v = int SID_SIZE \<longleftrightarrow> ?n = SID_SIZE" using good unfolding bounds by blast+
    have ls: "length ?s = ?n" "0 < length ?s" "length ?s \<le> SID_SIZE" using good by auto
    define b2 where "b2 = b1\<lparr>position := position b1 + uint v\<rparr>"
    have "uint v \<le> int (length (ob_unread b1))" unfolding b1(3) using good uv by linarith
    then have t: "test_offset b1 (position b1) (uint v) = 0" using test_offset_unread[OF b1(2), of "uint v"] by simp
    then have p: "ob_get_bytes_ptr b1 (uint v) = (Some (position b1), b2)" by (simp add: ob_get_bytes_ptr_def b2_def)
    have b2: "c_getn (ob_mem b2) (position b1) (uint v) = Some ?s" "ob_inv b2" "ob_unread b2 = drop ?n vs"
      using ob_ptr_read[OF b1(2), of ?n] b1(3) good p[unfolded uv] unfolding uv by auto
    have lim: "0 \<le> sizeLimit b2" "sizeLimit b2 \<le> allocSize b2" using 2(6,7) by (simp_all add: b2_def b1_def)
    obtain c1 st1 new1 where s1: "(if uint v = int SID_SIZE then do {
             (_, tab) \<leftarrow> find_subscriber (sub_table st) ?s (nat (uint v)) True;
             Some (c, st\<lparr>sub_table := tab\<rparr>)
           } else do { (_, context, st) \<leftarrow> explain_matching ?s (c, st); Some (context, st) }) = Some (c1, st1)"
        "table_ok (sub_table st1)" "explain_ok c1" "c1 = c\<lparr>please_explain := please_explain c1\<rparr>" "sids st1 = sids st @ new1" "others st1 = others st"
        "set new1 = (if ?n = SID_SIZE then {?s} - set (sids st) else {})"
    proof (cases "?n = SID_SIZE")
      case True
      obtain r tab new where "find_subscriber (sub_table st) ?s (length ?s) True = Some (r, tab)" "table_ok tab" "known tab = sids st @ new"
        "set new = (if length ?s = SID_SIZE then {?s} - set (sids st) else {})" using find_total[OF 2(3) ls(2,3)] by metis
      then show thesis using that[of c "st\<lparr>sub_table := tab\<rparr>" new] True g(2,3) ls(1) 2(4) by simp
    next
      case False
      obtain stop c1 st1 where "explain_matching ?s (c, st) = Some (stop, c1, st1)" "explains c st c1 st1" using explain_matching_ok[OF 2(3,4) ls(3)] by blast
      then show thesis using that[of c1 st1 "[]"] False g(3) by (simp add: explains_def)
    qed
    obtain c' st' new where ih: "process_explain_loop c1 b2 st1 = Some (if snd (explain_entries (drop ?n vs)) then 0 else -1, c', st')"
      "table_ok (sub_table st')" "explain_ok c'" "c' = c1\<lparr>please_explain := please_explain c'\<rparr>" "sids st' = sids st1 @ new" "others st' = others st1"
      "set new = full_ids (fst (explain_entries (drop ?n vs))) - set (sids st1)"
      using 2(1)[OF good b2(3) s1(2,3) b2(2) lim] by blast
    obtain es k where es: "explain_entries (drop ?n vs) = (es, k)" by force
    have e: "explain_entries (v # vs) = (?s # es, k)" using good es by simp
    have "process_explain_loop c b st = Some (if k then 0 else -1, c', st')"
      unfolding loop using rem b1(1) g(1) p b2(1) s1(1) ih(1) es by simp
    moreover have "sids st' = sids st @ (new1 @ new)" using ih(5) s1(5) by (simp only: append_assoc)
    moreover have "set (new1 @ new) = full_ids (?s # es) - set (sids st)"
    proof -
      have ns: "full_ids (?s # es) = (if ?n = SID_SIZE then {?s} else {}) \<union> full_ids es" using ls(1) by auto
      have "set new = full_ids es - (set (sids st) \<union> set new1)" using ih(7) unfolding es s1(5) by (simp only: fst_conv set_append)
      then show ?thesis unfolding ns set_append by (rule new_ids_step[OF s1(7)])
    qed
    moreover have "c' = c\<lparr>please_explain := please_explain c'\<rparr>" using ih(4) s1(4)
      by (metis (no_types, lifting) decode_context.surjective decode_context.update_convs(7))
    moreover have "others st' = others st" using ih(6) s1(6) by simp
    ultimately show ?thesis unfolding e fst_conv snd_conv using ih(2,3) by blast
  qed
qed

lemma send_please_explain_total:
  assumes "valid_ptr st destination"
  shows "\<exists>r f. send_please_explain enqueue random c source destination st = Some (r, f)"
proof (cases "please_explain c")
  case None
  then show ?thesis by (simp add: send_please_explain_def)
next
  case (Some f)
  obtain x where "(case destination of None \<Rightarrow> Some False | Some p \<Rightarrow> do { d \<leftarrow> deref st p; Some (reachable d AND REACHABLE \<noteq> 0) }) = Some x"
    using assms deref_known[of _ st] by (cases destination) (auto simp: valid_ptr_def)
  then show ?thesis using Some by (simp add: send_please_explain_def Let_def)
qed

lemma process_explain_total:
  assumes "table_ok (sub_table st)" "frame_payload frame = Some b" "ob_inv b" "0 \<le> sizeLimit b" "sizeLimit b \<le> allocSize b"
    "valid_ptr st (frame_source frame)"
  shows "\<exists>reply st' new. process_explain enqueue random frame st = Some (if snd (explain_entries (ob_unread b)) then 0 else -1, reply, st') \<and>
    table_ok (sub_table st') \<and> sids st' = sids st @ new \<and> others st' = others st \<and> set new = full_ids (fst (explain_entries (ob_unread b))) - set (sids st)"
proof -
  let ?c = "empty_context\<lparr>ctx_sender := frame_source frame\<rparr>"
  have "explain_ok ?c" by (simp add: explain_ok_def empty_context_def)
  then obtain c' st' new where l: "process_explain_loop ?c b st = Some (if snd (explain_entries (ob_unread b)) then 0 else -1, c', st')"
    "table_ok (sub_table st')" "sids st' = sids st @ new" "others st' = others st" "set new = full_ids (fst (explain_entries (ob_unread b))) - set (sids st)"
    using explain_loop[OF refl assms(1) _ assms(3-5)] by blast
  obtain r f where "send_please_explain enqueue random c' (frame_destination frame) (frame_source frame) st' = Some (r, f)"
    using send_please_explain_total[OF valid_ptr_mono[OF assms(6) l(3)]] by blast
  then have "\<exists>reply. process_explain enqueue random frame st = Some (if snd (explain_entries (ob_unread b)) then 0 else -1, reply, st')"
    using assms(2) l(1) by (simp add: process_explain_def)
  then show ?thesis using l(2-5) by blast
qed

text \<open>C17. Whatever a received explanation message contains, processing it ends without a fault,
  keeps the table well-formed and adds to the known subscribers exactly the full ids that
  precede the first malformed entry; the message is rejected if and only if there is one.\<close>

theorem process_explain_learns:
  assumes "table_ok (sub_table st)" "frame_payload frame = Some b" "ob_inv b" "0 \<le> sizeLimit b" "sizeLimit b \<le> allocSize b"
    "valid_ptr st (frame_source frame)"
  shows "\<exists>reply st' new. process_explain enqueue random frame st = Some (if snd (explain_entries (ob_unread b)) then 0 else -1, reply, st') \<and>
    table_ok (sub_table st') \<and> sids st' = sids st @ new \<and> set new = full_ids (fst (explain_entries (ob_unread b))) - set (sids st)"
  using process_explain_total[OF assms] by blast

subsection \<open>Addresses on the wire\<close>

text \<open>A state for examples: two known subscribers, nothing seen.\<close>

definition example_state :: overlay_state where
  "example_state = \<lparr>sub_table = two_subscribers, my_subscriber = Some 0, bpilist = cleared_bpilist, clock = (\<lambda>_. 0), readings = 0,
     link_explanations = [], links = \<lparr>neighbours = [], link_send_alarm = 0\<rparr>, malloc_fill = (\<lambda>_. 0)\<rparr>"

lemma example_state_ok:
  "table_ok (sub_table example_state)" "length (sids example_state) = 2" "sids example_state = [replicate 32 0x01, replicate 32 0x02]"
  using two_subscribers_ok two_subscribers_known by (simp_all add: example_state_def)

lemma same_subscriber_refl: "p < length (sids st) \<Longrightarrow> same_subscriber st st p p"
  by (simp add: same_subscriber_def)

text \<open>A walk for an abbreviation also meets a subscriber that does not match it.\<close>

lemma explains_other_subscriber:
  "along (nibbles [0x0F]) [Sub 0, Empty, Empty, Empty, Empty, Empty, Empty, Empty, Empty, Empty, Empty, Empty, Empty, Empty, Empty, Empty] = [0]"
  by simp

text \<open>The addresses one node appends to a packet, as codes, abbreviations or full ids, are
  resolved by another node to the same subscribers, with the two contexts staying in step,
  when the receiver knows these subscribers and none that the sender does not know.\<close>

lemma addresses_on_the_wire:
  assumes "table_ok (sub_table sS)" "table_ok (sub_table sR)" "set (sids sR) \<subseteq> set (sids sS)"
    "list_all2 (same_subscriber sS sR) ps qs" "in_step sS sR cS cR" "ob_inv b" "ob_fits b (33 * int (length ps))"
  shows "\<exists>cS' b' sS' cR' r. append_addresses ps cS b sS = Some (cS', b', sS') \<and>
    parse_addresses (length ps) cR (b'\<lparr>position := position b\<rparr>) sR = Some (qs, cR', r, sR) \<and> ob_unread r = ob_unread b' \<and>
    invalid_addresses cR' = invalid_addresses cR"
proof -
  obtain vs cS' b' sS' cR' where a: "append_addresses ps cS b sS = Some (cS', b', sS')" "ob_inv b'" "ob_data b' = ob_data b @ vs"
    "\<forall>r rest. ob_inv r \<longrightarrow> ob_unread r = vs @ rest \<longrightarrow>
      (\<exists>r'. parse_addresses (length ps) cR r sR = Some (qs, cR', r', sR) \<and> ob_inv r' \<and> ob_unread r' = rest)"
    "invalid_addresses cR' = invalid_addresses cR"
    using addresses_roundtrip[OF assms] by blast
  have "ob_inv (b'\<lparr>position := position b\<rparr>)" "ob_unread (b'\<lparr>position := position b\<rparr>) = vs @ ob_unread b'"
    using ob_inv_back[OF assms(6) a(2,3)] ob_unread_written[OF assms(6) a(2,3)] by simp_all
  then show ?thesis using a(1,4,5) by blast
qed


lemma empty_context_ok: "ctx_ok st empty_context"
  by (simp add: ctx_ok_def valid_ptr_def explain_ok_def empty_context_def)

definition example_bytes :: "byte list \<Rightarrow> overlay_buffer" where
  "example_bytes bs = (ob_static (\<lambda>_. 0) bs (int (length bs)))\<lparr>sizeLimit := int (length bs)\<rparr>"

lemma example_bytes_ok:
  "ob_inv (example_bytes bs)" "ob_unread (example_bytes bs) = bs" "sizeLimit (example_bytes bs) = int (length bs)" "allocSize (example_bytes bs) = int (length bs)"
  by (simp_all add: example_bytes_def ob_static_def ob_unlimitsize_def ob_calloc_def ob_inv_def ob_mem_def ob_unread_def)

theorem overlay_address_parse_safe_witness:
  "\<exists>r out c' b' st'. overlay_address_parse (Some empty_context) (example_bytes [1, 0]) example_state = Some (r, out, c', b', st') \<and> r \<in> {0, -1}"
  using overlay_address_parse_safe[OF example_state_ok(1) empty_context_ok example_bytes_ok(1), of "[1, 0]"] by blast

theorem process_explain_learns_witness:
  "\<exists>reply st' new. process_explain (\<lambda>_. 0) (\<lambda>_. 0) (empty_frame\<lparr>frame_payload := Some (example_bytes (32 # replicate 32 3))\<rparr>) example_state =
    Some (0, reply, st') \<and> sids st' = sids example_state @ new \<and> set new = {replicate 32 3}"
proof -
  let ?f = "empty_frame\<lparr>frame_payload := Some (example_bytes (32 # replicate 32 3))\<rparr>"
  have e: "explain_entries (32 # replicate 32 3) = ([replicate 32 3], True)" by simp
  have "full_ids [replicate 32 3] - set (sids example_state) = {replicate 32 3}" unfolding example_state_ok(3) by auto
  moreover have "valid_ptr example_state (frame_source ?f)" by (simp add: valid_ptr_def empty_frame_def)
  ultimately show ?thesis
    using process_explain_learns[OF example_state_ok(1), of ?f "example_bytes (32 # replicate 32 3)" "\<lambda>_. 0" "\<lambda>_. 0"] e
    by (auto simp: example_bytes_ok)
qed

end
