(* ===== verification/Overlay_Frame.thy ===== *)
theory Overlay_Frame
  imports Overlay_Address_Correct
begin

text \<open>
  The frames of an overlay packet: \<open>overlay_payload.c\<close>, which turns a frame into bytes, and
  \<open>overlay_packetformats.c\<close>, which writes packet headers, parses packets and hands on their
  frames. Arguments stand for the parts of the daemon that are called but not modelled: the
  queue that takes a frame, the services that receive one and the routing module's bookkeeping.
  Where a C function returns through pointers, the result is a tuple of the return code, the
  context, the frame, the buffer and the state.
\<close>

abbreviation (input) PAYLOAD_FLAG_SENDER_SAME :: int where "PAYLOAD_FLAG_SENDER_SAME \<equiv> 0x01"
abbreviation (input) PAYLOAD_FLAG_TO_BROADCAST :: int where "PAYLOAD_FLAG_TO_BROADCAST \<equiv> 0x02"
abbreviation (input) PAYLOAD_FLAG_ONE_HOP :: int where "PAYLOAD_FLAG_ONE_HOP \<equiv> 0x04"
abbreviation (input) PAYLOAD_FLAG_CIPHERED :: int where "PAYLOAD_FLAG_CIPHERED \<equiv> 0x10"
abbreviation (input) PAYLOAD_FLAG_SIGNED :: int where "PAYLOAD_FLAG_SIGNED \<equiv> 0x20"
abbreviation (input) PAYLOAD_FLAG_LEGACY_TYPE :: int where "PAYLOAD_FLAG_LEGACY_TYPE \<equiv> 0x80"
abbreviation (input) PAYLOAD_TTL_MAX :: int where "PAYLOAD_TTL_MAX \<equiv> 31"
abbreviation (input) OF_TYPE_DATA :: int where "OF_TYPE_DATA \<equiv> 0x30"
abbreviation (input) ENCAP_OVERLAY :: int where "ENCAP_OVERLAY \<equiv> 1"
abbreviation (input) ENCAP_SINGLE :: int where "ENCAP_SINGLE \<equiv> 2"
abbreviation (input) SUPPORTED_PACKET_VERSION :: int where "SUPPORTED_PACKET_VERSION \<equiv> 1"
abbreviation (input) OF_TYPE_SELFANNOUNCE_ACK :: int where "OF_TYPE_SELFANNOUNCE_ACK \<equiv> 0x20"
abbreviation (input) OF_TYPE_DATA_VOICE :: int where "OF_TYPE_DATA_VOICE \<equiv> 0x40"
abbreviation (input) OF_TYPE_RHIZOME_ADVERT :: int where "OF_TYPE_RHIZOME_ADVERT \<equiv> 0x50"
abbreviation (input) REACHABLE_NONE :: int where "REACHABLE_NONE \<equiv> 0"
abbreviation (input) REACHABLE_BROADCAST :: int where "REACHABLE_BROADCAST \<equiv> 2"
abbreviation (input) REACHABLE_UNICAST :: int where "REACHABLE_UNICAST \<equiv> 4"
abbreviation (input) REACHABLE_ASSUMED :: int where "REACHABLE_ASSUMED \<equiv> 16"
abbreviation (input) PACKET_UNICAST :: int where "PACKET_UNICAST \<equiv> 1"
abbreviation (input) PACKET_INTERFACE :: int where "PACKET_INTERFACE \<equiv> 2"
abbreviation (input) PACKET_SEQ :: int where "PACKET_SEQ \<equiv> 4"
abbreviation (input) HEADER_PROCESS :: int where "HEADER_PROCESS \<equiv> 1"
abbreviation (input) HEADER_FORWARD :: int where "HEADER_FORWARD \<equiv> 2"

subsection \<open>Writing frames\<close>

definition header_flags :: "decode_context \<Rightarrow> int \<Rightarrow> int \<Rightarrow> int \<Rightarrow> byte list option \<Rightarrow> nat option \<Rightarrow> nat option \<Rightarrow> nat option \<Rightarrow> int" where
  "header_flags context type modifiers ttl baddr next_hop destination source =
     (let flags = modifiers AND (PAYLOAD_FLAG_CIPHERED OR PAYLOAD_FLAG_SIGNED);
          flags = (if ttl = 1 \<and> baddr = None then flags OR PAYLOAD_FLAG_ONE_HOP else flags);
          flags = (if destination \<noteq> None \<and> destination = next_hop then flags OR PAYLOAD_FLAG_ONE_HOP else flags);
          flags = (if source = ctx_sender context then flags OR PAYLOAD_FLAG_SENDER_SAME else flags);
          flags = (if destination = None then flags OR PAYLOAD_FLAG_TO_BROADCAST else flags)
      in if type \<noteq> OF_TYPE_DATA then flags OR PAYLOAD_FLAG_LEGACY_TYPE else flags)"

text \<open>The result is the return code, the context, the buffer and the state. The steps of a header
  are run in order until one fails.\<close>

type_synonym build_result = "(int \<times> decode_context \<times> overlay_buffer \<times> overlay_state) option"

definition append_step :: "nat option \<Rightarrow> decode_context \<Rightarrow> overlay_buffer \<Rightarrow> overlay_state \<Rightarrow> build_result" where
  "append_step p context b st = do {
     (r, c, b, st) \<leftarrow> overlay_address_append (Some context) b p st;
     c \<leftarrow> c;
     Some (r, c, b, st)
   }"

definition byte_step :: "int \<Rightarrow> decode_context \<Rightarrow> overlay_buffer \<Rightarrow> overlay_state \<Rightarrow> build_result" where
  "byte_step v context b st = do { (r, b) \<leftarrow> ob_append_byte b (word_of_int v); Some (r, context, b, st) }"

definition broadcast_step :: "byte list option \<Rightarrow> decode_context \<Rightarrow> overlay_buffer \<Rightarrow> overlay_state \<Rightarrow> build_result" where
  "broadcast_step baddr context b st = do { addr \<leftarrow> baddr; (r, b) \<leftarrow> overlay_broadcast_append b addr; Some (r, context, b, st) }"

fun run_steps :: "(decode_context \<Rightarrow> overlay_buffer \<Rightarrow> overlay_state \<Rightarrow> build_result) list \<Rightarrow> decode_context \<Rightarrow> overlay_buffer \<Rightarrow> overlay_state \<Rightarrow> build_result" where
  "run_steps [] context b st = Some (0, context, b, st)"
| "run_steps (f # fs) context b st = do {
     (r, context, b, st) \<leftarrow> f context b st;
     if r \<noteq> 0 then Some (-1, context, b, st) else run_steps fs context b st
   }"

definition overlay_frame_build_header ::
    "int \<Rightarrow> decode_context \<Rightarrow> overlay_buffer \<Rightarrow> int \<Rightarrow> int \<Rightarrow> int \<Rightarrow> int \<Rightarrow> int \<Rightarrow> byte list option \<Rightarrow> nat option \<Rightarrow> nat option \<Rightarrow> nat option \<Rightarrow> overlay_state \<Rightarrow> build_result" where
  "overlay_frame_build_header packet_version context buff queue type modifiers ttl sequence baddr next_hop destination source st =
     (if ttl < 0 \<or> ttl > PAYLOAD_TTL_MAX then Some (-1, context, buff, st)
      else
        let flags = header_flags context type modifiers ttl baddr next_hop destination source
        in run_steps
          ([byte_step flags] @
           (if flags AND PAYLOAD_FLAG_SENDER_SAME = 0 then [append_step source] else []) @
           (if flags AND PAYLOAD_FLAG_TO_BROADCAST \<noteq> 0
            then (if flags AND PAYLOAD_FLAG_ONE_HOP = 0 then [broadcast_step baddr] else [])
            else [append_step destination] @ (if flags AND PAYLOAD_FLAG_ONE_HOP = 0 then [append_step next_hop] else [])) @
           (if flags AND PAYLOAD_FLAG_ONE_HOP = 0 then [byte_step (ttl OR push_bit 5 (queue AND 3))] else []) @
           (if flags AND PAYLOAD_FLAG_LEGACY_TYPE \<noteq> 0 then [byte_step type] else []) @
           (if packet_version \<ge> 1 then [byte_step sequence] else []))
          context buff st)"

text \<open>The broadcast address of a frame, NULL unless it goes to everyone and is not all zero.\<close>

definition frame_broadcast :: "overlay_frame \<Rightarrow> byte list option option" where
  "frame_broadcast p =
     (if frame_destination p = None then do {
        z \<leftarrow> is_all_matching (broadcast_id p) BROADCAST_LEN 0;
        Some (if z then None else Some (broadcast_id p))
      } else Some None)"

definition overlay_frame_append_payload :: "decode_context \<Rightarrow> overlay_frame \<Rightarrow> overlay_buffer \<Rightarrow> overlay_state \<Rightarrow> build_result" where
  "overlay_frame_append_payload context p b st = do {
     let b = ob_checkpoint b;
     baddr \<leftarrow> frame_broadcast p;
     (r, context, b, st) \<leftarrow> overlay_frame_build_header (frame_packet_version p) context b (frame_queue p) (frame_type p) (frame_modifiers p)
        (frame_ttl p) (mdp_sequence p AND 0xFF) baddr (frame_next_hop p) (frame_destination p) (frame_source p) st;
     if r \<noteq> 0 then Some (-1, context, ob_rewind b, st) else do {
       payload \<leftarrow> frame_payload p;
       (r, b) \<leftarrow> ob_append_ui16 b (word_of_int (ob_position payload));
       if r \<noteq> 0 then Some (-1, context, ob_rewind b, st) else do {
         (r, b) \<leftarrow> ob_append_bytes b (ob_mem payload) (ob_position payload);
         if r \<noteq> 0 then Some (-1, context, ob_rewind b, st) else Some (0, context, b, st)
       }
     }
   }"

definition op_dup :: "overlay_frame \<Rightarrow> overlay_frame option" where
  "op_dup f = (case frame_payload f of
     None \<Rightarrow> Some f
   | Some b \<Rightarrow> do { b \<leftarrow> ob_dup b; Some (f\<lparr>frame_payload := Some b\<rparr>) })"

subsection \<open>Packet headers\<close>

definition overlay_packet_init_header :: "int \<Rightarrow> int \<Rightarrow> decode_context \<Rightarrow> overlay_buffer \<Rightarrow> int \<Rightarrow> int \<Rightarrow> int \<Rightarrow> overlay_state \<Rightarrow> build_result" where
  "overlay_packet_init_header packet_version encapsulation context buff unicast iface seq st =
     (if packet_version < 0 \<or> packet_version > SUPPORTED_PACKET_VERSION then Some (-1, context, buff, st)
      else if encapsulation \<noteq> ENCAP_OVERLAY \<and> encapsulation \<noteq> ENCAP_SINGLE then Some (-1, context, buff, st)
      else do {
        (r, context, buff, st) \<leftarrow> run_steps [byte_step packet_version, byte_step encapsulation, append_step (my_subscriber st)] context buff st;
        if r \<noteq> 0 then Some (-1, context, buff, st) else do {
          let context = context\<lparr>ctx_sender := my_subscriber st\<rparr>;
          let flags = (if unicast \<noteq> 0 then PACKET_UNICAST else 0) OR (if iface \<noteq> 0 then PACKET_INTERFACE else 0) OR (if seq \<ge> 0 then PACKET_SEQ else 0);
          (_, buff) \<leftarrow> ob_append_byte buff (word_of_int flags);
          (_, buff) \<leftarrow> (if flags AND PACKET_INTERFACE \<noteq> 0 then ob_append_byte buff (word_of_int iface) else Some (0, buff));
          (_, buff) \<leftarrow> (if flags AND PACKET_SEQ \<noteq> 0 then ob_append_byte buff (word_of_int seq) else Some (0, buff));
          Some (0, context, buff, st)
        }
      })"

text \<open>The fields of an interface that are used here.\<close>

record overlay_interface =
  if_index :: nat
  tick_ms :: int
  sequence_number :: int
  broadcast_address :: "byte list"

definition single_packet_encapsulation ::
    "overlay_interface \<Rightarrow> overlay_buffer \<Rightarrow> overlay_frame \<Rightarrow> overlay_state \<Rightarrow> (int \<times> overlay_interface \<times> overlay_buffer \<times> overlay_state) option" where
  "single_packet_encapsulation interface b frame st = do {
     st \<leftarrow> (if source_full frame \<noteq> 0 then do {
              p \<leftarrow> my_subscriber st;
              s \<leftarrow> deref st p;
              Some (set_subscriber st p (s\<lparr>send_full := 1\<rparr>))
            } else Some st);
     let seq = sequence_number interface;
     let interface = interface\<lparr>sequence_number := seq + 1\<rparr>;
     (r, context, b, st) \<leftarrow> overlay_packet_init_header (frame_packet_version frame) ENCAP_SINGLE empty_context b 0 (int (if_index interface)) seq st;
     if r \<noteq> 0 then Some (-1, interface, b, st) else do {
       baddr \<leftarrow> frame_broadcast frame;
       (r, context, b, st) \<leftarrow> overlay_frame_build_header (frame_packet_version frame) context b (frame_queue frame) (frame_type frame)
          (frame_modifiers frame) (frame_ttl frame) (mdp_sequence frame AND 0xFF) baddr (frame_next_hop frame) (frame_destination frame)
          (frame_source frame) st;
       if r \<noteq> 0 then Some (-1, interface, b, st) else do {
         payload \<leftarrow> frame_payload frame;
         (r, b) \<leftarrow> ob_append_buffer b payload;
         Some (if r \<noteq> 0 then -1 else 0, interface, b, st)
       }
     }
   }"

subsection \<open>The routing module's part\<close>

definition link_state_should_forward_broadcast :: "nat option \<Rightarrow> overlay_state \<Rightarrow> (int \<times> overlay_state) option" where
  "link_state_should_forward_broadcast transmitter st =
     (case fst (get_neighbour (links st) transmitter False) of
        None \<Rightarrow> Some (1, st)
      | Some i \<Rightarrow> do {
          n \<leftarrow> c_get (neighbours (links st)) (int i);
          let (now, st) = gettime_ms st;
          Some (if using_us n \<noteq> 0 \<and> routing_through_us n < now then 0 else 1, st)
        })"

definition link_state_ack_soon :: "nat option \<Rightarrow> overlay_state \<Rightarrow> overlay_state option" where
  "link_state_ack_soon subscriber st =
     (case fst (get_neighbour (links st) subscriber False) of
        None \<Rightarrow> Some st
      | Some i \<Rightarrow> do {
          n \<leftarrow> c_get (neighbours (links st)) (int i);
          let (now, st) = gettime_ms st;
          let n = (if using_us n \<noteq> 0 \<and> next_neighbour_update n > now + 80 then n\<lparr>next_neighbour_update := now + 80\<rparr> else n);
          let t = (links st)\<lparr>neighbours := (neighbours (links st))[i := n]\<rparr>;
          Some (st\<lparr>links := update_alarm t (next_neighbour_update n)\<rparr>)
        })"

definition received_duplicate :: "nat option \<Rightarrow> int \<Rightarrow> overlay_state \<Rightarrow> (int \<times> overlay_state) option" where
  "received_duplicate sender seq st = do {
     (r, t) \<leftarrow> link_received_duplicate (links st) sender seq;
     Some (r, st\<lparr>links := t\<rparr>)
   }"

subsection \<open>Parsing a frame header\<close>

definition is_self :: "overlay_state \<Rightarrow> nat option \<Rightarrow> bool option" where
  "is_self st x = (case x of None \<Rightarrow> Some False | Some p \<Rightarrow> do { s \<leftarrow> deref st p; Some (reachable s = REACHABLE_SELF) })"

text \<open>The parts of a header in turn: each has the return code, whether the frame may still be
  processed and forwarded, and the context, frame, buffer and state.\<close>

type_synonym header_part = "(int \<times> bool \<times> bool \<times> decode_context \<times> overlay_frame \<times> overlay_buffer \<times> overlay_state) option"

definition parse_source :: "int \<Rightarrow> decode_context \<Rightarrow> overlay_frame \<Rightarrow> overlay_buffer \<Rightarrow> overlay_state \<Rightarrow> header_part" where
  "parse_source flags context frame buffer st =
     (if flags AND PAYLOAD_FLAG_SENDER_SAME \<noteq> 0
      then Some (0, True, True, if ctx_sender context = None then context\<lparr>invalid_addresses := 1\<rparr> else context,
             frame\<lparr>frame_source := ctx_sender context\<rparr>, buffer, st)
      else do {
        (r, x, context, buffer, st) \<leftarrow> overlay_address_parse (Some context) buffer st;
        context \<leftarrow> context;
        let frame = (case x of None \<Rightarrow> frame | Some p \<Rightarrow> frame\<lparr>frame_source := p\<rparr>);
        if r < 0 then Some (-1, False, False, context, frame, buffer, st) else do {
          self \<leftarrow> is_self st (frame_source frame);
          let good = (frame_source frame \<noteq> None \<and> \<not> self);
          Some (0, good, good, context, frame, buffer, st)
        }
      })"

definition parse_to_broadcast :: "int \<Rightarrow> decode_context \<Rightarrow> overlay_frame \<Rightarrow> overlay_buffer \<Rightarrow> overlay_state \<Rightarrow> header_part" where
  "parse_to_broadcast flags context frame buffer st =
     (if flags AND PAYLOAD_FLAG_ONE_HOP = 0 then do {
        ((r, addr), buffer) \<leftarrow> overlay_broadcast_parse buffer;
        if r \<noteq> 0 then Some (-1, False, False, context, frame, buffer, st) else do {
          let frame = frame\<lparr>broadcast_id := addr\<rparr>;
          (seen, st) \<leftarrow> overlay_broadcast_drop_check st addr;
          (relay, st) \<leftarrow> link_state_should_forward_broadcast (ctx_sender context) st;
          Some (0, seen = 0, seen = 0 \<and> relay \<noteq> 0, context, frame\<lparr>frame_destination := None\<rparr>, buffer, st)
        }
      } else Some (0, True, True, context, frame\<lparr>frame_destination := None\<rparr>, buffer, st))"

definition parse_to_subscriber :: "int \<Rightarrow> decode_context \<Rightarrow> overlay_frame \<Rightarrow> overlay_buffer \<Rightarrow> overlay_state \<Rightarrow> header_part" where
  "parse_to_subscriber flags context frame buffer st = do {
     (r, x, context, buffer, st) \<leftarrow> overlay_address_parse (Some context) buffer st;
     context \<leftarrow> context;
     let frame = (case x of None \<Rightarrow> frame | Some p \<Rightarrow> frame\<lparr>frame_destination := p\<rparr>);
     if r < 0 then Some (-1, False, False, context, frame, buffer, st) else do {
       process \<leftarrow> is_self st (frame_destination frame);
       if flags AND PAYLOAD_FLAG_ONE_HOP = 0 then do {
         (r, nexthop, context, buffer, st) \<leftarrow> overlay_address_parse (Some context) buffer st;
         context \<leftarrow> context;
         if r < 0 then Some (-1, False, False, context, frame, buffer, st) else do {
           forward \<leftarrow> is_self st (case nexthop of None \<Rightarrow> None | Some p \<Rightarrow> p);
           Some (0, process, forward, context, frame, buffer, st)
         }
       } else Some (0, process, True, context, frame, buffer, st)
     }
   }"

definition parse_ttl :: "int \<Rightarrow> overlay_frame \<Rightarrow> overlay_buffer \<Rightarrow> (int \<times> overlay_frame \<times> overlay_buffer) option" where
  "parse_ttl flags frame buffer =
     (if flags AND PAYLOAD_FLAG_ONE_HOP \<noteq> 0 then Some (0, frame\<lparr>frame_ttl := 0\<rparr>, buffer)
      else do {
        (ttl_qos, buffer) \<leftarrow> ob_get buffer;
        if ttl_qos < 0 then Some (-1, frame, buffer) else do {
          let ttl = ttl_qos AND 0x1F;
          Some (0, frame\<lparr>frame_queue := drop_bit 5 ttl_qos AND 3, frame_ttl := (if ttl \<noteq> 0 then ttl - 1 else 0)\<rparr>, buffer)
        }
      })"

definition parse_type :: "int \<Rightarrow> overlay_frame \<Rightarrow> overlay_buffer \<Rightarrow> (int \<times> overlay_frame \<times> overlay_buffer) option" where
  "parse_type flags frame buffer =
     (if flags AND PAYLOAD_FLAG_LEGACY_TYPE \<noteq> 0 then do {
        (ftype, buffer) \<leftarrow> ob_get buffer;
        if ftype = -1 then Some (-1, frame, buffer) else Some (0, frame\<lparr>frame_type := ftype\<rparr>, buffer)
      } else Some (0, frame\<lparr>frame_type := OF_TYPE_DATA\<rparr>, buffer))"

text \<open>The last result is whether the payload is a duplicate.\<close>

definition parse_seq :: "int \<Rightarrow> decode_context \<Rightarrow> overlay_buffer \<Rightarrow> overlay_state \<Rightarrow> (int \<times> bool \<times> overlay_buffer \<times> overlay_state) option" where
  "parse_seq flags context buffer st =
     (if ctx_packet_version context \<ge> 1 then do {
        (seq, buffer) \<leftarrow> ob_get buffer;
        if seq = -1 then Some (-1, False, buffer, st)
        else if flags AND PAYLOAD_FLAG_ONE_HOP \<noteq> 0 \<or> flags AND PAYLOAD_FLAG_TO_BROADCAST = 0 then do {
          (r, st) \<leftarrow> received_duplicate (ctx_sender context) seq st;
          Some (0, r \<noteq> 0, buffer, st)
        } else Some (0, False, buffer, st)
      } else Some (0, False, buffer, st))"

type_synonym header_result = "(int \<times> decode_context \<times> overlay_frame \<times> overlay_buffer \<times> overlay_state) option"

text \<open>The header is its flags, the addresses and the fields after them.\<close>

definition parse_endpoints :: "int \<Rightarrow> decode_context \<Rightarrow> overlay_frame \<Rightarrow> overlay_buffer \<Rightarrow> overlay_state \<Rightarrow> header_part" where
  "parse_endpoints flags context frame buffer st = do {
     (r, process, forward, context, frame, buffer, st) \<leftarrow> parse_source flags context frame buffer st;
     if r < 0 then Some (-1, False, False, context, frame, buffer, st) else do {
       (r, process', forward', context, frame, buffer, st) \<leftarrow>
         (if flags AND PAYLOAD_FLAG_TO_BROADCAST \<noteq> 0 then parse_to_broadcast flags context frame buffer st
          else parse_to_subscriber flags context frame buffer st);
       Some (r, process \<and> process', forward \<and> forward', context, frame, buffer, st)
     }
   }"

definition parse_fields :: "int \<Rightarrow> decode_context \<Rightarrow> overlay_frame \<Rightarrow> overlay_buffer \<Rightarrow> overlay_state \<Rightarrow>
    (int \<times> bool \<times> overlay_frame \<times> overlay_buffer \<times> overlay_state) option" where
  "parse_fields flags context frame buffer st = do {
     (r, frame, buffer) \<leftarrow> parse_ttl flags frame buffer;
     if r < 0 then Some (-1, False, frame, buffer, st) else do {
       (r, frame, buffer) \<leftarrow> parse_type flags frame buffer;
       if r < 0 then Some (-1, False, frame, buffer, st) else do {
         (r, duplicate, buffer, st) \<leftarrow> parse_seq flags context buffer st;
         Some (r, duplicate, frame, buffer, st)
       }
     }
   }"

definition parseMdpPacketHeader :: "decode_context \<Rightarrow> overlay_frame \<Rightarrow> overlay_buffer \<Rightarrow> overlay_state \<Rightarrow> header_result" where
  "parseMdpPacketHeader context frame buffer st = do {
     (flags, buffer) \<leftarrow> ob_get buffer;
     if flags < 0 then Some (-1, context, frame, buffer, st) else do {
       (r, process, forward, context, frame, buffer, st) \<leftarrow> parse_endpoints flags context frame buffer st;
       if r < 0 then Some (-1, context, frame, buffer, st) else do {
         (r, duplicate, frame, buffer, st) \<leftarrow> parse_fields flags context frame buffer st;
         if r < 0 then Some (-1, context, frame, buffer, st) else do {
           let frame = frame\<lparr>frame_modifiers := flags, frame_packet_version := ctx_packet_version context\<rparr>;
           let good = (\<not> duplicate \<and> invalid_addresses context = 0);
           Some ((if forward \<and> frame_ttl frame \<noteq> 0 \<and> good then HEADER_FORWARD else 0) OR (if process \<and> good then HEADER_PROCESS else 0),
             context, frame, buffer, st)
         }
       }
     }
   }"

subsection \<open>Handing on frames\<close>

text \<open>What is called but not modelled: \<open>overlay_payload_enqueue\<close>, \<open>random\<close> for each new broadcast
  address, the services that take a frame, \<open>overlay_send_probe\<close>, \<open>link_received_packet\<close>, and the
  notices that \<open>set_reachable\<close> gives to the keyring, the directory and the monitors.\<close>

record daemon =
  payload_enqueue :: "overlay_frame \<Rightarrow> int"
  random_id :: "nat \<Rightarrow> nat \<Rightarrow> u64"
  legacy_ack :: "overlay_frame \<Rightarrow> int \<Rightarrow> overlay_state \<Rightarrow> overlay_state"
  saw_advertisements :: "nat \<Rightarrow> overlay_frame \<Rightarrow> int \<Rightarrow> overlay_state \<Rightarrow> overlay_state"
  saw_mdp_frame :: "overlay_frame \<Rightarrow> int \<Rightarrow> overlay_state \<Rightarrow> overlay_state"
  send_probe :: "nat option \<Rightarrow> byte list \<Rightarrow> nat \<Rightarrow> int \<Rightarrow> overlay_state \<Rightarrow> overlay_state"
  received_packet :: "nat \<Rightarrow> nat \<Rightarrow> int \<Rightarrow> int \<Rightarrow> int \<Rightarrow> overlay_state \<Rightarrow> overlay_state"
  reachable_changed :: "nat \<Rightarrow> int \<Rightarrow> int \<Rightarrow> overlay_state \<Rightarrow> overlay_state"

text \<open>What a packet brings about, in order: a frame is queued for other nodes, is given to a
  service, or is answered with an explanation.\<close>

datatype event = Forwarded overlay_frame | Received overlay_frame | Explanation overlay_frame

text \<open>The result is the return code and the copy that was queued, if any.\<close>

definition overlay_forward_payload :: "(overlay_frame \<Rightarrow> int) \<Rightarrow> overlay_frame \<Rightarrow> (int \<times> overlay_frame option) option" where
  "overlay_forward_payload enqueue f =
     (if frame_ttl f = 0 then Some (0, None)
      else do {
        qf \<leftarrow> op_dup f;
        if enqueue qf \<noteq> 0 then Some (-1, None) else Some (0, Some qf)
      })"

definition process_incoming_frame :: "daemon \<Rightarrow> int \<Rightarrow> overlay_interface \<Rightarrow> overlay_frame \<Rightarrow> nat \<Rightarrow> overlay_state \<Rightarrow> (event list \<times> overlay_state) option" where
  "process_incoming_frame env now interface f k st =
     (if frame_type f = OF_TYPE_SELFANNOUNCE_ACK then Some ([Received f], legacy_ack env f now st)
      else if frame_type f = OF_TYPE_RHIZOME_ADVERT then Some ([Received f], saw_advertisements env (if_index interface) f now st)
      else if frame_type f = OF_TYPE_DATA \<or> frame_type f = OF_TYPE_DATA_VOICE then Some ([Received f], saw_mdp_frame env f now st)
      else if frame_type f = OF_TYPE_PLEASEEXPLAIN then do {
        (_, reply, st) \<leftarrow> process_explain (payload_enqueue env) (random_id env k) f st;
        Some (map Explanation (case reply of None \<Rightarrow> [] | Some q \<Rightarrow> [q]), st)
      } else Some ([], st))"

definition set_reachable :: "daemon \<Rightarrow> nat \<Rightarrow> int \<Rightarrow> overlay_state \<Rightarrow> overlay_state option" where
  "set_reachable env p v st = do {
     s \<leftarrow> deref st p;
     if reachable s = v then Some st
     else Some (reachable_changed env p (reachable s) v (set_subscriber st p (s\<lparr>reachable := v\<rparr>)))
   }"

text \<open>What the header of a packet says about a sender other than this node.\<close>

definition note_sender :: "daemon \<Rightarrow> int \<Rightarrow> overlay_interface \<Rightarrow> byte list option \<Rightarrow> int \<Rightarrow> int \<Rightarrow> decode_context \<Rightarrow> nat \<Rightarrow> overlay_state \<Rightarrow> overlay_state option" where
  "note_sender env now interface addr packet_flags sender_seq context p st = do {
     s \<leftarrow> deref st p;
     let s = (if max_packet_version s < ctx_packet_version context then s\<lparr>max_packet_version := ctx_packet_version context\<rparr> else s);
     let s' = (if reachable s = REACHABLE_NONE
               then s\<lparr>sub_interface := Some (if_index interface), sub_address := (case addr of Some a \<Rightarrow> a | None \<Rightarrow> replicate 16 0), last_probe := 0\<rparr>
               else s);
     let st = set_subscriber st p s';
     st \<leftarrow> (if reachable s = REACHABLE_NONE
            then set_reachable env p ((if packet_flags AND PACKET_UNICAST \<noteq> 0 then REACHABLE_UNICAST else REACHABLE_BROADCAST) OR REACHABLE_ASSUMED) st
            else Some st);
     s \<leftarrow> deref st p;
     let st = (case addr of
                 Some a \<Rightarrow> (if last_probe s = 0 \<or> now - last_probe s > tick_ms interface * 10 mod 2 ^ 32
                            then send_probe env (Some p) a (if_index interface) OQ_MESH_MANAGEMENT st else st)
               | None \<Rightarrow> st);
     Some (received_packet env p (if_index interface) (ctx_sender_interface context) sender_seq (packet_flags AND PACKET_UNICAST) st)
   }"

text \<open>What follows the address of the sender.\<close>

definition envelope_fields ::
    "daemon \<Rightarrow> int \<Rightarrow> overlay_interface \<Rightarrow> byte list option \<Rightarrow> decode_context \<Rightarrow> overlay_buffer \<Rightarrow> overlay_state \<Rightarrow>
     (int \<times> decode_context \<times> overlay_buffer \<times> overlay_state) option" where
  "envelope_fields env now interface addr context buffer st = do {
     (packet_flags, buffer) \<leftarrow> ob_get buffer;
     (sender_interface, buffer) \<leftarrow> (if packet_flags AND PACKET_INTERFACE \<noteq> 0 then ob_get buffer else Some (0, buffer));
     let context = context\<lparr>ctx_sender_interface := sender_interface, ctx_interface := Some (if_index interface)\<rparr>;
     (sender_seq, buffer) \<leftarrow>
       (if packet_flags AND PACKET_SEQ \<noteq> 0 then do { (v, buffer) \<leftarrow> ob_get buffer; Some (v AND 0xFF, buffer) } else Some (-1, buffer));
     self \<leftarrow> is_self st (ctx_sender context);
     if self then Some (1, context, buffer, st) else do {
     st \<leftarrow> (case ctx_sender context of
              Some p \<Rightarrow> note_sender env now interface addr packet_flags sender_seq context p st
            | None \<Rightarrow> Some (case addr of Some a \<Rightarrow> send_probe env None a (if_index interface) OQ_MESH_MANAGEMENT st | None \<Rightarrow> st));
     let context = (case addr of
                      Some a \<Rightarrow> context\<lparr>ctx_addr := (if packet_flags AND PACKET_UNICAST \<noteq> 0 then a else broadcast_address interface)\<rparr>
                    | None \<Rightarrow> context);
     Some (0, context, buffer, st)
     }
   }"

definition parseEnvelopeHeader ::
    "daemon \<Rightarrow> overlay_interface \<Rightarrow> byte list option \<Rightarrow> decode_context \<Rightarrow> overlay_buffer \<Rightarrow> overlay_state \<Rightarrow> (int \<times> decode_context \<times> overlay_buffer \<times> overlay_state) option" where
  "parseEnvelopeHeader env interface addr context buffer st = do {
     let (now, st) = gettime_ms st;
     (version, buffer) \<leftarrow> ob_get buffer;
     let context = context\<lparr>ctx_packet_version := version\<rparr>;
     if version < 0 \<or> version > SUPPORTED_PACKET_VERSION then Some (-1, context, buffer, st) else do {
     (encapsulation, buffer) \<leftarrow> ob_get buffer;
     let context = context\<lparr>ctx_encapsulation := encapsulation\<rparr>;
     if encapsulation \<noteq> ENCAP_OVERLAY \<and> encapsulation \<noteq> ENCAP_SINGLE then Some (-1, context, buffer, st) else do {
     (r, x, context, buffer, st) \<leftarrow> overlay_address_parse (Some context) buffer st;
     context \<leftarrow> context;
     let context = (case x of None \<Rightarrow> context | Some p \<Rightarrow> context\<lparr>ctx_sender := p\<rparr>);
     if r \<noteq> 0 then Some (-1, context, buffer, st)
     else envelope_fields env now interface addr context buffer st
     }}
   }"

subsection \<open>A whole packet\<close>

text \<open>A frame whose payload is the next \<open>payload_len\<close> bytes. The first result is \<open>False\<close> when no
  slice of the buffer can be had.\<close>

definition deliver :: "daemon \<Rightarrow> int \<Rightarrow> overlay_interface \<Rightarrow> int \<Rightarrow> int \<Rightarrow> decode_context \<Rightarrow> overlay_frame \<Rightarrow> overlay_buffer \<Rightarrow> nat \<Rightarrow> overlay_state \<Rightarrow>
    (bool \<times> event list \<times> overlay_state) option" where
  "deliver env now interface header_valid payload_len context f b k st = do {
     slice \<leftarrow> ob_slice b (position b) payload_len;
     case slice of
       None \<Rightarrow> Some (False, [], st)
     | Some p \<Rightarrow> do {
         let f = f\<lparr>frame_payload := Some (snd (ob_limitsize p payload_len))\<rparr>;
         (_, qf) \<leftarrow> (if header_valid AND HEADER_FORWARD \<noteq> 0 then overlay_forward_payload (payload_enqueue env) f else Some (0, None));
         (es, st) \<leftarrow> (if header_valid AND HEADER_PROCESS \<noteq> 0 then process_incoming_frame env now interface f k st else Some ([], st));
         st \<leftarrow> (if frame_next_hop f = my_subscriber st \<or> frame_destination f = my_subscriber st
                then link_state_ack_soon (ctx_sender context) st else Some st);
         Some (True, (case qf of None \<Rightarrow> [] | Some q \<Rightarrow> [Forwarded q]) @ es, st)
       }
   }"

text \<open>Reading never moves backwards, and a header takes at least one byte.\<close>

definition later :: "overlay_buffer \<Rightarrow> overlay_buffer \<Rightarrow> bool" where
  "later b b' \<longleftrightarrow> (\<exists>n \<ge> 0. b' = b\<lparr>position := position b + n\<rparr>)"

lemma later_refl: "later b b"
  by (auto simp: later_def intro: exI[of _ 0])

lemma later_trans: "later b b' \<Longrightarrow> later b' b'' \<Longrightarrow> later b b''"
proof -
  assume "later b b'" "later b' b''"
  then obtain n m where "0 \<le> n" "b' = b\<lparr>position := position b + n\<rparr>" "0 \<le> m" "b'' = b'\<lparr>position := position b' + m\<rparr>" by (auto simp: later_def)
  then have "0 \<le> n + m \<and> b'' = b\<lparr>position := position b + (n + m)\<rparr>" by (simp add: add.assoc)
  then show ?thesis unfolding later_def by blast
qed

lemma later_step: "0 \<le> n \<Longrightarrow> later b (b\<lparr>position := position b + n\<rparr>)"
  by (auto simp: later_def)

lemma later_fields: "later b b' \<Longrightarrow> sizeLimit b' = sizeLimit b \<and> allocSize b' = allocSize b \<and> position b \<le> position b'"
  by (auto simp: later_def)

lemma later_get: "ob_get b = Some (n, b') \<Longrightarrow> later b b'"
  by (auto simp: ob_get_def later_refl later_step bind_eq_Some_conv split: if_splits)

lemma later_get_ui16: "ob_get_ui16 b = Some (n, b') \<Longrightarrow> later b b'"
  by (auto simp: ob_get_ui16_def later_refl later_step bind_eq_Some_conv Let_def split: if_splits)

lemma later_broadcast_parse: "overlay_broadcast_parse b = Some (x, b') \<Longrightarrow> later b b'"
  by (auto simp: overlay_broadcast_parse_def ob_get_bytes_def later_refl later_step bind_eq_Some_conv split: if_splits)

lemma later_find_subscr_buffer: "find_subscr_buffer c b len w st = Some (r, x, c', b', st') \<Longrightarrow> later b b'"
  by (auto simp: find_subscr_buffer_def ob_get_bytes_ptr_def later_refl later_step bind_eq_Some_conv Let_def split: if_splits option.splits)

lemma later_address_parse: "overlay_address_parse c b st = Some (r, x, c', b', st') \<Longrightarrow> later b b'"
  by (auto simp: overlay_address_parse_def bind_eq_Some_conv dest: later_get intro: later_trans[OF later_get later_find_subscr_buffer]
    split: if_splits option.splits)

lemma later_parts:
  "parse_source flags c f b st = Some (r, p, q, c', f', b', st') \<Longrightarrow> later b b'"
  "parse_to_broadcast flags c f b st = Some (r, p, q, c', f', b', st') \<Longrightarrow> later b b'"
  "parse_ttl flags f b = Some (r, f', b') \<Longrightarrow> later b b'"
  "parse_type flags f b = Some (r, f', b') \<Longrightarrow> later b b'"
  "parse_seq flags c b st = Some (r, d, b', st') \<Longrightarrow> later b b'"
  by (auto simp: parse_source_def parse_to_broadcast_def parse_ttl_def parse_type_def parse_seq_def bind_eq_Some_conv Let_def later_refl
    dest: later_get later_broadcast_parse later_address_parse split: if_splits)

lemma later_to_subscriber: "parse_to_subscriber flags c f b st = Some (r, p, q, c', f', b', st') \<Longrightarrow> later b b'"
  by (auto simp: parse_to_subscriber_def bind_eq_Some_conv Let_def
    dest: later_address_parse intro: later_trans[OF later_address_parse later_address_parse] split: if_splits)

lemma later_endpoints: "parse_endpoints flags c f b st = Some (r, p, q, c', f', b', st') \<Longrightarrow> later b b'"
  unfolding parse_endpoints_def
  by (auto simp: bind_eq_Some_conv intro: later_parts(1) later_trans[OF later_parts(1) later_parts(2)] later_trans[OF later_parts(1) later_to_subscriber]
    split: if_splits)

lemma later_parse_fields: "parse_fields flags c f b st = Some (r, d, f', b', st') \<Longrightarrow> later b b'"
  unfolding parse_fields_def
  by (auto simp: bind_eq_Some_conv intro: later_parts(3) later_trans[OF later_parts(3) later_parts(4)]
    later_trans[OF later_parts(3) later_trans[OF later_parts(4) later_parts(5)]] split: if_splits)

lemma header_consumes:
  assumes "parseMdpPacketHeader c f b st = Some (r, c', f', b', st')" "0 \<le> r"
  shows "later b b' \<and> position b < position b'"
proof -
  obtain flags b1 where 1: "ob_get b = Some (flags, b1)" "0 \<le> flags" and 2: "later b1 b'"
    using assms unfolding parseMdpPacketHeader_def
    by (auto simp: bind_eq_Some_conv Let_def intro: later_trans[OF later_endpoints later_parse_fields] split: if_splits)
  have "position b1 = position b + 1" using ob_get_step[OF 1] by simp
  then show ?thesis using later_fields[OF 2] later_trans[OF later_get[OF 1(1)] 2] by simp
qed

text \<open>The length of the next payload: the rest of the packet, or two bytes that say it. C compares
  and adds it as an unsigned integer.\<close>

definition payload_length :: "decode_context \<Rightarrow> overlay_buffer \<Rightarrow> (bool \<times> int \<times> overlay_buffer) option" where
  "payload_length context b =
     (if ctx_encapsulation context = ENCAP_SINGLE then Some (True, ob_remaining b mod 2 ^ 32, b)
      else do {
        (n, b) \<leftarrow> ob_get_ui16 b;
        Some (\<not> uint n > ob_remaining b mod 2 ^ 32, uint n, b)
      })"

lemma payload_length_later: "payload_length c b = Some (ok, n, b') \<Longrightarrow> later b b' \<and> 0 \<le> n"
  by (auto simp: payload_length_def bind_eq_Some_conv later_refl dest: later_get_ui16 split: if_splits)

text \<open>The results are the return code, the context, the events and the state.\<close>

type_synonym packet_result = "(int \<times> decode_context \<times> event list \<times> overlay_state) option"

function packet_loop :: "daemon \<Rightarrow> int \<Rightarrow> overlay_interface \<Rightarrow> decode_context \<Rightarrow> overlay_frame \<Rightarrow> overlay_buffer \<Rightarrow> event list \<Rightarrow> overlay_state \<Rightarrow> packet_result" where
  "packet_loop env now interface context f b es st =
     (if ob_remaining b > 0 then
        Option.bind (parseMdpPacketHeader (context\<lparr>invalid_addresses := 0\<rparr>) (f\<lparr>broadcast_id := replicate BROADCAST_LEN 0\<rparr>) b st)
          (\<lambda>(header_valid, context, f, b, st).
             if header_valid < 0 then Some (-1, context, es, st)
             else Option.bind (payload_length context b) (\<lambda>(ok, payload_len, b).
               if \<not> ok then Some (-1, context, es, st)
               else Option.bind (if header_valid \<noteq> 0 then deliver env now interface header_valid payload_len context f b (length es) st else Some (True, [], st))
                 (\<lambda>(ok, es', st).
                    if \<not> ok then Some (0, context, es @ es', st)
                    else packet_loop env now interface context f (b\<lparr>position := position b + payload_len\<rparr>) (es @ es') st)))
      else Some (0, context, es, st))"
  by pat_completeness auto
termination
  by (relation "measure (\<lambda>(env, now, interface, c, f, b, es, st). nat (ob_remaining b))")
    (auto simp: ob_remaining_def dest!: header_consumes payload_length_later later_fields)

declare packet_loop.simps [simp del]

definition sa_family :: "byte list \<Rightarrow> int option" where
  "sa_family a = do { v0 \<leftarrow> c_get a 0; v1 \<leftarrow> c_get a 1; Some (uint v0 + 256 * uint v1) }"

definition packetOkOverlay :: "daemon \<Rightarrow> overlay_interface \<Rightarrow> byte list \<Rightarrow> int \<Rightarrow> byte list option \<Rightarrow> overlay_state \<Rightarrow> (int \<times> event list \<times> overlay_state) option" where
  "packetOkOverlay env interface packet len recvaddr st = do {
     family \<leftarrow> (case recvaddr of None \<Rightarrow> Some 2 | Some a \<Rightarrow> sa_family a);
     if family \<noteq> 2 then Some (-1, [], st) else do {
       let (now, st) = gettime_ms st;
       let b = snd (ob_limitsize (ob_static (malloc_fill st) packet len) len);
       let f = empty_frame\<lparr>frame_interface := Some (if_index interface), frame_recvaddr := (case recvaddr of Some a \<Rightarrow> a | None \<Rightarrow> replicate 16 0)\<rparr>;
       (r, context, b, st) \<leftarrow> parseEnvelopeHeader env interface recvaddr (empty_context\<lparr>ctx_interface := Some (if_index interface)\<rparr>) b st;
       if r \<noteq> 0 then Some (r, [], st) else do {
         (r, context, es, st) \<leftarrow> packet_loop env now interface context f b [] st;
         (_, frame) \<leftarrow> send_please_explain (payload_enqueue env) (random_id env (length es)) context (my_subscriber st) (ctx_sender context) st;
         Some (r, es @ map Explanation (case frame of None \<Rightarrow> [] | Some q \<Rightarrow> [q]), st)
       }
     }
   }"

end
