(* ===== verification/Overlay_Frame_Correct.thy ===== *)
theory Overlay_Frame_Correct
  imports Overlay_Frame
begin

text \<open>
  What a frame on the wire promises: a receiver whose table knows no other ids than the sender's,
  and whose context is in step with the sender's, reads back the frame that was appended, with
  one hop less.
\<close>

subsection \<open>The flags of a header\<close>

definition one_hop :: "int \<Rightarrow> byte list option \<Rightarrow> nat option \<Rightarrow> nat option \<Rightarrow> bool" where
  "one_hop ttl addr next_hop destination \<longleftrightarrow> ttl = 1 \<and> addr = None \<or> destination \<noteq> None \<and> destination = next_hop"

lemma header_flags_bits:
  "header_flags c type m ttl a n d s AND PAYLOAD_FLAG_SENDER_SAME = (if s = ctx_sender c then PAYLOAD_FLAG_SENDER_SAME else 0)"
  "header_flags c type m ttl a n d s AND PAYLOAD_FLAG_TO_BROADCAST = (if d = None then PAYLOAD_FLAG_TO_BROADCAST else 0)"
  "header_flags c type m ttl a n d s AND PAYLOAD_FLAG_ONE_HOP = (if one_hop ttl a n d then PAYLOAD_FLAG_ONE_HOP else 0)"
  "header_flags c type m ttl a n d s AND PAYLOAD_FLAG_LEGACY_TYPE = (if type \<noteq> OF_TYPE_DATA then PAYLOAD_FLAG_LEGACY_TYPE else 0)"
  "header_flags c type m ttl a n d s AND 0xFF = header_flags c type m ttl a n d s"
  by (simp_all add: header_flags_def one_hop_def Let_def bit.conj_disj_distrib2 and.assoc)

lemma header_flags_range: "0 \<le> header_flags c type m ttl a n d s" "header_flags c type m ttl a n d s < 256"
proof -
  have "header_flags c type m ttl a n d s = header_flags c type m ttl a n d s mod 256"
    using header_flags_bits(5)[of c type m ttl a n d s] unfolding and_255 by simp
  then show "0 \<le> header_flags c type m ttl a n d s" "header_flags c type m ttl a n d s < 256"
    using pos_mod_sign[of 256] pos_mod_bound[of 256] by (metis zero_less_numeral)+
qed

subsection \<open>Writing steps\<close>

text \<open>A step that appends the bytes \<open>vs\<close>, and one that appends some bytes and may fail.\<close>

definition wrote :: "build_result \<Rightarrow> overlay_buffer \<Rightarrow> byte list \<Rightarrow> decode_context \<Rightarrow> overlay_buffer \<Rightarrow> overlay_state \<Rightarrow> bool" where
  "wrote m b vs c' b' st' \<longleftrightarrow> m = Some (0, c', b', st') \<and> ob_inv b' \<and> ob_data b' = ob_data b @ vs \<and>
     position b' = position b + int (length vs) \<and> ob_frame b b'"

definition extends :: "overlay_buffer \<Rightarrow> overlay_buffer \<Rightarrow> bool" where
  "extends b b' \<longleftrightarrow> ob_inv b' \<and> (\<exists>vs. ob_data b' = ob_data b @ vs \<and> position b' = position b + int (length vs)) \<and> ob_frame b b'"

lemma extends_trans: "extends b b' \<Longrightarrow> extends b' b'' \<Longrightarrow> extends b b''"
  unfolding extends_def by (elim conjE exE, intro conjI, assumption, metis (no_types, lifting) add.assoc append.assoc length_append of_nat_add, rule ob_frame_trans)

lemma extends_refl: "ob_inv b \<Longrightarrow> extends b b"
  by (simp add: extends_def)

lemma append_bytes_extends:
  assumes "ob_inv b" "0 \<le> n" "n \<le> int (length vs)"
  shows "\<exists>r b'. ob_append_bytes b vs n = Some (r, b') \<and> extends b b' \<and> (r = 0 \<longleftrightarrow> ob_fits b n) \<and> (r \<noteq> 0 \<longrightarrow> r = -1 \<and> b' = b)"
proof (cases "ob_fits b n")
  case True
  then obtain b' where "ob_append_bytes b vs n = Some (0, b')" "ob_inv b'" "ob_data b' = ob_data b @ take (nat n) vs"
      "position b' = position b + n" "ob_frame b b'" using ob_append_bytes_fits[OF assms(1) _ assms(2,3)] by blast
  then show ?thesis using True assms(2,3) by (auto simp: extends_def)
next
  case False
  then show ?thesis using ob_append_bytes_full[of b n vs] extends_refl[OF assms(1)] by auto
qed

lemma run_steps_append:
  "run_steps (fs @ gs) c b st = Option.bind (run_steps fs c b st) (\<lambda>(r, c, b, st). if r \<noteq> 0 then Some (-1, c, b, st) else run_steps gs c b st)"
proof (induction fs arbitrary: c b st)
  case (Cons f fs)
  show ?case
  proof (cases "f c b st")
    case (Some x)
    obtain r c1 b1 st1 where "x = (r, c1, b1, st1)" by (cases x)
    then show ?thesis using Some Cons.IH[of c1 b1 st1] by simp
  qed simp
qed simp

lemma wrote_steps:
  assumes "wrote (run_steps fs c b st) b vs c1 b1 st1" "wrote (run_steps gs c1 b1 st1) b1 ws c2 b2 st2"
  shows "wrote (run_steps (fs @ gs) c b st) b (vs @ ws) c2 b2 st2"
  using assms ob_frame_trans unfolding wrote_def by (auto simp: run_steps_append)

lemma wrote_step: "wrote (f c b st) b vs c1 b1 st1 \<Longrightarrow> wrote (run_steps [f] c b st) b vs c1 b1 st1"
  by (simp add: wrote_def)

lemma wrote_none: "ob_inv b \<Longrightarrow> wrote (run_steps [] c b st) b [] c b st"
  by (simp add: wrote_def)

lemma wrote_fits: "wrote m b vs c b' st \<Longrightarrow> ob_fits b' n = ob_fits b (int (length vs) + n)"
  using ob_frame_fits unfolding wrote_def by blast

lemma byte_wrote:
  assumes "ob_inv b" "ob_fits b 1"
  obtains b' where "wrote (run_steps [byte_step v] c b st) b [word_of_int v] c b' st"
proof -
  obtain b' where "ob_append_bytes b [word_of_int v] 1 = Some (0, b')" "ob_inv b'" "ob_data b' = ob_data b @ take (nat 1) [word_of_int v]"
    "position b' = position b + 1" "ob_frame b b'" using ob_append_bytes_fits[OF assms, of "[word_of_int v]"] by auto
  then show thesis using that by (simp add: wrote_def byte_step_def ob_append_byte_eq)
qed

lemma broadcast_wrote:
  assumes "ob_inv b" "ob_fits b (int BROADCAST_LEN)" "length addr = BROADCAST_LEN"
  obtains b' where "wrote (run_steps [broadcast_step (Some addr)] c b st) b addr c b' st"
proof -
  obtain b' where "ob_append_bytes b addr (int BROADCAST_LEN) = Some (0, b')" "ob_inv b'" "ob_data b' = ob_data b @ take (nat (int BROADCAST_LEN)) addr"
    "position b' = position b + int BROADCAST_LEN" "ob_frame b b'" using ob_append_bytes_fits[OF assms(1,2), of addr] assms(3) by auto
  then show thesis using that assms(3) by (simp add: wrote_def broadcast_step_def overlay_broadcast_append_def)
qed

subsection \<open>Two ends of a link\<close>

definition linked :: "overlay_state \<Rightarrow> overlay_state \<Rightarrow> bool" where
  "linked sS sR \<longleftrightarrow> table_ok (sub_table sS) \<and> table_ok (sub_table sR) \<and> set (sids sR) \<subseteq> set (sids sS)"

lemma same_subscriber_sids: "sids sS' = sids sS \<Longrightarrow> same_subscriber sS' sR = same_subscriber sS sR"
  by (intro ext) (simp only: same_subscriber_def)

lemma address_wrote:
  assumes l: "linked sS sR" and pq: "same_subscriber sS sR p q" and c: "in_step sS sR cS cR" and b: "ob_inv b" "ob_fits b 33"
  obtains vs b' sS' where "wrote (run_steps [append_step (Some p)] cS b sS) b vs (cS\<lparr>ctx_previous := Some p\<rparr>) b' sS'" "length vs \<le> 33"
    "linked sS' sR" "sids sS' = sids sS" "in_step sS' sR (cS\<lparr>ctx_previous := Some p\<rparr>) (cR\<lparr>ctx_previous := Some q\<rparr>)"
    "\<And>r rest. ob_inv r \<Longrightarrow> ob_unread r = vs @ rest \<Longrightarrow>
       \<exists>r'. overlay_address_parse (Some cR) r sR = Some (0, Some (Some q), Some (cR\<lparr>ctx_previous := Some q\<rparr>), r', sR) \<and> ob_inv r' \<and> ob_unread r' = rest"
proof -
  have ok: "table_ok (sub_table sS)" "table_ok (sub_table sR)" "set (sids sR) \<subseteq> set (sids sS)" using l by (simp_all add: linked_def)
  obtain vs b' sS' where a: "overlay_address_append (Some cS) b (Some p) sS = Some (0, Some (cS\<lparr>ctx_previous := Some p\<rparr>), b', sS')"
    "ob_inv b'" "ob_data b' = ob_data b @ vs" "ob_frame b b'" "position b' = position b + int (length vs)" "length vs \<le> 33"
    "table_ok (sub_table sS')" "sids sS' = sids sS" "sS' = sS\<lparr>sub_table := sub_table sS'\<rparr>"
    "\<And>r rest. ob_inv r \<Longrightarrow> ob_unread r = vs @ rest \<Longrightarrow>
       \<exists>r'. overlay_address_parse (Some cR) r sR = Some (0, Some (Some q), Some (cR\<lparr>ctx_previous := Some q\<rparr>), r', sR) \<and> ob_inv r' \<and> ob_unread r' = rest"
    by (rule address_step[OF ok pq c b]) blast
  have "linked sS' sR" using ok(2,3) a(7) unfolding linked_def a(8) by simp
  moreover have "wrote (run_steps [append_step (Some p)] cS b sS) b vs (cS\<lparr>ctx_previous := Some p\<rparr>) b' sS'"
    using a(1-5) by (simp add: wrote_def append_step_def)
  ultimately show thesis using that a(6,8,10) in_step_previous[OF c pq a(8)] by blast
qed

definition self_at :: "overlay_state \<Rightarrow> nat \<Rightarrow> bool" where
  "self_at st p \<longleftrightarrow> reachable (subscribers (sub_table st) ! p) = REACHABLE_SELF"

lemma is_self_known: "p < length (sids st) \<Longrightarrow> is_self st (Some p) = Some (self_at st p)"
  using deref_known[of p st] by (auto simp: is_self_def self_at_def)

lemma source_transfer:
  assumes l: "linked sS sR" and pq: "same_subscriber sS sR p q" and c: "in_step sS sR cS cR" and b: "ob_inv b" "ob_fits b 33"
    and flags: "flags AND PAYLOAD_FLAG_SENDER_SAME = (if Some p = ctx_sender cS then PAYLOAD_FLAG_SENDER_SAME else 0)"
  obtains vs cS' b' sS' cR' where
    "wrote (run_steps (if flags AND PAYLOAD_FLAG_SENDER_SAME = 0 then [append_step (Some p)] else []) cS b sS) b vs cS' b' sS'" "length vs \<le> 33"
    "linked sS' sR" "sids sS' = sids sS" "in_step sS' sR cS' cR'" "ctx_header cR' = ctx_header cR" "invalid_addresses cR' = invalid_addresses cR"
    "\<And>r rest f. ob_inv r \<Longrightarrow> ob_unread r = vs @ rest \<Longrightarrow>
       \<exists>r'. parse_source flags cR f r sR =
         Some (0, Some p = ctx_sender cS \<or> \<not> self_at sR q, Some p = ctx_sender cS \<or> \<not> self_at sR q, cR', f\<lparr>frame_source := Some q\<rparr>, r', sR) \<and>
         ob_inv r' \<and> ob_unread r' = rest"
proof (cases "Some p = ctx_sender cS")
  case True
  then obtain q' where q': "ctx_sender cR = Some q'" "same_subscriber sS sR p q'" using c by (metis in_step_def option_rel_Some1)
  have "q' = q" using same_subscriber_inj[of sS sR p q p q'] l pq q'(2) by (simp add: linked_def)
  then show thesis using that[of "[]" cS b sS cR] True l c b q'(1) flags wrote_none[OF b(1)]
    by (simp add: parse_source_def)
next
  case False
  obtain vs b' sS' where a: "wrote (run_steps [append_step (Some p)] cS b sS) b vs (cS\<lparr>ctx_previous := Some p\<rparr>) b' sS'" "length vs \<le> 33"
    "linked sS' sR" "sids sS' = sids sS" "in_step sS' sR (cS\<lparr>ctx_previous := Some p\<rparr>) (cR\<lparr>ctx_previous := Some q\<rparr>)"
    "\<And>r rest. ob_inv r \<Longrightarrow> ob_unread r = vs @ rest \<Longrightarrow>
       \<exists>r'. overlay_address_parse (Some cR) r sR = Some (0, Some (Some q), Some (cR\<lparr>ctx_previous := Some q\<rparr>), r', sR) \<and> ob_inv r' \<and> ob_unread r' = rest"
    by (rule address_wrote[OF l pq c b]) blast
  have q: "q < length (sids sR)" using pq by (simp add: same_subscriber_def)
  have "\<exists>r'. parse_source flags cR f r sR = Some (0, \<not> self_at sR q, \<not> self_at sR q, cR\<lparr>ctx_previous := Some q\<rparr>, f\<lparr>frame_source := Some q\<rparr>, r', sR) \<and>
      ob_inv r' \<and> ob_unread r' = rest" if r: "ob_inv r" "ob_unread r = vs @ rest" for r rest f
  proof -
    obtain r' where "overlay_address_parse (Some cR) r sR = Some (0, Some (Some q), Some (cR\<lparr>ctx_previous := Some q\<rparr>), r', sR)" "ob_inv r'" "ob_unread r' = rest"
      using a(6)[OF r] by blast
    then show ?thesis using False flags is_self_known[OF q] by (simp add: parse_source_def Let_def)
  qed
  then show thesis using that[of vs "cS\<lparr>ctx_previous := Some p\<rparr>" b' sS' "cR\<lparr>ctx_previous := Some q\<rparr>"] a(1-5) False flags by simp
qed

lemma subscriber_transfer:
  assumes l: "linked sS sR" and d: "same_subscriber sS sR d qd" and n: "flags AND PAYLOAD_FLAG_ONE_HOP = 0 \<Longrightarrow> same_subscriber sS sR n qn"
    and c: "in_step sS sR cS cR" and b: "ob_inv b" "ob_fits b 66"
  obtains vs cS' b' sS' cR' where
    "wrote (run_steps ([append_step (Some d)] @ (if flags AND PAYLOAD_FLAG_ONE_HOP = 0 then [append_step (Some n)] else [])) cS b sS) b vs cS' b' sS'"
    "length vs \<le> 66" "linked sS' sR" "sids sS' = sids sS" "in_step sS' sR cS' cR'" "ctx_header cR' = ctx_header cR" "invalid_addresses cR' = invalid_addresses cR"
    "\<And>r rest f. ob_inv r \<Longrightarrow> ob_unread r = vs @ rest \<Longrightarrow>
       \<exists>r'. parse_to_subscriber flags cR f r sR =
         Some (0, self_at sR qd, flags AND PAYLOAD_FLAG_ONE_HOP \<noteq> 0 \<or> self_at sR qn, cR', f\<lparr>frame_destination := Some qd\<rparr>, r', sR) \<and>
         ob_inv r' \<and> ob_unread r' = rest"
proof -
  have qd: "qd < length (sids sR)" using d by (simp add: same_subscriber_def)
  have f33: "ob_fits b 33" by (rule ob_fits_mono[OF b(2)]) simp
  obtain vs b1 s1 where a: "wrote (run_steps [append_step (Some d)] cS b sS) b vs (cS\<lparr>ctx_previous := Some d\<rparr>) b1 s1" "length vs \<le> 33"
    "linked s1 sR" "sids s1 = sids sS" "in_step s1 sR (cS\<lparr>ctx_previous := Some d\<rparr>) (cR\<lparr>ctx_previous := Some qd\<rparr>)"
    "\<And>r rest. ob_inv r \<Longrightarrow> ob_unread r = vs @ rest \<Longrightarrow>
       \<exists>r'. overlay_address_parse (Some cR) r sR = Some (0, Some (Some qd), Some (cR\<lparr>ctx_previous := Some qd\<rparr>), r', sR) \<and> ob_inv r' \<and> ob_unread r' = rest"
    by (rule address_wrote[OF l d c b(1) f33]) blast
  let ?cS = "cS\<lparr>ctx_previous := Some d\<rparr>" and ?cR = "cR\<lparr>ctx_previous := Some qd\<rparr>"
  show thesis
  proof (cases "flags AND PAYLOAD_FLAG_ONE_HOP = 0")
    case False
    have "\<exists>r'. parse_to_subscriber flags cR f r sR = Some (0, self_at sR qd, True, ?cR, f\<lparr>frame_destination := Some qd\<rparr>, r', sR) \<and> ob_inv r' \<and> ob_unread r' = rest"
      if r: "ob_inv r" "ob_unread r = vs @ rest" for r rest f
      using a(6)[OF r] False is_self_known[OF qd] by (auto simp: parse_to_subscriber_def)
    then show thesis using that[of vs ?cS b1 s1 ?cR] a(1-5) False by simp
  next
    case True
    have n1: "same_subscriber s1 sR n qn" using n[OF True] unfolding same_subscriber_sids[OF a(4)] .
    have qn: "qn < length (sids sR)" using n1 by (simp add: same_subscriber_def)
    have b1: "ob_inv b1" "ob_fits b1 33" using a(1) wrote_fits[OF a(1), of 33] ob_fits_mono[OF b(2), of "int (length vs) + 33"] a(2) by (simp_all add: wrote_def)
    obtain ws b2 s2 where e: "wrote (run_steps [append_step (Some n)] ?cS b1 s1) b1 ws (?cS\<lparr>ctx_previous := Some n\<rparr>) b2 s2" "length ws \<le> 33"
      "linked s2 sR" "sids s2 = sids s1" "in_step s2 sR (?cS\<lparr>ctx_previous := Some n\<rparr>) (?cR\<lparr>ctx_previous := Some qn\<rparr>)"
      "\<And>r rest. ob_inv r \<Longrightarrow> ob_unread r = ws @ rest \<Longrightarrow>
         \<exists>r'. overlay_address_parse (Some ?cR) r sR = Some (0, Some (Some qn), Some (?cR\<lparr>ctx_previous := Some qn\<rparr>), r', sR) \<and> ob_inv r' \<and> ob_unread r' = rest"
      by (rule address_wrote[OF a(3) n1 a(5) b1]) blast
    have "\<exists>r'. parse_to_subscriber flags cR f r sR = Some (0, self_at sR qd, self_at sR qn, ?cR\<lparr>ctx_previous := Some qn\<rparr>, f\<lparr>frame_destination := Some qd\<rparr>, r', sR) \<and>
        ob_inv r' \<and> ob_unread r' = rest" if r: "ob_inv r" "ob_unread r = (vs @ ws) @ rest" for r rest f
    proof -
      obtain r1 where r1: "overlay_address_parse (Some cR) r sR = Some (0, Some (Some qd), Some ?cR, r1, sR)" "ob_inv r1" "ob_unread r1 = ws @ rest"
        using a(6)[OF r(1), of "ws @ rest"] r(2) by auto
      obtain r2 where "overlay_address_parse (Some ?cR) r1 sR = Some (0, Some (Some qn), Some (?cR\<lparr>ctx_previous := Some qn\<rparr>), r2, sR)" "ob_inv r2" "ob_unread r2 = rest"
        using e(6)[OF r1(2,3)] by blast
      then show ?thesis using r1(1) True is_self_known[OF qd] is_self_known[OF qn] by (simp add: parse_to_subscriber_def)
    qed
    moreover have "sids s2 = sids sS" using e(4) a(4) by (simp only:)
    moreover have "length (vs @ ws) \<le> 66" using a(2) e(2) by simp
    ultimately show thesis
      using that[of "vs @ ws" "?cS\<lparr>ctx_previous := Some n\<rparr>" b2 s2 "?cR\<lparr>ctx_previous := Some qn\<rparr>"] True wrote_steps[OF a(1) e(1)] e(3,5) by simp
  qed
qed


lemma ob_read_bytes:
  assumes "ob_inv b" "ob_unread b = addr @ vs" "length addr = n"
  shows "\<exists>b'. ob_get_bytes b (int n) = Some ((0, addr), b') \<and> ob_inv b' \<and> ob_unread b' = vs"
proof -
  obtain b' where "ob_get_bytes_ptr b (int n) = (Some (position b), b')" "c_getn (ob_mem b') (position b) (int n) = Some addr" "ob_inv b'" "ob_unread b' = vs"
    using ob_ptr_read[OF assms(1), of n] assms(2,3) by auto
  then show ?thesis by (auto simp: ob_get_bytes_def ob_get_bytes_ptr_def split: if_splits)
qed

lemma broadcast_transfer:
  assumes b: "ob_inv b" "ob_fits b (int BROADCAST_LEN)" and a: "length addr = BROADCAST_LEN"
    and seen: "overlay_broadcast_drop_check sR addr = Some (seen, s1)" "link_state_should_forward_broadcast (ctx_sender cR) s1 = Some (relay, s2)"
  obtains b' where "wrote (run_steps [broadcast_step (Some addr)] cS b sS) b addr cS b' sS"
    "\<And>r rest f flags. flags AND PAYLOAD_FLAG_ONE_HOP = 0 \<Longrightarrow> ob_inv r \<Longrightarrow> ob_unread r = addr @ rest \<Longrightarrow>
       \<exists>r'. parse_to_broadcast flags cR f r sR =
         Some (0, seen = 0, seen = 0 \<and> relay \<noteq> 0, cR, f\<lparr>broadcast_id := addr, frame_destination := None\<rparr>, r', s2) \<and> ob_inv r' \<and> ob_unread r' = rest"
proof -
  have "\<exists>r'. parse_to_broadcast flags cR f r sR =
         Some (0, seen = 0, seen = 0 \<and> relay \<noteq> 0, cR, f\<lparr>broadcast_id := addr, frame_destination := None\<rparr>, r', s2) \<and> ob_inv r' \<and> ob_unread r' = rest"
    if r: "flags AND PAYLOAD_FLAG_ONE_HOP = 0" "ob_inv r" "ob_unread r = addr @ rest" for r rest f flags
    using ob_read_bytes[OF r(2,3) a] r(1) seen by (auto simp: parse_to_broadcast_def overlay_broadcast_parse_def)
  then show thesis using that broadcast_wrote[OF b a] by metis
qed

text \<open>The byte of the time to live and the queue.\<close>

lemma ttl_queue_byte:
  assumes "0 \<le> ttl" "ttl \<le> 31" "0 \<le> queue" "queue \<le> 3"
  shows "uint (word_of_int (ttl OR push_bit 5 (queue AND 3)) :: byte) AND 0x1F = ttl"
    "drop_bit 5 (uint (word_of_int (ttl OR push_bit 5 (queue AND 3)) :: byte)) AND 3 = queue"
proof -
  have "\<forall>t \<in> {0..31}. \<forall>q \<in> {0..3}. uint (word_of_int (t OR push_bit 5 (q AND 3)) :: byte) AND 0x1F = t \<and>
      drop_bit 5 (uint (word_of_int (t OR push_bit 5 (q AND 3)) :: byte)) AND 3 = (q :: int)"
    by code_simp
  then show "uint (word_of_int (ttl OR push_bit 5 (queue AND 3)) :: byte) AND 0x1F = ttl"
    "drop_bit 5 (uint (word_of_int (ttl OR push_bit 5 (queue AND 3)) :: byte)) AND 3 = queue" using assms by auto
qed

lemma byte_transfer:
  assumes "ob_inv b" "ob_fits b 1"
  obtains b' where "wrote (run_steps [byte_step v] c b st) b [word_of_int v] c b' st"
    "\<And>r rest. ob_inv r \<Longrightarrow> ob_unread r = word_of_int v # rest \<Longrightarrow> \<exists>r'. ob_get r = Some (v mod 256, r') \<and> ob_inv r' \<and> ob_unread r' = rest"
proof -
  have "\<exists>r'. ob_get r = Some (v mod 256, r') \<and> ob_inv r' \<and> ob_unread r' = rest" if "ob_inv r" "ob_unread r = word_of_int v # rest" for r rest
    using ob_read_byte[OF that] by (simp add: uint_word_of_int)
  then show thesis using that byte_wrote[OF assms] by metis
qed

text \<open>What the fields after the addresses make of a frame.\<close>

definition read_fields :: "bool \<Rightarrow> overlay_frame \<Rightarrow> int \<Rightarrow> int \<Rightarrow> int \<Rightarrow> overlay_frame" where
  "read_fields hop f ttl queue type =
     (if hop then f\<lparr>frame_ttl := 0, frame_type := type\<rparr>
      else f\<lparr>frame_queue := queue, frame_ttl := (if ttl \<noteq> 0 then ttl - 1 else 0), frame_type := type\<rparr>)"

definition ttl_steps :: "int \<Rightarrow> int \<Rightarrow> int \<Rightarrow> (decode_context \<Rightarrow> overlay_buffer \<Rightarrow> overlay_state \<Rightarrow> build_result) list" where
  "ttl_steps flags ttl queue = (if flags AND PAYLOAD_FLAG_ONE_HOP = 0 then [byte_step (ttl OR push_bit 5 (queue AND 3))] else [])"

definition type_steps :: "int \<Rightarrow> int \<Rightarrow> (decode_context \<Rightarrow> overlay_buffer \<Rightarrow> overlay_state \<Rightarrow> build_result) list" where
  "type_steps flags type = (if flags AND PAYLOAD_FLAG_LEGACY_TYPE \<noteq> 0 then [byte_step type] else [])"

definition seq_steps :: "int \<Rightarrow> int \<Rightarrow> (decode_context \<Rightarrow> overlay_buffer \<Rightarrow> overlay_state \<Rightarrow> build_result) list" where
  "seq_steps version sequence = (if version \<ge> 1 then [byte_step sequence] else [])"

lemma ttl_transfer:
  assumes b: "ob_inv b" "ob_fits b 1" and t: "0 \<le> ttl" "ttl \<le> 31" "0 \<le> queue" "queue \<le> 3"
  obtains vs b' where "wrote (run_steps (ttl_steps flags ttl queue) c b st) b vs c b' st" "length vs \<le> 1"
    "\<And>r rest f. ob_inv r \<Longrightarrow> ob_unread r = vs @ rest \<Longrightarrow> \<exists>r'. parse_ttl flags f r =
       Some (0, if flags AND PAYLOAD_FLAG_ONE_HOP \<noteq> 0 then f\<lparr>frame_ttl := 0\<rparr> else f\<lparr>frame_queue := queue, frame_ttl := (if ttl \<noteq> 0 then ttl - 1 else 0)\<rparr>, r') \<and>
       ob_inv r' \<and> ob_unread r' = rest"
proof (cases "flags AND PAYLOAD_FLAG_ONE_HOP = 0")
  case False
  then show thesis using that[of "[]" b] wrote_none[OF b(1)] by (simp add: ttl_steps_def parse_ttl_def)
next
  case True
  let ?v = "ttl OR push_bit 5 (queue AND 3)"
  obtain b' where b': "wrote (run_steps [byte_step ?v] c b st) b [word_of_int ?v] c b' st" by (rule byte_wrote[OF b])
  have "\<exists>r'. parse_ttl flags f r = Some (0, f\<lparr>frame_queue := queue, frame_ttl := (if ttl \<noteq> 0 then ttl - 1 else 0)\<rparr>, r') \<and> ob_inv r' \<and> ob_unread r' = rest"
    if r: "ob_inv r" "ob_unread r = word_of_int ?v # rest" for r rest f
  proof -
    obtain r' where r': "ob_get r = Some (uint (word_of_int ?v :: byte), r')" "ob_inv r'" "ob_unread r' = rest" using ob_read_byte[OF r] by blast
    note e = ttl_queue_byte[OF t]
    have "parse_ttl flags f r = Some (0, f\<lparr>frame_queue := queue, frame_ttl := (if ttl \<noteq> 0 then ttl - 1 else 0)\<rparr>, r')"
      unfolding parse_ttl_def r'(1) using True by (simp only: if_False if_True bind.bind_lunit split_conv Let_def e not_less simp_thms) simp
    then show ?thesis using r'(2,3) by blast
  qed
  then show thesis using that[of "[word_of_int ?v]" b'] b' True by (simp add: ttl_steps_def)
qed

lemma type_transfer:
  assumes b: "ob_inv b" "ob_fits b 1" and t: "0 \<le> type" "type < 256"
    and flags: "flags AND PAYLOAD_FLAG_LEGACY_TYPE = (if type \<noteq> OF_TYPE_DATA then PAYLOAD_FLAG_LEGACY_TYPE else 0)"
  obtains vs b' where "wrote (run_steps (type_steps flags type) c b st) b vs c b' st" "length vs \<le> 1"
    "\<And>r rest f. ob_inv r \<Longrightarrow> ob_unread r = vs @ rest \<Longrightarrow> \<exists>r'. parse_type flags f r = Some (0, f\<lparr>frame_type := type\<rparr>, r') \<and> ob_inv r' \<and> ob_unread r' = rest"
proof (cases "type = OF_TYPE_DATA")
  case True
  then show thesis using that[of "[]" b] wrote_none[OF b(1)] flags by (simp add: type_steps_def parse_type_def)
next
  case False
  obtain b' where b': "wrote (run_steps [byte_step type] c b st) b [word_of_int type] c b' st"
    "\<And>r rest. ob_inv r \<Longrightarrow> ob_unread r = word_of_int type # rest \<Longrightarrow> \<exists>r'. ob_get r = Some (type mod 256, r') \<and> ob_inv r' \<and> ob_unread r' = rest"
    by (rule byte_transfer[OF b]) blast
  have "\<exists>r'. parse_type flags f r = Some (0, f\<lparr>frame_type := type\<rparr>, r') \<and> ob_inv r' \<and> ob_unread r' = rest"
    if r: "ob_inv r" "ob_unread r = [word_of_int type] @ rest" for r rest f
    using b'(2)[OF r(1), of rest] r(2) False flags t by (auto simp: parse_type_def)
  then show thesis using that[of "[word_of_int type]" b'] b'(1) False flags by (simp add: type_steps_def)
qed

text \<open>Whether a header has its sequence number checked.\<close>

definition checks_seq :: "int \<Rightarrow> int \<Rightarrow> bool" where
  "checks_seq version flags \<longleftrightarrow> version \<ge> 1 \<and> (flags AND PAYLOAD_FLAG_ONE_HOP \<noteq> 0 \<or> flags AND PAYLOAD_FLAG_TO_BROADCAST = 0)"

lemma seq_transfer:
  assumes b: "ob_inv b" "ob_fits b 1" and t: "0 \<le> sequence" "sequence < 256" "ctx_packet_version cR = version"
    and dup: "(if checks_seq version flags then received_duplicate (ctx_sender cR) sequence sR else Some (0, sR)) = Some (dup, sR')"
  obtains vs b' where "wrote (run_steps (seq_steps version sequence) c b st) b vs c b' st" "length vs \<le> 1"
    "\<And>r rest. ob_inv r \<Longrightarrow> ob_unread r = vs @ rest \<Longrightarrow> \<exists>r'. parse_seq flags cR r sR = Some (0, dup \<noteq> 0, r', sR') \<and> ob_inv r' \<and> ob_unread r' = rest"
proof (cases "version \<ge> 1")
  case False
  then show thesis using that[of "[]" b] wrote_none[OF b(1)] dup t(3) by (simp add: seq_steps_def parse_seq_def checks_seq_def)
next
  case True
  obtain b' where b': "wrote (run_steps [byte_step sequence] c b st) b [word_of_int sequence] c b' st"
    "\<And>r rest. ob_inv r \<Longrightarrow> ob_unread r = word_of_int sequence # rest \<Longrightarrow> \<exists>r'. ob_get r = Some (sequence mod 256, r') \<and> ob_inv r' \<and> ob_unread r' = rest"
    by (rule byte_transfer[OF b]) blast
  have "\<exists>r'. parse_seq flags cR r sR = Some (0, dup \<noteq> 0, r', sR') \<and> ob_inv r' \<and> ob_unread r' = rest"
    if r: "ob_inv r" "ob_unread r = [word_of_int sequence] @ rest" for r rest
  proof -
    obtain r' where "ob_get r = Some (sequence, r')" "ob_inv r'" "ob_unread r' = rest" using b'(2)[OF r(1), of rest] r(2) t by auto
    then show ?thesis using True t dup by (cases "checks_seq version flags") (auto simp: parse_seq_def checks_seq_def)
  qed
  then show thesis using that[of "[word_of_int sequence]" b'] b'(1) True by (simp add: seq_steps_def)
qed


lemma fields_transfer:
  assumes b: "ob_inv b" "ob_fits b 3" and t: "0 \<le> ttl" "ttl \<le> 31" "0 \<le> queue" "queue \<le> 3" "0 \<le> type" "type < 256" "0 \<le> sequence" "sequence < 256"
    and flags: "flags AND PAYLOAD_FLAG_LEGACY_TYPE = (if type \<noteq> OF_TYPE_DATA then PAYLOAD_FLAG_LEGACY_TYPE else 0)"
    and v: "ctx_packet_version cR = version"
    and dup: "(if checks_seq version flags then received_duplicate (ctx_sender cR) sequence sR else Some (0, sR)) = Some (dup, sR')"
  obtains vs b' where "wrote (run_steps (ttl_steps flags ttl queue @ type_steps flags type @ seq_steps version sequence) c b st) b vs c b' st" "length vs \<le> 3"
    "\<And>r rest f. ob_inv r \<Longrightarrow> ob_unread r = vs @ rest \<Longrightarrow> \<exists>r'. parse_fields flags cR f r sR =
       Some (0, dup \<noteq> 0, read_fields (flags AND PAYLOAD_FLAG_ONE_HOP \<noteq> 0) f ttl queue type, r', sR') \<and> ob_inv r' \<and> ob_unread r' = rest"
proof -
  have f1: "ob_fits b 1" by (rule ob_fits_mono[OF b(2)]) simp
  obtain xs b1 where x: "wrote (run_steps (ttl_steps flags ttl queue) c b st) b xs c b1 st" "length xs \<le> 1"
    "\<And>r rest f. ob_inv r \<Longrightarrow> ob_unread r = xs @ rest \<Longrightarrow> \<exists>r'. parse_ttl flags f r =
       Some (0, if flags AND PAYLOAD_FLAG_ONE_HOP \<noteq> 0 then f\<lparr>frame_ttl := 0\<rparr> else f\<lparr>frame_queue := queue, frame_ttl := (if ttl \<noteq> 0 then ttl - 1 else 0)\<rparr>, r') \<and>
       ob_inv r' \<and> ob_unread r' = rest"
    by (rule ttl_transfer[OF b(1) f1 t(1-4), of flags c st]) blast
  have b1: "ob_inv b1" "ob_fits b1 2" using x(1) wrote_fits[OF x(1), of 2] ob_fits_mono[OF b(2), of "int (length xs) + 2"] x(2) by (simp_all add: wrote_def)
  have f2: "ob_fits b1 1" by (rule ob_fits_mono[OF b1(2)]) simp
  obtain ys b2 where y: "wrote (run_steps (type_steps flags type) c b1 st) b1 ys c b2 st" "length ys \<le> 1"
    "\<And>r rest f. ob_inv r \<Longrightarrow> ob_unread r = ys @ rest \<Longrightarrow> \<exists>r'. parse_type flags f r = Some (0, f\<lparr>frame_type := type\<rparr>, r') \<and> ob_inv r' \<and> ob_unread r' = rest"
    by (rule type_transfer[OF b1(1) f2 t(5,6) flags, of c st]) blast
  have b2: "ob_inv b2" "ob_fits b2 1" using y(1) wrote_fits[OF y(1), of 1] ob_fits_mono[OF b1(2), of "int (length ys) + 1"] y(2) by (simp_all add: wrote_def)
  obtain zs b3 where z: "wrote (run_steps (seq_steps version sequence) c b2 st) b2 zs c b3 st" "length zs \<le> 1"
    "\<And>r rest. ob_inv r \<Longrightarrow> ob_unread r = zs @ rest \<Longrightarrow> \<exists>r'. parse_seq flags cR r sR = Some (0, dup \<noteq> 0, r', sR') \<and> ob_inv r' \<and> ob_unread r' = rest"
    by (rule seq_transfer[OF b2 t(7,8) v dup, of c st]) blast
  have "\<exists>r'. parse_fields flags cR f r sR = Some (0, dup \<noteq> 0, read_fields (flags AND PAYLOAD_FLAG_ONE_HOP \<noteq> 0) f ttl queue type, r', sR') \<and> ob_inv r' \<and> ob_unread r' = rest"
    if r: "ob_inv r" "ob_unread r = (xs @ ys @ zs) @ rest" for r rest f
  proof -
    let ?f = "if flags AND PAYLOAD_FLAG_ONE_HOP \<noteq> 0 then f\<lparr>frame_ttl := 0\<rparr> else f\<lparr>frame_queue := queue, frame_ttl := (if ttl \<noteq> 0 then ttl - 1 else 0)\<rparr>"
    obtain r1 where r1: "parse_ttl flags f r = Some (0, ?f, r1)" "ob_inv r1" "ob_unread r1 = ys @ zs @ rest" using x(3)[OF r(1), of "ys @ zs @ rest" f] r(2) by auto
    obtain r2 where r2: "parse_type flags ?f r1 = Some (0, ?f\<lparr>frame_type := type\<rparr>, r2)" "ob_inv r2" "ob_unread r2 = zs @ rest" using y(3)[OF r1(2,3)] by blast
    obtain r3 where r3: "parse_seq flags cR r2 sR = Some (0, dup \<noteq> 0, r3, sR')" "ob_inv r3" "ob_unread r3 = rest" using z(3)[OF r2(2,3)] by blast
    have "?f\<lparr>frame_type := type\<rparr> = read_fields (flags AND PAYLOAD_FLAG_ONE_HOP \<noteq> 0) f ttl queue type" by (simp add: read_fields_def)
    then show ?thesis using r1(1) r2(1) r3 unfolding parse_fields_def by simp
  qed
  then show thesis using that[of "xs @ ys @ zs" b3] wrote_steps[OF x(1) wrote_steps[OF y(1) z(1)]] x(2) y(2) z(2) by simp
qed

text \<open>The steps of a header in groups.\<close>

definition destination_steps :: "int \<Rightarrow> byte list option \<Rightarrow> nat option \<Rightarrow> nat option \<Rightarrow> (decode_context \<Rightarrow> overlay_buffer \<Rightarrow> overlay_state \<Rightarrow> build_result) list" where
  "destination_steps flags addr next_hop destination =
     (if flags AND PAYLOAD_FLAG_TO_BROADCAST \<noteq> 0 then (if flags AND PAYLOAD_FLAG_ONE_HOP = 0 then [broadcast_step addr] else [])
      else [append_step destination] @ (if flags AND PAYLOAD_FLAG_ONE_HOP = 0 then [append_step next_hop] else []))"

lemma build_header_steps:
  assumes "0 \<le> ttl" "ttl \<le> PAYLOAD_TTL_MAX" "flags = header_flags c type m ttl addr next_hop destination source"
  shows "overlay_frame_build_header version c b queue type m ttl sequence addr next_hop destination source st =
    run_steps ([byte_step flags] @ (if flags AND PAYLOAD_FLAG_SENDER_SAME = 0 then [append_step source] else []) @
      destination_steps flags addr next_hop destination @ ttl_steps flags ttl queue @ type_steps flags type @ seq_steps version sequence) c b st"
  using assms by (simp add: overlay_frame_build_header_def destination_steps_def ttl_steps_def type_steps_def seq_steps_def Let_def)

text \<open>A header whose parts are read back is read back.\<close>

lemma header_transfer:
  assumes b: "ob_inv b" "ob_fits b 103" and l: "linked sS sR" and pq: "same_subscriber sS sR s qs" and c: "in_step sS sR cS cR"
    and t: "0 \<le> ttl" "ttl \<le> 31" "0 \<le> queue" "queue \<le> 3" "0 \<le> type" "type < 256" "0 \<le> sequence" "sequence < 256"
    and flags: "flags = header_flags cS type m ttl addr next_hop destination (Some s)" and v: "ctx_packet_version cR = version"
    and dest: "\<And>b1 s1 c1 d1. ob_inv b1 \<Longrightarrow> ob_fits b1 66 \<Longrightarrow> linked s1 sR \<Longrightarrow> sids s1 = sids sS \<Longrightarrow> in_step s1 sR c1 d1 \<Longrightarrow>
        ctx_header d1 = ctx_header cR \<Longrightarrow> invalid_addresses d1 = invalid_addresses cR \<Longrightarrow>
        \<exists>ws c2 b2 s2 d2. wrote (run_steps (destination_steps flags addr next_hop destination) c1 b1 s1) b1 ws c2 b2 s2 \<and> length ws \<le> 66 \<and> linked s2 sR \<and>
          sids s2 = sids sS \<and> in_step s2 sR c2 d2 \<and> ctx_header d2 = ctx_header cR \<and> invalid_addresses d2 = invalid_addresses cR \<and>
          (\<forall>r rest f. ob_inv r \<longrightarrow> ob_unread r = ws @ rest \<longrightarrow> (\<exists>r'.
            (if flags AND PAYLOAD_FLAG_TO_BROADCAST \<noteq> 0 then parse_to_broadcast flags d1 f r sR else parse_to_subscriber flags d1 f r sR) =
              Some (0, process, forward, d2, g f, r', sR1) \<and> ob_inv r' \<and> ob_unread r' = rest))"
    and dup: "(if checks_seq version flags then received_duplicate (ctx_sender cR) sequence sR1 else Some (0, sR1)) = Some (dup, sR')"
  shows "\<exists>vs cS' b' sS' cR'.
    wrote (overlay_frame_build_header version cS b queue type m ttl sequence addr next_hop destination (Some s) sS) b vs cS' b' sS' \<and> length vs \<le> 103 \<and>
    linked sS' sR \<and> sids sS' = sids sS \<and> in_step sS' sR cS' cR' \<and> ctx_header cR' = ctx_header cR \<and> invalid_addresses cR' = invalid_addresses cR \<and>
    (\<forall>r rest f. ob_inv r \<longrightarrow> ob_unread r = vs @ rest \<longrightarrow> (\<exists>r'.
      let f' = read_fields (flags AND PAYLOAD_FLAG_ONE_HOP \<noteq> 0) (g (f\<lparr>frame_source := Some qs\<rparr>)) ttl queue type;
          good = (dup = 0 \<and> invalid_addresses cR = 0 \<and> (Some s = ctx_sender cS \<or> \<not> self_at sR qs))
      in parseMdpPacketHeader cR f r sR =
        Some ((if forward \<and> frame_ttl f' \<noteq> 0 \<and> good then HEADER_FORWARD else 0) OR (if process \<and> good then HEADER_PROCESS else 0), cR',
          f'\<lparr>frame_modifiers := flags, frame_packet_version := version\<rparr>, r', sR') \<and> ob_inv r' \<and> ob_unread r' = rest))"
proof -
  have f1: "ob_fits b 1" by (rule ob_fits_mono[OF b(2)]) simp
  obtain b0 where w0: "wrote (run_steps [byte_step flags] cS b sS) b [word_of_int flags] cS b0 sS"
    "\<And>r rest. ob_inv r \<Longrightarrow> ob_unread r = word_of_int flags # rest \<Longrightarrow> \<exists>r'. ob_get r = Some (flags mod 256, r') \<and> ob_inv r' \<and> ob_unread r' = rest"
    by (rule byte_transfer[OF b(1) f1]) blast
  have b0: "ob_inv b0" "ob_fits b0 102" using w0(1) wrote_fits[OF w0(1), of 102] b(2) by (simp_all add: wrote_def)
  have f33: "ob_fits b0 33" by (rule ob_fits_mono[OF b0(2)]) simp
  have fl: "flags AND PAYLOAD_FLAG_SENDER_SAME = (if Some s = ctx_sender cS then PAYLOAD_FLAG_SENDER_SAME else 0)"
    "flags AND PAYLOAD_FLAG_LEGACY_TYPE = (if type \<noteq> OF_TYPE_DATA then PAYLOAD_FLAG_LEGACY_TYPE else 0)" "0 \<le> flags" "flags < 256"
    unfolding flags by (rule header_flags_bits header_flags_range)+
  let ?src = "if flags AND PAYLOAD_FLAG_SENDER_SAME = 0 then [append_step (Some s)] else []" and ?ok = "Some s = ctx_sender cS \<or> \<not> self_at sR qs"
  obtain vs1 c1 b1 s1 d1 where w1: "wrote (run_steps ?src cS b0 sS) b0 vs1 c1 b1 s1" "length vs1 \<le> 33"
    "linked s1 sR" "sids s1 = sids sS" "in_step s1 sR c1 d1" "ctx_header d1 = ctx_header cR" "invalid_addresses d1 = invalid_addresses cR"
    "\<And>r rest f. ob_inv r \<Longrightarrow> ob_unread r = vs1 @ rest \<Longrightarrow>
       \<exists>r'. parse_source flags cR f r sR = Some (0, ?ok, ?ok, d1, f\<lparr>frame_source := Some qs\<rparr>, r', sR) \<and> ob_inv r' \<and> ob_unread r' = rest"
    by (rule source_transfer[OF l pq c b0(1) f33 fl(1)]) blast
  have b1: "ob_inv b1" "ob_fits b1 69" using w1(1) wrote_fits[OF w1(1), of 69] ob_fits_mono[OF b0(2), of "int (length vs1) + 69"] w1(2) by (simp_all add: wrote_def)
  have f66: "ob_fits b1 66" by (rule ob_fits_mono[OF b1(2)]) simp
  obtain vs2 c2 b2 s2 d2 where w2: "wrote (run_steps (destination_steps flags addr next_hop destination) c1 b1 s1) b1 vs2 c2 b2 s2" "length vs2 \<le> 66" "linked s2 sR"
    "sids s2 = sids sS" "in_step s2 sR c2 d2" "ctx_header d2 = ctx_header cR" "invalid_addresses d2 = invalid_addresses cR"
    "\<forall>r rest f. ob_inv r \<longrightarrow> ob_unread r = vs2 @ rest \<longrightarrow> (\<exists>r'.
        (if flags AND PAYLOAD_FLAG_TO_BROADCAST \<noteq> 0 then parse_to_broadcast flags d1 f r sR else parse_to_subscriber flags d1 f r sR) =
          Some (0, process, forward, d2, g f, r', sR1) \<and> ob_inv r' \<and> ob_unread r' = rest)"
    using dest[OF b1(1) f66 w1(3-7)] by blast
  have b2: "ob_inv b2" "ob_fits b2 3" using w2(1) wrote_fits[OF w2(1), of 3] ob_fits_mono[OF b1(2), of "int (length vs2) + 3"] w2(2) by (simp_all add: wrote_def)
  have h2: "ctx_packet_version d2 = version" "ctx_sender d2 = ctx_sender cR" using w2(6) v by (simp_all add: ctx_header_def)
  obtain vs3 b3 where w3: "wrote (run_steps (ttl_steps flags ttl queue @ type_steps flags type @ seq_steps version sequence) c2 b2 s2) b2 vs3 c2 b3 s2" "length vs3 \<le> 3"
    "\<And>r rest f. ob_inv r \<Longrightarrow> ob_unread r = vs3 @ rest \<Longrightarrow> \<exists>r'. parse_fields flags d2 f r sR1 =
       Some (0, dup \<noteq> 0, read_fields (flags AND PAYLOAD_FLAG_ONE_HOP \<noteq> 0) f ttl queue type, r', sR') \<and> ob_inv r' \<and> ob_unread r' = rest"
    by (rule fields_transfer[OF b2 t fl(2) h2(1) dup[folded h2(2)], of c2 s2]) blast
  have "\<exists>r'. let f' = read_fields (flags AND PAYLOAD_FLAG_ONE_HOP \<noteq> 0) (g (f\<lparr>frame_source := Some qs\<rparr>)) ttl queue type;
          good = (dup = 0 \<and> invalid_addresses cR = 0 \<and> ?ok)
      in parseMdpPacketHeader cR f r sR =
        Some ((if forward \<and> frame_ttl f' \<noteq> 0 \<and> good then HEADER_FORWARD else 0) OR (if process \<and> good then HEADER_PROCESS else 0), d2,
          f'\<lparr>frame_modifiers := flags, frame_packet_version := version\<rparr>, r', sR') \<and> ob_inv r' \<and> ob_unread r' = rest"
    if r: "ob_inv r" "ob_unread r = ([word_of_int flags] @ vs1 @ vs2 @ vs3) @ rest" for r rest f
  proof -
    let ?f = "f\<lparr>frame_source := Some qs\<rparr>" and ?h = "flags AND PAYLOAD_FLAG_ONE_HOP \<noteq> 0"
    obtain r0 where r0: "ob_get r = Some (flags, r0)" "ob_inv r0" "ob_unread r0 = vs1 @ vs2 @ vs3 @ rest"
      using w0(2)[OF r(1), of "vs1 @ vs2 @ vs3 @ rest"] r(2) fl(3,4) by auto
    obtain r1 where r1: "parse_source flags cR f r0 sR = Some (0, ?ok, ?ok, d1, ?f, r1, sR)" "ob_inv r1" "ob_unread r1 = vs2 @ vs3 @ rest"
      using w1(8)[OF r0(2,3)] by blast
    obtain r2 where r2: "(if flags AND PAYLOAD_FLAG_TO_BROADCAST \<noteq> 0 then parse_to_broadcast flags d1 ?f r1 sR else parse_to_subscriber flags d1 ?f r1 sR) =
          Some (0, process, forward, d2, g ?f, r2, sR1)" "ob_inv r2" "ob_unread r2 = vs3 @ rest" using w2(8) r1(2,3) by blast
    obtain r3 where r3: "parse_fields flags d2 (g ?f) r2 sR1 = Some (0, dup \<noteq> 0, read_fields ?h (g ?f) ttl queue type, r3, sR')" "ob_inv r3" "ob_unread r3 = rest"
      using w3(3)[OF r2(2,3)] by blast
    have "parse_endpoints flags cR f r0 sR = Some (0, ?ok \<and> process, ?ok \<and> forward, d2, g ?f, r2, sR1)"
      unfolding parse_endpoints_def r1(1) using r2(1) by simp
    then have "parseMdpPacketHeader cR f r sR = Some ((if (?ok \<and> forward) \<and> frame_ttl (read_fields ?h (g ?f) ttl queue type) \<noteq> 0 \<and> dup = 0 \<and> invalid_addresses cR = 0
        then HEADER_FORWARD else 0) OR (if (?ok \<and> process) \<and> dup = 0 \<and> invalid_addresses cR = 0 then HEADER_PROCESS else 0), d2,
          (read_fields ?h (g ?f) ttl queue type)\<lparr>frame_modifiers := flags, frame_packet_version := version\<rparr>, r3, sR')"
      unfolding parseMdpPacketHeader_def using r0(1) fl(3) r3(1) h2(1) w2(7) by (simp add: Let_def)
    then show ?thesis using r3(2,3) unfolding Let_def by (intro exI[of _ r3]) (simp add: conj_ac)
  qed
  moreover have "wrote (overlay_frame_build_header version cS b queue type m ttl sequence addr next_hop destination (Some s) sS) b
      ([word_of_int flags] @ vs1 @ vs2 @ vs3) c2 b3 s2"
    unfolding build_header_steps[OF t(1,2) flags] by (rule wrote_steps[OF w0(1) wrote_steps[OF w1(1) wrote_steps[OF w2(1) w3(1)]]])
  ultimately show ?thesis using w1(2) w2(2-7) w3(2)
    by (intro exI[of _ "[word_of_int flags] @ vs1 @ vs2 @ vs3"] exI[of _ c2] exI[of _ b3] exI[of _ s2] exI[of _ d2]) (simp del: length_map)
qed


subsection \<open>A frame on the wire\<close>

definition frame_ready :: "overlay_frame \<Rightarrow> overlay_buffer \<Rightarrow> bool" where
  "frame_ready p pl \<longleftrightarrow> 0 \<le> frame_ttl p \<and> frame_ttl p \<le> 31 \<and> 0 \<le> frame_queue p \<and> frame_queue p \<le> 3 \<and> 0 \<le> frame_type p \<and> frame_type p < 256 \<and>
     frame_payload p = Some pl \<and> ob_inv pl \<and> position pl < 65536"

text \<open>A packet being read: the limit is that of the received bytes.\<close>

definition packet_reader :: "overlay_buffer \<Rightarrow> byte list \<Rightarrow> bool" where
  "packet_reader r us \<longleftrightarrow> ob_inv r \<and> 0 \<le> sizeLimit r \<and> sizeLimit r \<le> allocSize r \<and> sizeLimit r < 2 ^ 32 \<and> ob_unread r = us"

text \<open>What the receiver's frame has in common with the one sent.\<close>

definition arrives :: "overlay_state \<Rightarrow> overlay_state \<Rightarrow> overlay_frame \<Rightarrow> bool \<Rightarrow> overlay_frame \<Rightarrow> bool" where
  "arrives sS sR p hop f \<longleftrightarrow>
     rel_option (same_subscriber sS sR) (frame_source p) (frame_source f) \<and> rel_option (same_subscriber sS sR) (frame_destination p) (frame_destination f) \<and>
     frame_type f = frame_type p \<and> frame_packet_version f = frame_packet_version p \<and> frame_modifiers f AND 0x30 = frame_modifiers p AND 0x30 \<and>
     (if hop then frame_ttl f = 0
      else frame_ttl f = max 0 (frame_ttl p - 1) \<and> frame_queue f = frame_queue p \<and> (frame_destination p = None \<longrightarrow> broadcast_id f = broadcast_id p))"

lemma header_flags_modifiers: "header_flags c type m ttl a n d s AND 0x30 = m AND 0x30"
  by (simp add: header_flags_def Let_def bit.conj_disj_distrib2 and.assoc)

lemma checkpoint_simps:
  "ob_inv b \<Longrightarrow> ob_inv (ob_checkpoint b)" "ob_data (ob_checkpoint b) = ob_data b" "ob_fits (ob_checkpoint b) n = ob_fits b n"
  "position (ob_checkpoint b) = position b"
  by (simp_all add: ob_checkpoint_def ob_inv_def ob_data_def ob_fits_def ob_growable_def ob_mem_def)

lemma payload_appended:
  assumes b: "ob_fits b (int (length vs) + 2 + position pl)" and pl: "frame_payload p = Some pl" "ob_inv pl"
    and a: "frame_broadcast p = Some addr"
    and h: "wrote (overlay_frame_build_header (frame_packet_version p) c (ob_checkpoint b) (frame_queue p) (frame_type p) (frame_modifiers p)
        (frame_ttl p) (mdp_sequence p AND 0xFF) addr (frame_next_hop p) (frame_destination p) (frame_source p) st) (ob_checkpoint b) vs c' b1 st'"
  shows "\<exists>b'. overlay_frame_append_payload c p b st = Some (0, c', b', st') \<and> ob_inv b' \<and>
    ob_data b' = ob_data b @ vs @ be16 (word_of_int (position pl)) @ ob_data pl"
proof -
  have p0: "0 \<le> position pl" "position pl \<le> int (length (ob_mem pl))" using pl(2) by (auto simp: ob_inv_def)
  have b1: "ob_inv b1" "ob_data b1 = ob_data b @ vs" "ob_fits b1 (2 + position pl)"
    using h wrote_fits[OF h, of "2 + position pl"] b by (simp_all add: wrote_def checkpoint_simps add.assoc)
  have f2: "ob_fits b1 2" by (rule ob_fits_mono[OF b1(3)]) (use p0 in simp)
  obtain b2 where b2: "ob_append_bytes b1 (be16 (word_of_int (position pl))) 2 = Some (0, b2)" "ob_inv b2" "position b2 = position b1 + 2" "ob_frame b1 b2"
      "ob_data b2 = ob_data b1 @ take (nat 2) (be16 (word_of_int (position pl)))" using ob_append_bytes_fits[OF b1(1) f2, of "be16 (word_of_int (position pl))"] by (auto simp del: take_Suc)
  have "ob_fits b2 (position pl)" using b1(3) ob_frame_fits[OF b2(4,3)] by simp
  then obtain b3 where b3: "ob_append_bytes b2 (ob_mem pl) (position pl) = Some (0, b3)" "ob_inv b3" "ob_data b3 = ob_data b2 @ take (nat (position pl)) (ob_mem pl)"
    using ob_append_bytes_fits[OF b2(2) _ p0] by blast
  have "overlay_frame_append_payload c p b st = Some (0, c', b3, st')"
    using h a pl(1) b2(1) b3(1) by (simp add: overlay_frame_append_payload_def wrote_def ob_append_ui16_eq ob_position_def)
  moreover have "ob_data b3 = ob_data b @ vs @ be16 (word_of_int (position pl)) @ ob_data pl"
    using b3(3) b2(5) b1(2) be_lengths(1)[of "word_of_int (position pl)"] by (simp add: ob_data_def)
  ultimately show ?thesis using b3(2) by blast
qed

lemma payload_read:
  assumes r: "packet_reader r (be16 (word_of_int n) @ vs @ rest)" and n: "0 \<le> n" "n < 65536" "int (length vs) = n" and c: "ctx_encapsulation c = ENCAP_OVERLAY"
  shows "\<exists>r'. payload_length c r = Some (True, n, r') \<and> ob_inv r' \<and> ob_unread r' = vs @ rest"
proof -
  have ri: "ob_inv r" and u: "ob_unread r = be16 (word_of_int n) @ vs @ rest" and lim: "0 \<le> sizeLimit r" "sizeLimit r \<le> allocSize r" "sizeLimit r < 2 ^ 32"
    using r by (simp_all add: packet_reader_def)
  let ?r = "r\<lparr>position := position r + 2\<rparr>"
  have g: "ob_get_ui16 r = Some (word_of_int n, ?r)" using ob_get_ui16_next[OF ri] u by (simp add: be16_def be16_value)
  have a: "ob_inv ?r" "ob_unread ?r = vs @ rest" using ob_unread_advance[OF ri, of 2] u by (simp_all add: be16_def)
  have "ob_remaining ?r = int (length (vs @ rest))" using ob_unread_length[OF a(1)] a(2) lim by (simp add: ob_remaining_def)
  moreover have "0 \<le> position ?r" using a(1) by (simp add: ob_inv_def)
  ultimately have "n \<le> ob_remaining ?r" "0 \<le> ob_remaining ?r" "ob_remaining ?r < 2 ^ 32" using n lim by (simp_all add: ob_remaining_def)
  moreover have "uint (word_of_int n :: u16) = n" using n by (simp add: uint_word_of_int)
  ultimately have "payload_length c r = Some (True, n, ?r)" using c g by (simp add: payload_length_def)
  then show ?thesis using a by blast
qed

lemma packet_reader_later: "packet_reader r us \<Longrightarrow> later r r' \<Longrightarrow> ob_inv r' \<Longrightarrow> ob_unread r' = vs \<Longrightarrow> packet_reader r' vs"
  by (auto simp: packet_reader_def dest!: later_fields)

lemma frame_transfer:
  assumes b: "ob_fits b (105 + position pl)" and pl: "frame_payload p = Some pl" "ob_inv pl" "0 \<le> position pl" "position pl < 65536"
    and a: "frame_broadcast p = Some addr"
    and h: "wrote (overlay_frame_build_header (frame_packet_version p) cS (ob_checkpoint b) (frame_queue p) (frame_type p) (frame_modifiers p)
        (frame_ttl p) (mdp_sequence p AND 0xFF) addr (frame_next_hop p) (frame_destination p) (frame_source p) sS) (ob_checkpoint b) vs cS' b1 sS'" "length vs \<le> 103"
    and rd: "\<And>r rest f. ob_inv r \<Longrightarrow> ob_unread r = vs @ rest \<Longrightarrow> \<exists>r'. parseMdpPacketHeader cR f r sR = Some (code, cR', g f, r', sR') \<and> ob_inv r' \<and> ob_unread r' = rest"
    and code: "0 \<le> code" and e: "ctx_encapsulation cR' = ENCAP_OVERLAY"
  shows "\<exists>ws b'. overlay_frame_append_payload cS p b sS = Some (0, cS', b', sS') \<and> ob_data b' = ob_data b @ ws \<and> int (length ws) \<le> 105 + position pl \<and>
    (\<forall>r rest f. packet_reader r (ws @ rest) \<longrightarrow> (\<exists>r1 r2. parseMdpPacketHeader cR f r sR = Some (code, cR', g f, r1, sR') \<and>
       payload_length cR' r1 = Some (True, position pl, r2) \<and> ob_inv r2 \<and> ob_unread r2 = ob_data pl @ rest))"
proof -
  have "ob_fits b (int (length vs) + 2 + position pl)" by (rule ob_fits_mono[OF b]) (use h(2) in simp)
  then obtain b' where b': "overlay_frame_append_payload cS p b sS = Some (0, cS', b', sS')"
    "ob_data b' = ob_data b @ vs @ be16 (word_of_int (position pl)) @ ob_data pl"
    using payload_appended[OF _ pl(1,2) a h(1)] by blast
  have ld: "int (length (ob_data pl)) = position pl" using pl(2,3) by (auto simp: ob_data_def ob_inv_def)
  have "\<exists>r1 r2. parseMdpPacketHeader cR f r sR = Some (code, cR', g f, r1, sR') \<and>
       payload_length cR' r1 = Some (True, position pl, r2) \<and> ob_inv r2 \<and> ob_unread r2 = ob_data pl @ rest"
    if r: "packet_reader r ((vs @ be16 (word_of_int (position pl)) @ ob_data pl) @ rest)" for r rest f
  proof -
    obtain r1 where r1: "parseMdpPacketHeader cR f r sR = Some (code, cR', g f, r1, sR')" "ob_inv r1" "ob_unread r1 = be16 (word_of_int (position pl)) @ ob_data pl @ rest"
      using rd[of r "be16 (word_of_int (position pl)) @ ob_data pl @ rest" f] r by (auto simp: packet_reader_def)
    have "later r r1" using header_consumes[OF r1(1) code] by simp
    then show ?thesis using payload_read[OF packet_reader_later[OF r _ r1(2,3)] pl(3,4) ld e] r1(1) by blast
  qed
  then show ?thesis using b' h(2) ld by (intro exI[of _ "vs @ be16 (word_of_int (position pl)) @ ob_data pl"] exI[of _ b']) simp
qed

lemma in_step_table: "sub_table sR' = sub_table sR \<Longrightarrow> in_step sS sR' c d = in_step sS sR c d"
proof -
  assume "sub_table sR' = sub_table sR"
  then have "same_subscriber sS sR' = same_subscriber sS sR" by (intro ext) (simp add: same_subscriber_def)
  then show ?thesis by (simp add: in_step_def)
qed

lemma received_duplicate_table: "received_duplicate x q st = Some (r, st') \<Longrightarrow> sub_table st' = sub_table st"
  by (auto simp: received_duplicate_def bind_eq_Some_conv)

lemma unicast_destination:
  assumes same: "same_subscriber sS sR d qd" "same_subscriber sS sR n qn"
    and fb: "flags AND PAYLOAD_FLAG_TO_BROADCAST = 0" and fh: "flags AND PAYLOAD_FLAG_ONE_HOP = (if hop then PAYLOAD_FLAG_ONE_HOP else 0)"
    and a: "ob_inv b1" "ob_fits b1 66" "linked s1 sR" "sids s1 = sids sS" "in_step s1 sR c1 d1" "ctx_header d1 = ctx_header cR" "invalid_addresses d1 = invalid_addresses cR"
  shows "\<exists>ws c2 b2 s2 d2. wrote (run_steps (destination_steps flags addr (Some n) (Some d)) c1 b1 s1) b1 ws c2 b2 s2 \<and> length ws \<le> 66 \<and> linked s2 sR \<and>
    sids s2 = sids sS \<and> in_step s2 sR c2 d2 \<and> ctx_header d2 = ctx_header cR \<and> invalid_addresses d2 = invalid_addresses cR \<and>
    (\<forall>r rest f. ob_inv r \<longrightarrow> ob_unread r = ws @ rest \<longrightarrow> (\<exists>r'.
      (if flags AND PAYLOAD_FLAG_TO_BROADCAST \<noteq> 0 then parse_to_broadcast flags d1 f r sR else parse_to_subscriber flags d1 f r sR) =
        Some (0, self_at sR qd, hop \<or> self_at sR qn, d2, f\<lparr>frame_destination := Some qd\<rparr>, r', sR) \<and> ob_inv r' \<and> ob_unread r' = rest))"
proof -
  have sd: "same_subscriber s1 sR d qd" "same_subscriber s1 sR n qn" using same unfolding same_subscriber_sids[OF a(4)] by simp_all
  obtain ws c2 b2 s2 d2 where
    w: "wrote (run_steps ([append_step (Some d)] @ (if flags AND PAYLOAD_FLAG_ONE_HOP = 0 then [append_step (Some n)] else [])) c1 b1 s1) b1 ws c2 b2 s2"
    "length ws \<le> 66" "linked s2 sR" "sids s2 = sids s1" "in_step s2 sR c2 d2" "ctx_header d2 = ctx_header d1" "invalid_addresses d2 = invalid_addresses d1"
    "\<And>r rest f. ob_inv r \<Longrightarrow> ob_unread r = ws @ rest \<Longrightarrow>
       \<exists>r'. parse_to_subscriber flags d1 f r sR =
         Some (0, self_at sR qd, flags AND PAYLOAD_FLAG_ONE_HOP \<noteq> 0 \<or> self_at sR qn, d2, f\<lparr>frame_destination := Some qd\<rparr>, r', sR) \<and>
         ob_inv r' \<and> ob_unread r' = rest"
    by (rule subscriber_transfer[OF a(3) sd(1) sd(2) a(5) a(1,2), of flags]) blast
  have "sids s2 = sids sS" using w(4) a(4) by (simp only:)
  moreover have "(flags AND PAYLOAD_FLAG_ONE_HOP \<noteq> 0) = hop" using fh by simp
  ultimately show ?thesis using w(1-3,5-8) a(6,7) fb by (intro exI[of _ ws] exI[of _ c2] exI[of _ b2] exI[of _ s2] exI[of _ d2]) (simp add: destination_steps_def)
qed

lemma broadcast_destination:
  assumes id: "length addr = BROADCAST_LEN" and fb: "flags AND PAYLOAD_FLAG_TO_BROADCAST \<noteq> 0" and fh: "flags AND PAYLOAD_FLAG_ONE_HOP = 0"
    and seen: "overlay_broadcast_drop_check sR addr = Some (seen, sR0)" "link_state_should_forward_broadcast (ctx_sender cR) sR0 = Some (relay, sR1)"
    and a: "ob_inv b1" "ob_fits b1 66" "linked s1 sR" "sids s1 = sids sS" "in_step s1 sR c1 d1" "ctx_header d1 = ctx_header cR" "invalid_addresses d1 = invalid_addresses cR"
  shows "\<exists>ws c2 b2 s2 d2. wrote (run_steps (destination_steps flags (Some addr) n d) c1 b1 s1) b1 ws c2 b2 s2 \<and> length ws \<le> 66 \<and> linked s2 sR \<and>
    sids s2 = sids sS \<and> in_step s2 sR c2 d2 \<and> ctx_header d2 = ctx_header cR \<and> invalid_addresses d2 = invalid_addresses cR \<and>
    (\<forall>r rest f. ob_inv r \<longrightarrow> ob_unread r = ws @ rest \<longrightarrow> (\<exists>r'.
      (if flags AND PAYLOAD_FLAG_TO_BROADCAST \<noteq> 0 then parse_to_broadcast flags d1 f r sR else parse_to_subscriber flags d1 f r sR) =
        Some (0, seen = 0, seen = 0 \<and> relay \<noteq> 0, d2, f\<lparr>broadcast_id := addr, frame_destination := None\<rparr>, r', sR1) \<and> ob_inv r' \<and> ob_unread r' = rest))"
proof -
  have f8: "ob_fits b1 (int BROADCAST_LEN)" by (rule ob_fits_mono[OF a(2)]) simp
  have "ctx_sender cR = ctx_sender d1" using a(6) by (simp add: ctx_header_def)
  note seen' = seen(1) seen(2)[unfolded this]
  obtain b2 where w: "wrote (run_steps [broadcast_step (Some addr)] c1 b1 s1) b1 addr c1 b2 s1"
    "\<And>r rest f flags. flags AND PAYLOAD_FLAG_ONE_HOP = 0 \<Longrightarrow> ob_inv r \<Longrightarrow> ob_unread r = addr @ rest \<Longrightarrow>
       \<exists>r'. parse_to_broadcast flags d1 f r sR =
         Some (0, seen = 0, seen = 0 \<and> relay \<noteq> 0, d1, f\<lparr>broadcast_id := addr, frame_destination := None\<rparr>, r', sR1) \<and> ob_inv r' \<and> ob_unread r' = rest"
    by (rule broadcast_transfer[OF a(1) f8 id seen', of c1 s1]) blast
  then show ?thesis using a(3-7) fb fh id by (intro exI[of _ addr] exI[of _ c1] exI[of _ b2] exI[of _ s1] exI[of _ d1]) (simp add: destination_steps_def)
qed

lemma is_all_matching_iff: "n \<le> length p \<Longrightarrow> is_all_matching p n v = Some (take n p = replicate n v)"
proof (induction n arbitrary: p)
  case (Suc n)
  then obtain x xs where p: "p = x # xs" by (cases p) auto
  then show ?case using Suc.IH[of xs] Suc.prems by (simp add: c_get_def)
qed simp


lemma drop_check_table: "overlay_broadcast_drop_check st a = Some (r, st') \<Longrightarrow> sub_table st' = sub_table st"
  by (auto simp: overlay_broadcast_drop_check_def bind_eq_Some_conv Let_def split: if_splits)

lemma should_forward_table: "link_state_should_forward_broadcast x st = Some (r, st') \<Longrightarrow> sub_table st' = sub_table st"
  by (auto simp: link_state_should_forward_broadcast_def gettime_ms_def bind_eq_Some_conv split: option.splits)


text \<open>Frames for examples, and a packet as it is received.\<close>

definition example_payload :: overlay_buffer where
  "example_payload = (ob_static (\<lambda>_. 0) [1, 2, 3] 3)\<lparr>position := 3\<rparr>"

definition example_unicast :: overlay_frame where
  "example_unicast = empty_frame\<lparr>frame_type := OF_TYPE_DATA, frame_ttl := 5, frame_queue := 2, frame_source := Some 0, frame_destination := Some 1,
     frame_next_hop := Some 0, frame_payload := Some example_payload\<rparr>"

definition example_broadcast :: overlay_frame where
  "example_broadcast = empty_frame\<lparr>frame_type := OF_TYPE_DATA, frame_ttl := 5, frame_source := Some 1, broadcast_id := [1, 2, 3, 4, 5, 6, 7, 8],
     frame_payload := Some example_payload\<rparr>"

definition overlay_context :: decode_context where
  "overlay_context = empty_context\<lparr>ctx_encapsulation := ENCAP_OVERLAY\<rparr>"

definition received :: "byte list \<Rightarrow> overlay_buffer" where
  "received vs = snd (ob_limitsize (ob_static (\<lambda>_. 0) vs (int (length vs))) (int (length vs)))"

lemma received_reader: "int (length vs) < 2 ^ 32 \<Longrightarrow> packet_reader (received vs) vs"
  by (simp add: packet_reader_def received_def ob_limitsize_def ob_static_def ob_unlimitsize_def ob_calloc_def ob_inv_def ob_mem_def ob_unread_def)

lemma example_payload_ok: "ob_inv example_payload" "position example_payload = 3" "ob_data example_payload = [1, 2, 3]"
  by (simp_all add: example_payload_def ob_static_def ob_unlimitsize_def ob_calloc_def ob_inv_def ob_mem_def ob_data_def)

lemma example_linked: "linked example_state example_state" "in_step example_state example_state overlay_context overlay_context"
  "same_subscriber example_state example_state 0 0" "same_subscriber example_state example_state 1 1"
  using example_state_ok by (simp_all add: linked_def in_step_def overlay_context_def empty_context_def same_subscriber_refl del: length_map)

lemma example_self: "\<not> self_at example_state 0" "\<not> self_at example_state 1"
  by (simp_all add: self_at_def example_state_def two_subscribers_def new_subscriber_def)



end
