(* ===== verification/Overlay_Packet_Safe.thy ===== *)
theory Overlay_Packet_Safe
  imports Overlay_Frame_Correct
begin

text \<open>
  What holds whatever the frames and packets are. Appending a frame leaves a packet either with the
  whole frame or as it was, but not always its context; a broadcast without an identifier that
  may travel more than one hop is a NULL pointer dereference. Reading an arbitrary header is
  safe, and nothing is handed on that has an unknown address or no hop left.
\<close>

subsection \<open>All or nothing\<close>

definition safe_step :: "byte list list \<Rightarrow> (decode_context \<Rightarrow> overlay_buffer \<Rightarrow> overlay_state \<Rightarrow> build_result) \<Rightarrow> bool" where
  "safe_step S f \<longleftrightarrow> (\<forall>c b st. table_ok (sub_table st) \<longrightarrow> sids st = S \<longrightarrow> ob_inv b \<longrightarrow>
     (\<exists>r c' b' st'. f c b st = Some (r, c', b', st') \<and> extends b b' \<and> table_ok (sub_table st') \<and> sids st' = S))"

lemma run_steps_safe:
  assumes "\<And>f. f \<in> set fs \<Longrightarrow> safe_step S f" "table_ok (sub_table st)" "sids st = S" "ob_inv b"
  shows "\<exists>r c' b' st'. run_steps fs c b st = Some (r, c', b', st') \<and> (r = 0 \<or> r = -1) \<and> extends b b' \<and> table_ok (sub_table st') \<and> sids st' = S"
  using assms
proof (induction fs arbitrary: c b st)
  case Nil
  then show ?case by (simp add: extends_refl)
next
  case (Cons f fs)
  have "safe_step S f" using Cons.prems(1) by simp
  from this[unfolded safe_step_def, rule_format, OF Cons.prems(2-4), of c]
  obtain r c1 b1 st1 where f: "f c b st = Some (r, c1, b1, st1)" "extends b b1" "table_ok (sub_table st1)" "sids st1 = S"
    by blast
  show ?case
  proof (cases "r = 0")
    case False
    then show ?thesis using f by auto
  next
    case True
    have "ob_inv b1" using f(2) by (simp add: extends_def)
    then obtain r' c2 b2 st2 where "run_steps fs c1 b1 st1 = Some (r', c2, b2, st2)" "r' = 0 \<or> r' = -1" "extends b1 b2" "table_ok (sub_table st2)" "sids st2 = S"
      using Cons.IH[OF Cons.prems(1) f(3,4), of b1 c1] by auto
    then show ?thesis using f(1) True extends_trans[OF f(2)] by auto
  qed
qed

lemma byte_safe: "safe_step S (byte_step v)"
proof -
  have "\<exists>r c' b' st'. byte_step v c b st = Some (r, c', b', st') \<and> extends b b' \<and> table_ok (sub_table st') \<and> sids st' = S"
    if "table_ok (sub_table st)" "sids st = S" "ob_inv b" for c b st
    using append_bytes_extends[OF that(3), of 1 "[word_of_int v]"] that(1,2) by (auto simp: byte_step_def ob_append_byte_eq simp del: length_map)
  then show ?thesis unfolding safe_step_def by blast
qed

lemma broadcast_safe: "length addr = BROADCAST_LEN \<Longrightarrow> safe_step S (broadcast_step (Some addr))"
proof -
  assume l: "length addr = BROADCAST_LEN"
  have "\<exists>r c' b' st'. broadcast_step (Some addr) c b st = Some (r, c', b', st') \<and> extends b b' \<and> table_ok (sub_table st') \<and> sids st' = S"
    if "table_ok (sub_table st)" "sids st = S" "ob_inv b" for c b st
    using append_bytes_extends[OF that(3), of "int BROADCAST_LEN" addr] l that(1,2) by (auto simp: broadcast_step_def overlay_broadcast_append_def)
  then show ?thesis unfolding safe_step_def by blast
qed

lemma append_sid_extends:
  assumes ok: "table_ok (sub_table st)" "p < length (sids st)" and b: "ob_inv b"
  shows "\<exists>r b' st'. append_sid b p st = Some (r, b', st') \<and> extends b b' \<and> table_ok (sub_table st') \<and> sids st' = sids st"
proof -
  obtain s where s: "deref st p = Some s" "s = subscribers (sub_table st) ! p" "sub_sid s = sids st ! p" using deref_known[OF ok(2)] by auto
  define st' where "st' = (if send_full s \<noteq> 0 then set_subscriber st p (s\<lparr>send_full := 0\<rparr>) else st)"
  let ?k = "sent_bytes st p"
  note k = sent_bytes_unique[OF ok]
  have l: "length (sub_sid s) = SID_SIZE" using ok s(3) by (simp add: table_ok_def)
  have e: "(if send_full s \<noteq> 0 then (int SID_SIZE, set_subscriber st p (s\<lparr>send_full := 0\<rparr>)) else (abbreviation_bytes s, st)) = (int ?k, st')"
    using k(4) s(2) by (simp add: st'_def sent_bytes_def)
  have t: "table_ok (sub_table st')" "sids st' = sids st" using set_subscriber_ok[OF ok(1) s(1)] ok(1) by (simp_all add: st'_def)
  obtain r1 b1 where b1: "ob_append_byte b (word_of_int (int ?k)) = Some (r1, b1)" "extends b b1"
    using append_bytes_extends[OF b, of 1 "[word_of_int (int ?k)]"] by (auto simp: ob_append_byte_eq)
  have "ob_inv b1" using b1(2) by (simp add: extends_def)
  then obtain r2 b2 where b2: "ob_append_bytes b1 (sub_sid s) (int ?k) = Some (r2, b2)" "extends b1 b2"
    using append_bytes_extends[of b1 "int ?k" "sub_sid s"] k(2) l by auto
  have "append_sid b p st = Some (if r1 = 0 \<and> r2 = 0 then 0 else -1, if r1 = 0 then b2 else b1, st')"
    unfolding append_sid_def s(1) bind.simps e using b1(1) b2(1) by simp
  then show ?thesis using t b1(2) extends_trans[OF b1(2) b2(2)] by (cases "r1 = 0") auto
qed

lemma append_step_safe:
  assumes "case p of None \<Rightarrow> True | Some q \<Rightarrow> q < length S"
  shows "safe_step S (append_step p)"
proof -
  have "\<exists>r c' b' st'. append_step p c b st = Some (r, c', b', st') \<and> extends b b' \<and> table_ok (sub_table st') \<and> sids st' = S"
    if a: "table_ok (sub_table st)" "sids st = S" "ob_inv b" for c b st
  proof (cases p)
    case None
    then show ?thesis using a by (simp add: append_step_def overlay_address_append_def extends_refl del: length_map)
  next
    case (Some q)
    have q: "q < length (sids st)" using assms Some unfolding a(2) by simp
    have code: "\<exists>r b'. append_code b v st = Some (r, b', st) \<and> extends b b'" for v
      using append_bytes_extends[OF a(3), of 1 "[word_of_int v]"] by (auto simp: append_code_def ob_append_byte_eq)
    obtain r b' st' where x: "(if ctx_sender c = Some q then append_code b OA_CODE_SELF st else if ctx_previous c = Some q then append_code b OA_CODE_PREVIOUS st
        else append_sid b q st) = Some (r, b', st')" "extends b b'" "table_ok (sub_table st')" "sids st' = sids st"
      using code[of OA_CODE_SELF] code[of OA_CODE_PREVIOUS] append_sid_extends[OF a(1) q a(3)] a(1) by (metis (no_types, lifting))
    have "sids st' = S" using x(4) a(2) by (simp only:)
    then show ?thesis using Some x(1-3) by (auto simp: append_step_def overlay_address_append_def split: if_splits)
  qed
  then show ?thesis unfolding safe_step_def by blast
qed

lemma checkpoint_length: "checkpointLength (ob_checkpoint b) = position b"
  by (simp add: ob_checkpoint_def)

lemma rewind_restores:
  assumes "extends (ob_checkpoint b) b'" "ob_inv b"
  shows "ob_inv (ob_rewind b')" "ob_data (ob_rewind b') = ob_data b" "position (ob_rewind b') = position b" "ob_fits (ob_rewind b') n = ob_fits b n"
proof -
  obtain vs where e: "ob_inv b'" "ob_data b' = ob_data b @ vs" "position b' = position b + int (length vs)" "checkpointLength b' = position b"
    "ob_frame (ob_checkpoint b) b'"
    using assms(1) by (auto simp: extends_def checkpoint_simps ob_frame_def checkpoint_length)
  have l: "length (ob_data b) = nat (position b)" "0 \<le> position b" using assms(2) by (auto simp: ob_data_def ob_inv_def)
  show "ob_inv (ob_rewind b')" using e(1) by (auto simp: ob_inv_def ob_rewind_def ob_mem_def)
  show "position (ob_rewind b') = position b" using e(4) by (simp add: ob_rewind_def)
  show "ob_fits (ob_rewind b') n = ob_fits b n"
    using e(4,5) by (auto simp: ob_fits_def ob_frame_def ob_rewind_def ob_checkpoint_def ob_growable_def)
  have "take (nat (position b)) (ob_data b') = ob_data b" using e(2) l by simp
  moreover have "nat (position b) \<le> nat (position b')" using e(3) l(2) by simp
  ultimately show "ob_data (ob_rewind b') = ob_data b" using e(4) by (simp add: ob_data_def ob_rewind_def ob_mem_def min_absorb1)
qed

lemma frame_broadcast_value:
  "length (broadcast_id p) = BROADCAST_LEN \<Longrightarrow>
   frame_broadcast p = Some (if frame_destination p = None \<and> broadcast_id p \<noteq> replicate BROADCAST_LEN 0 then Some (broadcast_id p) else None)"
  using is_all_matching_iff[of BROADCAST_LEN "broadcast_id p" 0] by (simp add: frame_broadcast_def)

lemma append_bytes_data:
  assumes "ob_append_bytes b vs n = Some (0, b')" "ob_inv b" "0 \<le> n" "n \<le> int (length vs)"
  shows "ob_data b' = ob_data b @ take (nat n) vs"
proof -
  have "ob_fits b n" using assms(1) ob_append_bytes_full[of b n vs] by auto
  then show ?thesis using ob_append_bytes_fits[OF assms(2) _ assms(3,4)] assms(1) by auto
qed

lemma build_header_safe:
  assumes ok: "table_ok (sub_table st)" "ob_inv b" and v: "valid_ptr st next_hop" "valid_ptr st destination" "valid_ptr st source"
    and a: "case addr of None \<Rightarrow> destination = None \<longrightarrow> ttl = 1 \<or> ttl < 0 \<or> ttl > PAYLOAD_TTL_MAX | Some x \<Rightarrow> length x = BROADCAST_LEN"
  shows "\<exists>r c' b' st'. overlay_frame_build_header version c b queue type m ttl sequence addr next_hop destination source st = Some (r, c', b', st') \<and>
    (r = 0 \<or> r = -1) \<and> extends b b' \<and> table_ok (sub_table st') \<and> sids st' = sids st"
proof (cases "ttl < 0 \<or> ttl > PAYLOAD_TTL_MAX")
  case True
  then show ?thesis using ok by (simp add: overlay_frame_build_header_def extends_refl)
next
  case False
  define flags where "flags = header_flags c type m ttl addr next_hop destination source"
  have hop: "flags AND PAYLOAD_FLAG_ONE_HOP \<noteq> 0" if "addr = None" "destination = None"
    using a False that header_flags_bits(3)[of c type m ttl addr next_hop destination source] by (simp add: flags_def one_hop_def)
  have bc: "flags AND PAYLOAD_FLAG_TO_BROADCAST \<noteq> 0 \<longleftrightarrow> destination = None"
    using header_flags_bits(2)[of c type m ttl addr next_hop destination source] by (simp add: flags_def)
  have p: "safe_step (sids st) (append_step x)" if "x \<in> {source, destination, next_hop}" for x
  proof (rule append_step_safe)
    show "case x of None \<Rightarrow> True | Some q \<Rightarrow> q < length (sids st)" using that v by (auto simp: valid_ptr_def simp del: length_map split: option.split)
  qed
  have d: "safe_step (sids st) f" if "f \<in> set (destination_steps flags addr next_hop destination)" for f
  proof (cases "flags AND PAYLOAD_FLAG_TO_BROADCAST \<noteq> 0")
    case True
    then have f: "flags AND PAYLOAD_FLAG_ONE_HOP = 0" "f = broadcast_step addr" using that by (auto simp: destination_steps_def split: if_splits)
    then obtain x where "addr = Some x" using hop bc True by (cases addr) auto
    then show ?thesis using f(2) a broadcast_safe[of x] by simp
  next
    case False
    then show ?thesis using that p by (auto simp: destination_steps_def split: if_splits)
  qed
  have "safe_step (sids st) f" if "f \<in> set ([byte_step flags] @ (if flags AND PAYLOAD_FLAG_SENDER_SAME = 0 then [append_step source] else []) @
      destination_steps flags addr next_hop destination @ ttl_steps flags ttl queue @ type_steps flags type @ seq_steps version sequence)" for f
    using that d p byte_safe by (auto simp: ttl_steps_def type_steps_def seq_steps_def split: if_splits)
  then show ?thesis using build_header_steps[of ttl flags c type m addr next_hop destination source] False
      run_steps_safe[OF _ ok(1) refl ok(2)] by (simp only: not_less de_Morgan_disj flags_def)
qed



lemma wrote_then: "wrote (run_steps fs c b st) b vs c1 b1 st1 \<Longrightarrow> run_steps (fs @ gs) c b st = run_steps gs c1 b1 st1"
  by (simp add: wrote_def run_steps_append)

lemma in_step_same: "ctx_ok st c \<Longrightarrow> in_step st st c c"
  by (cases "ctx_sender c"; cases "ctx_previous c") (simp_all add: ctx_ok_def valid_ptr_def in_step_def same_subscriber_def del: length_map)

lemma linked_same: "table_ok (sub_table st) \<Longrightarrow> linked st st"
  by (simp add: linked_def)

text \<open>C31. A broadcast frame whose identifier is all zero and whose time to live is not one makes the
  writer dereference NULL: it treats the identifier as missing, but writes it.\<close>

theorem broadcast_without_id_faults:
  assumes ok: "table_ok (sub_table st)" "ctx_ok st c" "ob_inv b" "ob_fits b 34" and s: "frame_source p = Some s" "s < length (sids st)"
    and d: "frame_destination p = None" "broadcast_id p = replicate BROADCAST_LEN 0" and t: "0 \<le> frame_ttl p" "frame_ttl p \<le> PAYLOAD_TTL_MAX" "frame_ttl p \<noteq> 1"
  shows "overlay_frame_append_payload c p b st = None"
proof -
  define flags where "flags = header_flags c (frame_type p) (frame_modifiers p) (frame_ttl p) None (frame_next_hop p) None (Some s)"
  note bits = header_flags_bits[of c "frame_type p" "frame_modifiers p" "frame_ttl p" None "frame_next_hop p" None "Some s", folded flags_def]
  have f: "flags AND PAYLOAD_FLAG_TO_BROADCAST \<noteq> 0" "flags AND PAYLOAD_FLAG_ONE_HOP = 0" using bits(2,3) t(3) by (simp_all add: one_hop_def)
  let ?b = "ob_checkpoint b"
  have b: "ob_inv ?b" "ob_fits ?b 1" "ob_fits ?b 34" using ok(3,4) ob_fits_mono[OF ok(4), of 1] by (simp_all add: checkpoint_simps)
  obtain b0 where w0: "wrote (run_steps [byte_step flags] c ?b st) ?b [word_of_int flags] c b0 st" by (rule byte_wrote[OF b(1,2)])
  have b0: "ob_inv b0" "ob_fits b0 33" using w0 wrote_fits[OF w0, of 33] b(3) by (simp_all add: wrote_def)
  obtain vs c1 b1 st1 where w1: "wrote (run_steps (if flags AND PAYLOAD_FLAG_SENDER_SAME = 0 then [append_step (Some s)] else []) c b0 st) b0 vs c1 b1 st1"
    by (rule source_transfer[OF linked_same[OF ok(1)] same_subscriber_refl[OF s(2)] in_step_same[OF ok(2)] b0 bits(1)]) blast
  obtain gs where "destination_steps flags None (frame_next_hop p) None = broadcast_step None # gs" using f by (simp add: destination_steps_def)
  then have "run_steps (destination_steps flags None (frame_next_hop p) None @ hs) c1 b1 st1 = None" for hs by (simp add: broadcast_step_def)
  then have "run_steps ([byte_step flags] @ (if flags AND PAYLOAD_FLAG_SENDER_SAME = 0 then [append_step (Some s)] else []) @
      destination_steps flags None (frame_next_hop p) None @ hs) c ?b st = None" for hs
    unfolding wrote_then[OF w0] wrote_then[OF w1] .
  then have "overlay_frame_build_header version c ?b queue (frame_type p) (frame_modifiers p) (frame_ttl p) sequence None (frame_next_hop p) None (Some s) st = None"
    for version queue sequence unfolding build_header_steps[OF t(1,2) flags_def] by blast
  moreover have "frame_broadcast p = Some None" using frame_broadcast_value[of p] d by simp
  ultimately show ?thesis using s(1) d(1) by (simp add: overlay_frame_append_payload_def)
qed

theorem broadcast_without_id_faults_witness:
  "overlay_frame_append_payload empty_context (example_broadcast\<lparr>broadcast_id := replicate 8 0\<rparr>) (ob_new (\<lambda>_. 0)) example_state = None"
  using example_state_ok(2)
  by (intro broadcast_without_id_faults[OF example_state_ok(1) empty_context_ok ob_new_inv ob_new_fits, of _ 1])
    (simp_all add: example_broadcast_def empty_frame_def del: length_map)

lemma same_table_inj: "table_ok (sub_table st) \<Longrightarrow> sids st' = sids st \<Longrightarrow> same_subscriber st' st p q \<Longrightarrow> p = q"
  unfolding same_subscriber_def by (metis nth_eq_iff_index_eq table_ok_def)

text \<open>The header of a frame to a neighbour: afterwards the previous address is the destination.\<close>

lemma unicast_header_previous:
  assumes ok: "table_ok (sub_table st)" "ctx_ok st c" "ob_inv b" "ob_fits b 70" and v: "s < length (sids st)" "d < length (sids st)"
    and t: "0 \<le> ttl" "ttl \<le> 31" "0 \<le> queue" "queue \<le> 3" "0 \<le> type" "type < 256" "0 \<le> sequence" "sequence < 256"
  obtains vs c1 b1 st1 where
    "wrote (overlay_frame_build_header version c b queue type m ttl sequence None (Some d) (Some d) (Some s) st) b vs (c1\<lparr>ctx_previous := Some d\<rparr>) b1 st1"
    "ctx_sender c1 = ctx_sender c" "table_ok (sub_table st1)" "sids st1 = sids st"
proof -
  define flags where "flags = header_flags c type m ttl None (Some d) (Some d) (Some s)"
  note bits = header_flags_bits[of c type m ttl None "Some d" "Some d" "Some s", folded flags_def]
  have f: "flags AND PAYLOAD_FLAG_TO_BROADCAST = 0" "flags AND PAYLOAD_FLAG_ONE_HOP \<noteq> 0" using bits(2,3) by (simp_all add: one_hop_def)
  have f1: "ob_fits b 1" by (rule ob_fits_mono[OF ok(4)]) simp
  obtain b0 where w0: "wrote (run_steps [byte_step flags] c b st) b [word_of_int flags] c b0 st" by (rule byte_wrote[OF ok(3) f1])
  have b0: "ob_inv b0" "ob_fits b0 69" using w0 wrote_fits[OF w0, of 69] ok(4) by (simp_all add: wrote_def)
  have f33: "ob_fits b0 33" by (rule ob_fits_mono[OF b0(2)]) simp
  let ?src = "if flags AND PAYLOAD_FLAG_SENDER_SAME = 0 then [append_step (Some s)] else []"
  obtain vs1 c1 b1 s1 d1 where w1: "wrote (run_steps ?src c b0 st) b0 vs1 c1 b1 s1" "length vs1 \<le> 33" "linked s1 st" "sids s1 = sids st" "in_step s1 st c1 d1"
    "ctx_header d1 = ctx_header c"
    by (rule source_transfer[OF linked_same[OF ok(1)] same_subscriber_refl[OF v(1)] in_step_same[OF ok(2)] b0(1) f33 bits(1)]) blast
  have "ctx_sender d1 = ctx_sender c" using w1(6) by (simp add: ctx_header_def)
  then have snd: "ctx_sender c1 = ctx_sender c" using w1(5) same_table_inj[OF ok(1) w1(4)] by (cases "ctx_sender c1"; cases "ctx_sender c") (auto simp: in_step_def)
  have b1: "ob_inv b1" "ob_fits b1 36" using w1(1) wrote_fits[OF w1(1), of 36] ob_fits_mono[OF b0(2), of "int (length vs1) + 36"] w1(2) by (simp_all add: wrote_def)
  have g33: "ob_fits b1 33" by (rule ob_fits_mono[OF b1(2)]) simp
  have dd: "same_subscriber s1 st d d" unfolding same_subscriber_sids[OF w1(4)] by (rule same_subscriber_refl[OF v(2)])
  obtain vs2 b2 s2 where w2: "wrote (run_steps [append_step (Some d)] c1 b1 s1) b1 vs2 (c1\<lparr>ctx_previous := Some d\<rparr>) b2 s2" "length vs2 \<le> 33" "linked s2 st" "sids s2 = sids s1"
    by (rule address_wrote[OF w1(3) dd w1(5) b1(1) g33]) blast
  have b2: "ob_inv b2" "ob_fits b2 3" using w2(1) wrote_fits[OF w2(1), of 3] ob_fits_mono[OF b1(2), of "int (length vs2) + 3"] w2(2) by (simp_all add: wrote_def)
  let ?no = "empty_context\<lparr>ctx_packet_version := version\<rparr>"
  obtain vs3 b3 where w3: "wrote (run_steps (ttl_steps flags ttl queue @ type_steps flags type @ seq_steps version sequence) (c1\<lparr>ctx_previous := Some d\<rparr>) b2 s2) b2 vs3
      (c1\<lparr>ctx_previous := Some d\<rparr>) b3 s2"
  proof -
    have "(if checks_seq version flags then received_duplicate (ctx_sender ?no) sequence (st\<lparr>links := \<lparr>neighbours = [], link_send_alarm = 0\<rparr>\<rparr>)
        else Some (0, st\<lparr>links := \<lparr>neighbours = [], link_send_alarm = 0\<rparr>\<rparr>)) = Some (0, st\<lparr>links := \<lparr>neighbours = [], link_send_alarm = 0\<rparr>\<rparr>)"
      by (simp add: received_duplicate_def link_received_duplicate_def get_neighbour_def)
    from fields_transfer[OF b2 t bits(4) _ this, of "c1\<lparr>ctx_previous := Some d\<rparr>" s2] that show thesis by force
  qed
  have ds: "destination_steps flags None (Some d) (Some d) = [append_step (Some d)]" using f by (simp add: destination_steps_def)
  have "wrote (overlay_frame_build_header version c b queue type m ttl sequence None (Some d) (Some d) (Some s) st) b ([word_of_int flags] @ vs1 @ vs2 @ vs3)
      (c1\<lparr>ctx_previous := Some d\<rparr>) b3 s2"
    unfolding build_header_steps[OF t(1,2) flags_def] ds by (rule wrote_steps[OF w0 wrote_steps[OF w1(1) wrote_steps[OF w2(1) w3]]])
  moreover have "sids s2 = sids st" using w2(4) w1(4) by (simp only:)
  ultimately show thesis using that snd w2(3) by (auto simp: linked_def simp del: length_map)
qed




subsection \<open>Reading any header\<close>

definition state_ok :: "overlay_state \<Rightarrow> bool" where
  "state_ok st \<longleftrightarrow> table_ok (sub_table st) \<and> length (bpilist st) = MAX_BPIS \<and> valid_ptr st (my_subscriber st)"

definition grows :: "overlay_state \<Rightarrow> overlay_state \<Rightarrow> bool" where
  "grows st st' \<longleftrightarrow> (\<exists>new. sids st' = sids st @ new)"

definition frame_ok :: "overlay_state \<Rightarrow> overlay_frame \<Rightarrow> bool" where
  "frame_ok st f \<longleftrightarrow> valid_ptr st (frame_source f) \<and> valid_ptr st (frame_destination f)"

lemma grows_refl: "grows st st"
  by (simp add: grows_def)

lemma grows_trans: "grows st st' \<Longrightarrow> grows st' st'' \<Longrightarrow> grows st st''"
  unfolding grows_def by (metis append.assoc)

lemma grows_valid: "grows st st' \<Longrightarrow> valid_ptr st x \<Longrightarrow> valid_ptr st' x"
  unfolding grows_def using valid_ptr_mono by blast

lemma grows_frame: "grows st st' \<Longrightarrow> frame_ok st f \<Longrightarrow> frame_ok st' f"
  by (simp add: frame_ok_def grows_valid)

lemma grows_table: "sub_table st' = sub_table st \<Longrightarrow> grows st st'"
  by (simp add: grows_def)

lemma grows_ctx: "grows st st' \<Longrightarrow> ctx_ok st c \<Longrightarrow> ctx_ok st' c"
  by (simp add: ctx_ok_def grows_valid)

lemma is_self_total: "valid_ptr st x \<Longrightarrow> \<exists>s. is_self st x = Some s"
  using is_self_known[of _ st] by (cases x) (auto simp: is_self_def valid_ptr_def)

text \<open>What a part of the header leaves behind. \<close>

definition part_ok :: "overlay_state \<Rightarrow> decode_context \<Rightarrow> int \<Rightarrow> decode_context \<Rightarrow> overlay_frame \<Rightarrow> overlay_buffer \<Rightarrow> overlay_state \<Rightarrow> bool" where
  "part_ok st c r c' f' b' st' \<longleftrightarrow> (r = 0 \<or> r = -1) \<and> state_ok st' \<and> grows st st' \<and> links st' = links st \<and> ctx_ok st' c' \<and> ctx_header c' = ctx_header c \<and>
     invalid_addresses c' \<in> {invalid_addresses c, 1} \<and> ob_inv b' \<and> frame_ok st' f'"

lemma address_part:
  assumes "state_ok st" "ctx_ok st c" "ob_inv b"
  obtains r x c' b' st' where "overlay_address_parse (Some c) b st = Some (r, x, Some c', b', st')" "r = 0 \<or> r = -1" "state_ok st'" "grows st st'" "links st' = links st"
    "ctx_ok st' c'" "ctx_header c' = ctx_header c" "invalid_addresses c' \<in> {invalid_addresses c, 1}" "ob_inv b'"
    "\<And>p. x = Some p \<Longrightarrow> valid_ptr st' p" "(\<exists>p. x = Some (Some p)) \<or> r = -1 \<or> invalid_addresses c' = 1"
proof -
  have t: "table_ok (sub_table st)" using assms(1) by (simp add: state_ok_def)
  obtain r out c' b' st' new where a: "overlay_address_parse (Some c) b st = Some (r, out, Some c', b', st')" "r \<in> {0, -1}"
    "table_ok (sub_table st')" "sids st' = sids st @ new" "ctx_ok st' c'" "ob_inv b'" "others st' = others st" "ctx_header c' = ctx_header c"
    "invalid_addresses c' \<in> {invalid_addresses c, 1}" "case out of Some (Some p) \<Rightarrow> p < length (sids st') | _ \<Rightarrow> r = 0 \<longrightarrow> invalid_addresses c' = 1"
    using overlay_address_parse_total[OF t assms(2,3)] by blast
  have g: "grows st st'" using a(4) by (auto simp: grows_def simp del: map_append)
  have o: "my_subscriber st' = my_subscriber st" "bpilist st' = bpilist st" "links st' = links st" using a(7) by (simp_all add: others_def)
  have "state_ok st'" using assms(1) a(3) grows_valid[OF g] o by (simp add: state_ok_def)
  moreover have "valid_ptr st' p" if "out = Some p" for p using a(10) that by (cases p) (simp_all add: valid_ptr_def del: length_map)
  moreover have "(\<exists>p. out = Some (Some p)) \<or> r = -1 \<or> invalid_addresses c' = 1" using a(2,10) by (cases out; cases "the out") auto
  ultimately show thesis using that[OF a(1)] a g o(3) by blast
qed

lemma parse_source_safe:
  assumes ok: "state_ok st" "ctx_ok st c" "ob_inv b" "frame_ok st f"
  shows "\<exists>r p q c' f' b' st'. parse_source flags c f b st = Some (r, p, q, c', f', b', st') \<and> part_ok st c r c' f' b' st' \<and>
    (r = 0 \<longrightarrow> p \<longrightarrow> frame_source f' = None \<longrightarrow> invalid_addresses c' = 1) \<and> (q \<longrightarrow> p)"
proof (cases "flags AND PAYLOAD_FLAG_SENDER_SAME \<noteq> 0")
  case True
  define C where "C = (if ctx_sender c = None then c\<lparr>invalid_addresses := 1\<rparr> else c)"
  have "parse_source flags c f b st = Some (0, True, True, C, f\<lparr>frame_source := ctx_sender c\<rparr>, b, st)" using True by (simp add: parse_source_def C_def)
  moreover have "ctx_ok st C" "ctx_header C = ctx_header c" "invalid_addresses C \<in> {invalid_addresses c, 1}" "ctx_sender c = None \<longrightarrow> invalid_addresses C = 1"
    using ok(2) by (simp_all add: C_def ctx_ok_def explain_ok_def valid_ptr_def)
  moreover have "frame_ok st (f\<lparr>frame_source := ctx_sender c\<rparr>)" using ok(2,4) by (simp add: frame_ok_def ctx_ok_def)
  ultimately show ?thesis using ok(1,3) by (simp add: part_ok_def grows_refl) blast
next
  case False
  obtain r x c' b' st' where a: "overlay_address_parse (Some c) b st = Some (r, x, Some c', b', st')" "r = 0 \<or> r = -1" "state_ok st'" "grows st st'" "links st' = links st"
    "ctx_ok st' c'" "ctx_header c' = ctx_header c" "invalid_addresses c' \<in> {invalid_addresses c, 1}" "ob_inv b'"
    "\<And>p. x = Some p \<Longrightarrow> valid_ptr st' p" by (rule address_part[OF ok(1-3)]) blast
  define F where "F = (case x of None \<Rightarrow> f | Some p \<Rightarrow> f\<lparr>frame_source := p\<rparr>)"
  have f: "frame_ok st' F" using grows_frame[OF a(4) ok(4)] a(10) by (cases x) (simp_all add: F_def frame_ok_def)
  obtain s where s: "is_self st' (frame_source F) = Some s" using is_self_total f by (auto simp: frame_ok_def)
  have e: "parse_source flags c f b st = (if r < 0 then Some (-1, False, False, c', F, b', st')
      else Some (0, frame_source F \<noteq> None \<and> \<not> s, frame_source F \<noteq> None \<and> \<not> s, c', F, b', st'))"
    using False a(1) s by (simp add: parse_source_def Let_def F_def)
  have "part_ok st c r c' F b' st'" using a(2-9) f by (simp add: part_ok_def)
  then show ?thesis using a(2) e by (cases "r < 0") auto
qed

lemma drop_check_ok:
  assumes "length (bpilist st) = MAX_BPIS"
  shows "\<exists>r l. overlay_broadcast_drop_check st a = Some (r, st\<lparr>bpilist := l\<rparr>) \<and> length l = MAX_BPIS"
proof -
  have "0 \<le> bpi_hash a" "bpi_hash a < int (length (bpilist st))" using bpi_hash_range[of a] assms by simp_all
  then have "overlay_broadcast_drop_check st a = (if bpilist st ! nat (bpi_hash a) \<noteq> a then Some (0, st\<lparr>bpilist := (bpilist st)[nat (bpi_hash a) := a]\<rparr>)
      else Some (1, st\<lparr>bpilist := bpilist st\<rparr>))"
    by (simp add: overlay_broadcast_drop_check_def c_get_def c_put_def Let_def)
  then show ?thesis using assms by (metis length_list_update)
qed

lemma should_forward_ok: "\<exists>r n. link_state_should_forward_broadcast x st = Some (r, st\<lparr>readings := n\<rparr>)"
proof (cases "neighbour_loop x (neighbours (links st))")
  case None
  then show ?thesis by (auto simp: link_state_should_forward_broadcast_def get_neighbour_def intro: exI[of _ "readings st"])
next
  case (Some i)
  then show ?thesis using neighbour_loop_Some[OF Some] by (auto simp: link_state_should_forward_broadcast_def get_neighbour_def c_get_def gettime_ms_def)
qed

lemma parse_to_broadcast_safe:
  assumes ok: "state_ok st" "ctx_ok st c" "ob_inv b" "frame_ok st f"
  shows "\<exists>r p q c' f' b' st'. parse_to_broadcast flags c f b st = Some (r, p, q, c', f', b', st') \<and> part_ok st c r c' f' b' st' \<and> frame_source f' = frame_source f"
proof (cases "flags AND PAYLOAD_FLAG_ONE_HOP = 0")
  case False
  then show ?thesis using ok by (auto simp: parse_to_broadcast_def part_ok_def grows_refl frame_ok_def valid_ptr_def)
next
  case True
  obtain r v b' where g: "overlay_broadcast_parse b = Some ((r, v), b')" "ob_inv b'" using ob_get_bytes_total[OF ok(3), of BROADCAST_LEN] by (auto simp: overlay_broadcast_parse_def)
  obtain s l where d: "overlay_broadcast_drop_check st v = Some (s, st\<lparr>bpilist := l\<rparr>)" "length l = MAX_BPIS" using drop_check_ok[of st v] ok(1) by (auto simp: state_ok_def)
  obtain w n where w: "link_state_should_forward_broadcast (ctx_sender c) (st\<lparr>bpilist := l\<rparr>) = Some (w, st\<lparr>bpilist := l\<rparr>\<lparr>readings := n\<rparr>)" using should_forward_ok by blast
  let ?st = "st\<lparr>bpilist := l\<rparr>\<lparr>readings := n\<rparr>"
  have gr: "grows st ?st" by (simp add: grows_def)
  have "state_ok ?st" using ok(1) d(2) by (simp add: state_ok_def valid_ptr_def)
  moreover have "ctx_ok ?st c" "frame_ok ?st f" by (rule grows_ctx[OF gr ok(2)], rule grows_frame[OF gr ok(4)])
  ultimately show ?thesis using True g d w ok gr
    by (cases "r = 0") (auto simp: parse_to_broadcast_def part_ok_def grows_refl frame_ok_def valid_ptr_def simp del: length_map)
qed

lemma parse_to_subscriber_safe:
  assumes ok: "state_ok st" "ctx_ok st c" "ob_inv b" "frame_ok st f"
  shows "\<exists>r p q c' f' b' st'. parse_to_subscriber flags c f b st = Some (r, p, q, c', f', b', st') \<and> part_ok st c r c' f' b' st' \<and> frame_source f' = frame_source f"
proof -
  obtain r x c1 b1 s1 where a: "overlay_address_parse (Some c) b st = Some (r, x, Some c1, b1, s1)" "r = 0 \<or> r = -1" "state_ok s1" "grows st s1" "links s1 = links st"
    "ctx_ok s1 c1" "ctx_header c1 = ctx_header c" "invalid_addresses c1 \<in> {invalid_addresses c, 1}" "ob_inv b1"
    "\<And>p. x = Some p \<Longrightarrow> valid_ptr s1 p" by (rule address_part[OF ok(1-3)]) blast
  define F where "F = (case x of None \<Rightarrow> f | Some p \<Rightarrow> f\<lparr>frame_destination := p\<rparr>)"
  have f: "frame_ok s1 F" "frame_source F = frame_source f" using grows_frame[OF a(4) ok(4)] a(10) by (cases x; simp add: F_def frame_ok_def)+
  obtain s where s: "is_self s1 (frame_destination F) = Some s" using is_self_total f by (auto simp: frame_ok_def)
  show ?thesis
  proof (cases "r < 0 \<or> flags AND PAYLOAD_FLAG_ONE_HOP \<noteq> 0")
    case True
    have "parse_to_subscriber flags c f b st = (if r < 0 then Some (-1, False, False, c1, F, b1, s1) else Some (0, s, True, c1, F, b1, s1))"
      using True a(1) s by (auto simp: parse_to_subscriber_def Let_def F_def)
    moreover have "part_ok st c r c1 F b1 s1" using a(2-9) f by (simp add: part_ok_def)
    ultimately show ?thesis using f(2) a(2) by (cases "r < 0") auto
  next
    case False
    obtain r2 x2 c2 b2 s2 where e: "overlay_address_parse (Some c1) b1 s1 = Some (r2, x2, Some c2, b2, s2)" "r2 = 0 \<or> r2 = -1" "state_ok s2" "grows s1 s2" "links s2 = links s1"
      "ctx_ok s2 c2" "ctx_header c2 = ctx_header c1" "invalid_addresses c2 \<in> {invalid_addresses c1, 1}" "ob_inv b2"
      "\<And>p. x2 = Some p \<Longrightarrow> valid_ptr s2 p" by (rule address_part[OF a(3,6,9)]) blast
    have "valid_ptr s2 (case x2 of None \<Rightarrow> None | Some p \<Rightarrow> p)" using e(10) by (cases x2) (simp_all add: valid_ptr_def)
    then obtain t where t: "is_self s2 (case x2 of None \<Rightarrow> None | Some p \<Rightarrow> p) = Some t" using is_self_total by blast
    have "parse_to_subscriber flags c f b st = (if r2 < 0 then Some (-1, False, False, c2, F, b2, s2) else Some (0, s, t, c2, F, b2, s2))"
      using False a(1) e(1) s t by (simp add: parse_to_subscriber_def Let_def F_def)
    moreover have "part_ok st c r2 c2 F b2 s2"
      using e a(4,5,7,8) grows_trans[OF a(4) e(4)] grows_frame[OF e(4) f(1)] by (auto simp: part_ok_def)
    ultimately show ?thesis using f(2) e(2) by (cases "r2 < 0") auto
  qed
qed


lemma part_ok_trans: "part_ok st c r c1 f1 b1 s1 \<Longrightarrow> part_ok s1 c1 r2 c2 f2 b2 s2 \<Longrightarrow> part_ok st c r2 c2 f2 b2 s2"
  unfolding part_ok_def using grows_trans[of st s1 s2] by auto

lemma parse_endpoints_safe:
  assumes ok: "state_ok st" "ctx_ok st c" "ob_inv b" "frame_ok st f"
  shows "\<exists>r p q c' f' b' st'. parse_endpoints flags c f b st = Some (r, p, q, c', f', b', st') \<and> part_ok st c r c' f' b' st' \<and>
    (r = 0 \<longrightarrow> p \<or> q \<longrightarrow> frame_source f' = None \<longrightarrow> invalid_addresses c' = 1)"
proof -
  obtain r1 p1 q1 c1 f1 b1 s1 where a: "parse_source flags c f b st = Some (r1, p1, q1, c1, f1, b1, s1)" "part_ok st c r1 c1 f1 b1 s1"
    "r1 = 0 \<longrightarrow> p1 \<longrightarrow> frame_source f1 = None \<longrightarrow> invalid_addresses c1 = 1" "q1 \<longrightarrow> p1"
    using parse_source_safe[OF ok, of flags] by (elim exE conjE)
  have 1: "state_ok s1" "ctx_ok s1 c1" "ob_inv b1" "frame_ok s1 f1" "r1 = 0 \<or> r1 = -1" using a(2) by (simp_all add: part_ok_def)
  show ?thesis
  proof (cases "r1 < 0")
    case True
    then have "part_ok st c (-1) c1 f1 b1 s1" using a(2) 1(5) by simp
    then show ?thesis using True a(1) by (auto simp: parse_endpoints_def)
  next
    case False
    obtain r2 p2 q2 c2 f2 b2 s2 where e: "(if flags AND PAYLOAD_FLAG_TO_BROADCAST \<noteq> 0 then parse_to_broadcast flags c1 f1 b1 s1 else parse_to_subscriber flags c1 f1 b1 s1) =
        Some (r2, p2, q2, c2, f2, b2, s2)" "part_ok s1 c1 r2 c2 f2 b2 s2" "frame_source f2 = frame_source f1"
    proof (cases "flags AND PAYLOAD_FLAG_TO_BROADCAST \<noteq> 0")
      case True
      obtain r2 p2 q2 c2 f2 b2 s2 where "parse_to_broadcast flags c1 f1 b1 s1 = Some (r2, p2, q2, c2, f2, b2, s2)" "part_ok s1 c1 r2 c2 f2 b2 s2"
        "frame_source f2 = frame_source f1" using parse_to_broadcast_safe[OF 1(1-4), of flags] by (elim exE conjE)
      then show thesis using that[of r2 p2 q2 c2 f2 b2 s2] True by simp
    next
      case False
      obtain r2 p2 q2 c2 f2 b2 s2 where "parse_to_subscriber flags c1 f1 b1 s1 = Some (r2, p2, q2, c2, f2, b2, s2)" "part_ok s1 c1 r2 c2 f2 b2 s2"
        "frame_source f2 = frame_source f1" using parse_to_subscriber_safe[OF 1(1-4), of flags] by (elim exE conjE)
      then show thesis using that[of r2 p2 q2 c2 f2 b2 s2] False by simp
    qed
    have x: "parse_endpoints flags c f b st = Some (r2, p1 \<and> p2, q1 \<and> q2, c2, f2, b2, s2)" using False a(1) e(1) by (simp add: parse_endpoints_def)
    have i: "invalid_addresses c2 \<in> {invalid_addresses c1, 1}" using e(2) by (simp add: part_ok_def)
    have "(p1 \<and> p2) \<or> (q1 \<and> q2) \<longrightarrow> frame_source f2 = None \<longrightarrow> invalid_addresses c2 = 1" using a(3,4) 1(5) False e(3) i by auto
    then show ?thesis using x part_ok_trans[OF a(2) e(2)]
      by (intro exI[of _ r2] exI[of _ "p1 \<and> p2"] exI[of _ "q1 \<and> q2"] exI[of _ c2] exI[of _ f2] exI[of _ b2] exI[of _ s2]) simp
  qed
qed

lemma later_unread: "later b b' \<Longrightarrow> set (ob_unread b') \<subseteq> set (ob_unread b)"
proof -
  assume "later b b'"
  then obtain n where n: "0 \<le> n" "b' = b\<lparr>position := position b + n\<rparr>" by (auto simp: later_def)
  have "ob_unread b' = drop (nat (position b + n)) (take (nat (if sizeLimit b \<ge> 0 then min (sizeLimit b) (allocSize b) else allocSize b)) (ob_mem b))"
    using n(2) by (simp add: ob_unread_def ob_mem_def)
  moreover have "set (drop (nat (position b + n)) xs) \<subseteq> set (drop (nat (position b)) xs)" for xs :: "byte list"
    by (rule set_drop_subset_set_drop) (use n(1) in simp)
  ultimately show ?thesis unfolding ob_unread_def[of b] by metis
qed

lemma ob_get_byte:
  assumes "ob_inv b"
  shows "(\<exists>v b'. ob_get b = Some (uint v, b') \<and> ob_inv b' \<and> v \<in> set (ob_unread b)) \<or> ob_get b = Some (-1, b)"
proof (cases "ob_unread b")
  case Nil
  then show ?thesis using test_offset_unread[OF assms, of 1] by (simp add: ob_get_def)
next
  case (Cons v vs)
  then show ?thesis using ob_read_byte[OF assms Cons] by auto
qed

lemma parse_ttl_safe:
  assumes "ob_inv b" "frame_ok st f"
  shows "\<exists>r f' b'. parse_ttl flags f b = Some (r, f', b') \<and> (r = 0 \<or> r = -1) \<and> ob_inv b' \<and> frame_ok st f' \<and> frame_source f' = frame_source f \<and>
    (r = 0 \<longrightarrow> 0 \<le> frame_ttl f' \<and> frame_ttl f' \<le> 30)"
proof (cases "flags AND PAYLOAD_FLAG_ONE_HOP \<noteq> 0")
  case True
  then show ?thesis using assms by (simp add: parse_ttl_def frame_ok_def)
next
  case False
  have r: "0 \<le> x AND 0x1F" "x AND 0x1F \<le> 31" for x :: int using and_mask_mod[of x 5] pos_mod_bound[of 32 x] by simp_all
  from ob_get_byte[OF assms(1)] show ?thesis
  proof
    assume "\<exists>v b'. ob_get b = Some (uint v, b') \<and> ob_inv b' \<and> v \<in> set (ob_unread b)"
    then obtain v :: byte and b' where "ob_get b = Some (uint v, b')" "ob_inv b'" by blast
    moreover have "uint v AND 0x1F \<noteq> 0 \<Longrightarrow> 0 < uint v AND 0x1F" using r(1)[of "uint v"] by linarith
    ultimately show ?thesis using False assms(2) r(2)[of "uint v"] by (auto simp: parse_ttl_def Let_def frame_ok_def)
  next
    assume "ob_get b = Some (-1, b)"
    then show ?thesis using False assms by (simp add: parse_ttl_def)
  qed
qed

lemma parse_type_safe:
  assumes "ob_inv b" "frame_ok st f"
  shows "\<exists>r f' b'. parse_type flags f b = Some (r, f', b') \<and> (r = 0 \<or> r = -1) \<and> ob_inv b' \<and> frame_ok st f' \<and> frame_source f' = frame_source f \<and> frame_ttl f' = frame_ttl f"
  using ob_get_total[OF assms(1)] assms by (auto simp: parse_type_def frame_ok_def)

text \<open>The one possible fault: the sequence number of the header is outside the window of the sender.\<close>

definition seq_fault :: "decode_context \<Rightarrow> overlay_buffer \<Rightarrow> overlay_state \<Rightarrow> bool" where
  "seq_fault c b st \<longleftrightarrow> ctx_packet_version c \<ge> 1 \<and> (\<exists>i v. neighbour_loop (ctx_sender c) (neighbours (links st)) = Some i \<and> v \<in> set (ob_unread b) \<and>
     received_sequence (neighbours (links st) ! i) (uint v) = None)"

lemma received_duplicate_safe:
  "(\<exists>r t. received_duplicate x q st = Some (r, st\<lparr>links := t\<rparr>) \<and> length (neighbours t) = length (neighbours (links st))) \<or>
   (\<exists>i. neighbour_loop x (neighbours (links st)) = Some i \<and> received_sequence (neighbours (links st) ! i) q = None)"
proof (cases "neighbour_loop x (neighbours (links st))")
  case None
  then show ?thesis by (auto simp: received_duplicate_def link_received_duplicate_def get_neighbour_def intro!: exI[of _ "links st"])
next
  case (Some i)
  show ?thesis
  proof (cases "received_sequence (neighbours (links st) ! i) q")
    case None
    then show ?thesis using Some by blast
  next
    case (Some x)
    then have "received_duplicate y q st = Some (fst x, st\<lparr>links := (links st)\<lparr>neighbours := (neighbours (links st))[i := snd x]\<rparr>\<rparr>)"
      if "neighbour_loop y (neighbours (links st)) = Some i" for y
      using link_received_duplicate_known[OF that] by (simp add: received_duplicate_def split_def)
    moreover have "length (neighbours ((links st)\<lparr>neighbours := (neighbours (links st))[i := snd x]\<rparr>)) = length (neighbours (links st))" by simp
    ultimately show ?thesis using \<open>neighbour_loop _ _ = Some i\<close> by blast
  qed
qed

lemma parse_seq_safe:
  assumes "ob_inv b"
  shows "(\<exists>r d b' t. parse_seq flags c b st = Some (r, d, b', st\<lparr>links := t\<rparr>) \<and> (r = 0 \<or> r = -1) \<and> ob_inv b' \<and> length (neighbours t) = length (neighbours (links st))) \<or>
    parse_seq flags c b st = None \<and> seq_fault c b st"
proof (cases "ctx_packet_version c \<ge> 1")
  case False
  then show ?thesis using assms by (auto simp: parse_seq_def intro!: exI[of _ "links st"])
next
  case v: True
  from ob_get_byte[OF assms] show ?thesis
  proof
    assume "ob_get b = Some (-1, b)"
    then show ?thesis using v assms by (auto simp: parse_seq_def intro!: exI[of _ "links st"])
  next
    assume "\<exists>v b'. ob_get b = Some (uint v, b') \<and> ob_inv b' \<and> v \<in> set (ob_unread b)"
    then obtain w b' where w: "ob_get b = Some (uint w, b')" "ob_inv b'" "w \<in> set (ob_unread b)" by blast
    have n: "uint w \<noteq> -1" using uint_nonnegative[of w] by linarith
    show ?thesis
    proof (cases "flags AND PAYLOAD_FLAG_ONE_HOP \<noteq> 0 \<or> flags AND PAYLOAD_FLAG_TO_BROADCAST = 0")
      case False
      then have "parse_seq flags c b st = Some (0, False, b', st\<lparr>links := links st\<rparr>)" using v w(1) n by (simp add: parse_seq_def)
      then show ?thesis using w(2) by blast
    next
      case True
      then have e: "parse_seq flags c b st = Option.bind (received_duplicate (ctx_sender c) (uint w) st) (\<lambda>(r, st). Some (0, r \<noteq> 0, b', st))"
        using v w(1) n by (auto simp: parse_seq_def)
      from received_duplicate_safe[of "ctx_sender c" "uint w" st] show ?thesis
      proof
        assume "\<exists>r t. received_duplicate (ctx_sender c) (uint w) st = Some (r, st\<lparr>links := t\<rparr>) \<and> length (neighbours t) = length (neighbours (links st))"
        then show ?thesis using e w(2) by auto
      next
        assume a: "\<exists>i. neighbour_loop (ctx_sender c) (neighbours (links st)) = Some i \<and> received_sequence (neighbours (links st) ! i) (uint w) = None"
        then have "received_duplicate (ctx_sender c) (uint w) st = None" by (auto simp: received_duplicate_def link_received_duplicate_known)
        then show ?thesis using e a v w(3) by (auto simp: seq_fault_def)
      qed
    qed
  qed
qed

lemma parse_fields_safe:
  assumes "ob_inv b" "frame_ok st f"
  shows "(\<exists>r d f' b' t. parse_fields flags c f b st = Some (r, d, f', b', st\<lparr>links := t\<rparr>) \<and> (r = 0 \<or> r = -1) \<and> ob_inv b' \<and> frame_ok st f' \<and>
      frame_source f' = frame_source f \<and> length (neighbours t) = length (neighbours (links st)) \<and> (r = 0 \<longrightarrow> 0 \<le> frame_ttl f' \<and> frame_ttl f' \<le> 30)) \<or>
    parse_fields flags c f b st = None \<and> seq_fault c b st"
proof -
  obtain r1 f1 b1 where 1: "parse_ttl flags f b = Some (r1, f1, b1)" "r1 = 0 \<or> r1 = -1" "ob_inv b1" "frame_ok st f1" "frame_source f1 = frame_source f"
    "r1 = 0 \<longrightarrow> 0 \<le> frame_ttl f1 \<and> frame_ttl f1 \<le> 30" using parse_ttl_safe[OF assms] by blast
  obtain r2 f2 b2 where 2: "parse_type flags f1 b1 = Some (r2, f2, b2)" "r2 = 0 \<or> r2 = -1" "ob_inv b2" "frame_ok st f2" "frame_source f2 = frame_source f1"
    "frame_ttl f2 = frame_ttl f1" using parse_type_safe[OF 1(3,4)] by blast
  have st: "st\<lparr>links := links st\<rparr> = st" by simp
  consider (ttl) "r1 = -1" | (type) "r1 = 0" "r2 = -1" | (seq) "r1 = 0" "r2 = 0" using 1(2) 2(2) by blast
  then show ?thesis
  proof cases
    case ttl
    then have "parse_fields flags c f b st = Some (-1, False, f1, b1, st\<lparr>links := links st\<rparr>)" using 1(1) by (simp add: parse_fields_def)
    then show ?thesis using 1(3-5) by (auto intro!: exI[of _ "links st"])
  next
    case type
    then have "parse_fields flags c f b st = Some (-1, False, f2, b2, st\<lparr>links := links st\<rparr>)" using 1(1) 2(1) by (simp add: parse_fields_def)
    then show ?thesis using 1(5) 2(3-5) by (auto intro!: exI[of _ "links st"])
  next
    case seq
    then have e: "parse_fields flags c f b st = Option.bind (parse_seq flags c b2 st) (\<lambda>(r, d, b, st). Some (r, d, f2, b, st))"
      using 1(1) 2(1) by (simp add: parse_fields_def)
    have l: "set (ob_unread b2) \<subseteq> set (ob_unread b)"
      by (rule later_unread[OF later_trans[OF later_parts(3)[OF 1(1)] later_parts(4)[OF 2(1)]]])
    from parse_seq_safe[OF 2(3), of flags c st] show ?thesis
    proof
      assume "\<exists>r d b' t. parse_seq flags c b2 st = Some (r, d, b', st\<lparr>links := t\<rparr>) \<and> (r = 0 \<or> r = -1) \<and> ob_inv b' \<and> length (neighbours t) = length (neighbours (links st))"
      then obtain r d b' t where "parse_seq flags c b2 st = Some (r, d, b', st\<lparr>links := t\<rparr>)" "r = 0 \<or> r = -1" "ob_inv b'"
        "length (neighbours t) = length (neighbours (links st))" by (elim exE conjE)
      then show ?thesis using e 1(5,6) 2(4-6) seq by (auto intro!: exI[of _ t])
    next
      assume "parse_seq flags c b2 st = None \<and> seq_fault c b2 st"
      then show ?thesis using e l by (auto simp: seq_fault_def)
    qed
  qed
qed

lemma header_total:
  assumes ok: "state_ok st" "ctx_ok st c" "ob_inv b" "frame_ok st f"
  shows "(\<exists>r c' f' b' st'. parseMdpPacketHeader c f b st = Some (r, c', f', b', st') \<and> r \<in> {-1, 0, HEADER_PROCESS, HEADER_FORWARD, HEADER_PROCESS OR HEADER_FORWARD} \<and>
      state_ok st' \<and> grows st st' \<and> ctx_ok st' c' \<and> ob_inv b' \<and> frame_ok st' f' \<and>
      (r > 0 \<longrightarrow> frame_source f' \<noteq> None \<and> invalid_addresses c' = 0) \<and> (r \<ge> HEADER_FORWARD \<longrightarrow> 0 < frame_ttl f' \<and> frame_ttl f' \<le> 30) \<and>
      ctx_header c' = ctx_header c \<and> length (neighbours (links st')) = length (neighbours (links st))) \<or>
    parseMdpPacketHeader c f b st = None \<and> seq_fault c b st"
proof -
  obtain flags b1 where g: "ob_get b = Some (flags, b1)" "ob_inv b1" using ob_get_total[OF ok(3)] by blast
  show ?thesis
  proof (cases "flags < 0")
    case True
    then show ?thesis using g ok by (simp add: parseMdpPacketHeader_def grows_refl)
  next
    case False
    obtain r2 p q c2 f2 b2 s2 where e: "parse_endpoints flags c f b1 st = Some (r2, p, q, c2, f2, b2, s2)" "part_ok st c r2 c2 f2 b2 s2"
      "r2 = 0 \<longrightarrow> p \<or> q \<longrightarrow> frame_source f2 = None \<longrightarrow> invalid_addresses c2 = 1"
      using parse_endpoints_safe[OF ok(1,2) g(2) ok(4), of flags] by (elim exE conjE)
    have 2: "r2 = 0 \<or> r2 = -1" "state_ok s2" "grows st s2" "links s2 = links st" "ctx_ok s2 c2" "ctx_header c2 = ctx_header c" "ob_inv b2" "frame_ok s2 f2"
      using e(2) by (simp_all add: part_ok_def)
    show ?thesis
    proof (cases "r2 < 0")
      case True
      then show ?thesis using False g(1) e(1) 2 by (simp add: parseMdpPacketHeader_def)
    next
      case r2: False
      have l: "set (ob_unread b2) \<subseteq> set (ob_unread b)" by (rule later_unread[OF later_trans[OF later_get[OF g(1)] later_endpoints[OF e(1)]]])
      have h: "parseMdpPacketHeader c f b st = Option.bind (parse_fields flags c2 f2 b2 s2) (\<lambda>(r, d, f', b', st').
          if r < 0 then Some (-1, c2, f', b', st') else Some ((if q \<and> frame_ttl f' \<noteq> 0 \<and> \<not> d \<and> invalid_addresses c2 = 0 then HEADER_FORWARD else 0) OR
            (if p \<and> \<not> d \<and> invalid_addresses c2 = 0 then HEADER_PROCESS else 0), c2,
            f'\<lparr>frame_modifiers := flags, frame_packet_version := ctx_packet_version c2\<rparr>, b', st'))"
        using False g(1) e(1) r2 by (simp add: parseMdpPacketHeader_def Let_def cong: if_cong)
      note fields = parse_fields_safe[OF 2(7,8), of flags c2]
      show ?thesis
      proof (cases "parse_fields flags c2 f2 b2 s2")
        case None
        then have "seq_fault c2 b2 s2" using fields by simp
        then have "seq_fault c b st" using l 2(4,6) by (auto simp: seq_fault_def ctx_header_def)
        moreover have "parseMdpPacketHeader c f b st = None" unfolding h None by simp
        ultimately show ?thesis by simp
      next
        case (Some y)
        obtain r d f' b' t where f: "parse_fields flags c2 f2 b2 s2 = Some (r, d, f', b', s2\<lparr>links := t\<rparr>)" "r = 0 \<or> r = -1" "ob_inv b'" "frame_ok s2 f'" "frame_source f' = frame_source f2"
          "length (neighbours t) = length (neighbours (links s2))" "r = 0 \<longrightarrow> 0 \<le> frame_ttl f' \<and> frame_ttl f' \<le> 30"
          by (rule disjE[OF fields], (elim exE conjE, rule that, assumption+), simp add: Some)
        let ?s = "s2\<lparr>links := t\<rparr>" and ?F = "f'\<lparr>frame_modifiers := flags, frame_packet_version := ctx_packet_version c2\<rparr>"
        have gs: "grows s2 ?s" by (simp add: grows_table)
        have s: "state_ok ?s" "grows st ?s" "ctx_ok ?s c2" "frame_ok ?s f'" "frame_ok ?s ?F"
          using 2(2) grows_trans[OF 2(3) gs] grows_ctx[OF gs 2(5)] grows_frame[OF gs f(4)] by (simp_all add: state_ok_def valid_ptr_def frame_ok_def)
        define code where "code = (if q \<and> frame_ttl f' \<noteq> 0 \<and> \<not> d \<and> invalid_addresses c2 = 0 then HEADER_FORWARD else 0) OR
            (if p \<and> \<not> d \<and> invalid_addresses c2 = 0 then HEADER_PROCESS else 0)"
        have c: "code \<in> {0, 1, 2, 3}" "code > 0 \<longrightarrow> (p \<or> q) \<and> invalid_addresses c2 = 0" "code \<ge> 2 \<longrightarrow> frame_ttl f' \<noteq> 0" by (auto simp: code_def)
        show ?thesis
        proof (cases "r < 0")
          case True
          then have "parseMdpPacketHeader c f b st = Some (-1, c2, f', b', ?s)" using h f(1) by simp
          then show ?thesis using s f(3,6) 2(4,6) by simp
        next
          case False
          then have x: "parseMdpPacketHeader c f b st = Some (code, c2, ?F, b', ?s)" using h f(1) by (simp add: code_def)
          have "code > 0 \<longrightarrow> frame_source ?F \<noteq> None \<and> invalid_addresses c2 = 0" using c(2) e(3) 2(1) r2 f(5) by auto
          moreover have "code \<ge> HEADER_FORWARD \<longrightarrow> 0 < frame_ttl ?F \<and> frame_ttl ?F \<le> 30" using c(3) f(2,7) False by auto
          moreover have "code \<in> {-1, 0, HEADER_PROCESS, HEADER_FORWARD, HEADER_PROCESS OR HEADER_FORWARD}" using c(1) by auto
          ultimately show ?thesis using x s f(3,6) 2(4,6) by (intro disjI1 exI[of _ code] exI[of _ c2] exI[of _ ?F] exI[of _ b'] exI[of _ ?s]) simp
        qed
      qed
    qed
  qed
qed

text \<open>C7. Parsing a frame header from arbitrary bytes returns -1 or a combination of the two
  decisions, keeps the state, the context and the frame well-formed and adds nothing but the
  addresses it read. A frame is handed on only if its source is known and all its addresses
  are valid, and forwarded only with 1 to 30 hops left. The only possible fault is a shift in the
  duplicate check, for a byte of the packet that is outside the window of a known neighbour.\<close>

theorem parseMdpPacketHeader_safe:
  assumes ok: "state_ok st" "ctx_ok st c" "ob_inv b" "frame_ok st f"
  shows "(\<exists>r c' f' b' st'. parseMdpPacketHeader c f b st = Some (r, c', f', b', st') \<and> r \<in> {-1, 0, HEADER_PROCESS, HEADER_FORWARD, HEADER_PROCESS OR HEADER_FORWARD} \<and>
      state_ok st' \<and> grows st st' \<and> ctx_ok st' c' \<and> ob_inv b' \<and> frame_ok st' f' \<and>
      (r > 0 \<longrightarrow> frame_source f' \<noteq> None \<and> invalid_addresses c' = 0) \<and> (r \<ge> HEADER_FORWARD \<longrightarrow> 0 < frame_ttl f' \<and> frame_ttl f' \<le> 30)) \<or>
    parseMdpPacketHeader c f b st = None \<and> seq_fault c b st"
  by (rule disjE[OF header_total[OF ok]]; (elim exE conjE, intro disjI1 exI conjI, assumption+)?; (rule disjI2, assumption)?)

lemma example_state_state_ok: "state_ok example_state"
  using example_state_ok(1,2) by (simp add: state_ok_def valid_ptr_def example_state_def cleared_bpilist_def del: length_map)

theorem parseMdpPacketHeader_safe_witness:
  "\<exists>r c' f' b' st'. parseMdpPacketHeader overlay_context empty_frame (example_bytes [0x08, 0x20, 0x01, 7, 0x25]) example_state = Some (r, c', f', b', st') \<and>
     r \<in> {-1, 0, HEADER_PROCESS, HEADER_FORWARD, HEADER_PROCESS OR HEADER_FORWARD} \<and> state_ok st' \<and> ctx_ok st' c' \<and> ob_inv b' \<and> frame_ok st' f'"
proof -
  have "ctx_ok example_state overlay_context" using empty_context_ok[of example_state] by (simp add: overlay_context_def ctx_ok_def explain_ok_def)
  moreover have "frame_ok example_state empty_frame" by (simp add: frame_ok_def empty_frame_def valid_ptr_def)
  moreover have "\<not> seq_fault overlay_context b st" for b st by (simp add: seq_fault_def overlay_context_def empty_context_def)
  ultimately show ?thesis
    using parseMdpPacketHeader_safe[OF example_state_state_ok _ example_bytes_ok(1), of overlay_context empty_frame "[0x08, 0x20, 0x01, 7, 0x25]"] by blast
qed

end
