(* ===== verification/Overlay_Packet_Total.thy ===== *)
theory Overlay_Packet_Total
  imports Overlay_Packet_Safe
begin

text \<open>The whole path of a received packet: the envelope with its sender, the loop over the frames,
  forwarding, processing, and the request for explanations at the end. For each part a lemma says
  that it returns, what it returns and that it keeps the state well-formed; the
  last theorem puts them together.\<close>

subsection \<open>Reading any packet\<close>

text \<open>The services a packet is handed to may change the state, but they keep it well-formed and
  forget no subscriber.\<close>

definition keeps :: "(overlay_state \<Rightarrow> overlay_state) \<Rightarrow> bool" where
  "keeps g \<longleftrightarrow> (\<forall>st. state_ok st \<longrightarrow> state_ok (g st) \<and> grows st (g st))"

definition daemon_ok :: "daemon \<Rightarrow> bool" where
  "daemon_ok env \<longleftrightarrow> (\<forall>f now. keeps (legacy_ack env f now)) \<and> (\<forall>i f now. keeps (saw_advertisements env i f now)) \<and>
     (\<forall>f now. keeps (saw_mdp_frame env f now)) \<and> (\<forall>p a i q. keeps (send_probe env p a i q)) \<and>
     (\<forall>p i j s u. keeps (received_packet env p i j s u)) \<and> (\<forall>p x y. keeps (reachable_changed env p x y))"

lemma keepsD: "keeps g \<Longrightarrow> state_ok st \<Longrightarrow> state_ok (g st) \<and> grows st (g st)"
  by (simp add: keeps_def)

lemma slice_limited:
  assumes "ob_inv b" "0 \<le> n" "ob_slice b (position b) n = Some (Some p)"
  shows "ob_inv (snd (ob_limitsize p n))" "position (snd (ob_limitsize p n)) = 0" "checkpointLength (snd (ob_limitsize p n)) = 0"
    "sizeLimit (snd (ob_limitsize p n)) = n" "allocSize (snd (ob_limitsize p n)) = n"
  using assms by (auto simp: ob_slice_def ob_limitsize_def ob_unlimitsize_def ob_calloc_def ob_inv_def ob_mem_def split: if_splits option.splits)

lemma forward_total:
  assumes "frame_payload f = Some p" "ob_inv p" "position p = 0" "checkpointLength p = 0" "0 \<le> sizeLimit p" "sizeLimit p \<le> allocSize p"
  shows "\<exists>r q. overlay_forward_payload enq f = Some (r, q) \<and> (\<forall>x. q = Some x \<longrightarrow> frame_ttl x = frame_ttl f)"
proof -
  obtain c where c: "ob_dup p = Some c" using ob_dup_payload[OF assms(2-6)] by blast
  then show ?thesis using assms(1) by (auto simp: overlay_forward_payload_def op_dup_def)
qed

lemma process_total:
  assumes env: "daemon_ok env" and ok: "state_ok st" "frame_ok st f"
    and p: "frame_payload f = Some p" "ob_inv p" "0 \<le> sizeLimit p" "sizeLimit p \<le> allocSize p"
  shows "\<exists>es st'. process_incoming_frame env now interface f k st = Some (es, st') \<and> state_ok st' \<and> grows st st' \<and> (\<forall>q. Forwarded q \<notin> set es)"
proof (cases "frame_type f = OF_TYPE_PLEASEEXPLAIN")
  case True
  obtain r reply st' new where x: "process_explain (payload_enqueue env) (random_id env k) f st = Some (r, reply, st')" "table_ok (sub_table st')" "sids st' = sids st @ new" "others st' = others st"
    using process_explain_total[of st f p "payload_enqueue env" "random_id env k"] ok p by (auto simp: state_ok_def frame_ok_def simp del: map_append)
  have g: "grows st st'" using x(3) unfolding grows_def by blast
  have o: "my_subscriber st' = my_subscriber st" "bpilist st' = bpilist st" "links st' = links st" using x(4) by (simp_all add: others_def)
  have "state_ok st'" using ok(1) x(2) grows_valid[OF g] o by (simp_all add: state_ok_def)
  then show ?thesis using x(1) g True by (auto simp: process_incoming_frame_def)
next
  case False
  have k: "keeps (legacy_ack env f now)" "keeps (saw_advertisements env (if_index interface) f now)" "keeps (saw_mdp_frame env f now)"
    using env by (simp_all add: daemon_ok_def)
  show ?thesis using False ok keepsD[OF k(1) ok(1)] keepsD[OF k(2) ok(1)] keepsD[OF k(3) ok(1)] by (auto simp: process_incoming_frame_def grows_refl)
qed

lemma ack_soon_total:
  assumes "state_ok st"
  shows "\<exists>st'. link_state_ack_soon x st = Some st' \<and> state_ok st' \<and> grows st st'"
proof (cases "neighbour_loop x (neighbours (links st))")
  case None
  then show ?thesis using assms by (simp add: link_state_ack_soon_def get_neighbour_def grows_refl)
next
  case (Some i)
  have i: "i < length (neighbours (links st))" using neighbour_loop_Some[OF Some] by simp
  obtain t n where "link_state_ack_soon x st = Some (st\<lparr>readings := n, links := t\<rparr>)"
    using Some i by (auto simp: link_state_ack_soon_def get_neighbour_def c_get_def gettime_ms_def Let_def)
  then show ?thesis using assms by (simp add: state_ok_def grows_def valid_ptr_def)
qed

lemma deliver_total:
  assumes env: "daemon_ok env" and ok: "state_ok st" "frame_ok st f" "ob_inv b" and n: "0 \<le> n"
  shows "\<exists>t es st'. deliver env now interface code n c f b k st = Some (t, es, st') \<and> state_ok st' \<and> grows st st' \<and>
    (\<forall>q. Forwarded q \<in> set es \<longrightarrow> code AND HEADER_FORWARD \<noteq> 0 \<and> frame_ttl q = frame_ttl f)"
proof -
  have "0 \<le> position b" using ok(3) by (simp add: ob_inv_def)
  then obtain s where s: "ob_slice b (position b) n = Some s" using ob_slice_inv[OF ok(3) _ n, of "position b"] by blast
  show ?thesis
  proof (cases s)
    case None
    then show ?thesis using s ok(1) by (auto simp: deliver_def grows_refl)
  next
    case (Some p)
    define q where "q = snd (ob_limitsize p n)"
    note sl = slice_limited[OF ok(3) n s[unfolded Some], folded q_def]
    let ?f = "f\<lparr>frame_payload := Some q\<rparr>"
    obtain r qf where fw: "(if code AND HEADER_FORWARD \<noteq> 0 then overlay_forward_payload (payload_enqueue env) ?f else Some (0, None)) = Some (r, qf)"
      "\<forall>x. qf = Some x \<longrightarrow> code AND HEADER_FORWARD \<noteq> 0 \<and> frame_ttl x = frame_ttl f"
      using forward_total[of ?f q "payload_enqueue env"] sl n by (cases "code AND HEADER_FORWARD \<noteq> 0") auto
    have fo: "frame_ok st ?f" using ok(2) by (simp add: frame_ok_def)
    obtain es s1 where pr: "(if code AND HEADER_PROCESS \<noteq> 0 then process_incoming_frame env now interface ?f k st else Some ([], st)) = Some (es, s1)"
      "state_ok s1" "grows st s1" "\<forall>q. Forwarded q \<notin> set es"
      using process_total[OF env ok(1) fo, of q now interface k] sl n ok(1) grows_refl by (cases "code AND HEADER_PROCESS \<noteq> 0") auto
    obtain s2 where ak: "(if frame_next_hop ?f = my_subscriber s1 \<or> frame_destination ?f = my_subscriber s1 then link_state_ack_soon (ctx_sender c) s1 else Some s1) = Some s2"
      "state_ok s2" "grows s1 s2" using ack_soon_total[OF pr(2), of "ctx_sender c"] pr(2) grows_refl[of s1]
      by (cases "frame_next_hop ?f = my_subscriber s1 \<or> frame_destination ?f = my_subscriber s1") auto
    have "deliver env now interface code n c f b k st = Some (True, (case qf of None \<Rightarrow> [] | Some x \<Rightarrow> [Forwarded x]) @ es, s2)"
      unfolding deliver_def s Some using fw(1) pr(1) ak(1) by (simp add: Let_def q_def cong: if_cong)
    then show ?thesis using ak(2) grows_trans[OF pr(3) ak(3)] fw(2) pr(4) by (auto split: option.splits)
  qed
qed

text \<open>Every frame that is queued has hops left, fewer than any frame can start with.\<close>

definition events_ok :: "event list \<Rightarrow> bool" where
  "events_ok es \<longleftrightarrow> (\<forall>q. Forwarded q \<in> set es \<longrightarrow> 0 < frame_ttl q \<and> frame_ttl q \<le> 30)"

lemma payload_length_total:
  assumes "ob_inv b" "0 \<le> sizeLimit b" "sizeLimit b \<le> allocSize b" "sizeLimit b < 2 ^ 31"
  shows "\<exists>ok n b'. payload_length c b = Some (ok, n, b') \<and> ob_inv b' \<and> (ok \<longrightarrow> 0 \<le> n \<and> position b' + n \<le> sizeLimit b')"
proof (cases "ctx_encapsulation c = ENCAP_SINGLE")
  case True
  have r: "0 \<le> ob_remaining b" "ob_remaining b < 2 ^ 32" using assms by (auto simp: ob_inv_def ob_remaining_def)
  then have "payload_length c b = Some (True, ob_remaining b, b)" using True by (simp add: payload_length_def)
  then show ?thesis using r(1) assms(1) by (auto simp: ob_remaining_def)
next
  case False
  obtain n b' where g: "ob_get_ui16 b = Some (n, b')" "ob_inv b'" using ob_get_ui_total(1)[OF assms(1)] by blast
  have l: "sizeLimit b' = sizeLimit b" using later_fields[OF later_get_ui16[OF g(1)]] by simp
  have r: "0 \<le> ob_remaining b'" "ob_remaining b' < 2 ^ 32" using g(2) l assms by (auto simp: ob_inv_def ob_remaining_def)
  have e: "payload_length c b = Some (\<not> uint n > ob_remaining b', uint n, b')" using False g(1) r by (simp add: payload_length_def)
  then show ?thesis using g(2) by (auto simp: ob_remaining_def)
qed

lemma header_codes: "r \<in> {-1, 0, HEADER_PROCESS, HEADER_FORWARD, HEADER_PROCESS OR HEADER_FORWARD} \<Longrightarrow> r AND HEADER_FORWARD \<noteq> 0 \<Longrightarrow> 0 \<le> r \<Longrightarrow> HEADER_FORWARD \<le> r"
  by auto

lemma delivered:
  assumes "daemon_ok env" "state_ok st" "frame_ok st f" "ob_inv b" "0 \<le> n"
  obtains t es st' where "(if r \<noteq> 0 then deliver env now interface r n c f b k st else Some (True, [], st)) = Some (t, es, st')" "state_ok st'" "grows st st'"
    "\<forall>q. Forwarded q \<in> set es \<longrightarrow> r AND HEADER_FORWARD \<noteq> 0 \<and> frame_ttl q = frame_ttl f"
proof (cases "r = 0")
  case True
  then show thesis using that[of True "[]" st] assms(2) grows_refl by simp
next
  case False
  from deliver_total[OF assms, of now interface r c k] show thesis
    by (elim exE conjE) (rule that, simp_all add: False)
qed

lemma packet_loop_total:
  assumes "daemon_ok env" "state_ok st" "ctx_ok st c" "ctx_packet_version c = v" "frame_ok st f" "ob_inv b"
    "0 \<le> sizeLimit b" "sizeLimit b \<le> allocSize b" "sizeLimit b < 2 ^ 31" "events_ok es"
  shows "(\<exists>r c' es' st'. packet_loop env now interface c f b es st = Some (r, c', es', st') \<and> (r = 0 \<or> r = -1) \<and> state_ok st' \<and> grows st st' \<and>
    ctx_ok st' c' \<and> events_ok es') \<or> packet_loop env now interface c f b es st = None \<and> 1 \<le> v"
  using assms
proof (induction "nat (ob_remaining b)" arbitrary: c f b es st rule: less_induct)
  case (less b c f es st)
  note loop = packet_loop.simps[of env now interface c f b es st]
  show ?case
  proof (cases "ob_remaining b > 0")
    case False
    then show ?thesis using loop less(3,4,11) grows_refl by auto
  next
    case True
    let ?c = "c\<lparr>invalid_addresses := 0\<rparr>" and ?f = "f\<lparr>broadcast_id := replicate BROADCAST_LEN 0\<rparr>"
    have c0: "ctx_ok st ?c" "frame_ok st ?f" using less(4,6) by (simp_all add: ctx_ok_def explain_ok_def frame_ok_def)
    show ?thesis
    proof (cases "parseMdpPacketHeader ?c ?f b st")
      case None
      then have "seq_fault ?c b st" using header_total[OF less(3) c0(1) less(7) c0(2)] by simp
      then show ?thesis using loop True None less(5) by (simp add: seq_fault_def)
    next
      case (Some y)
      obtain r c1 f1 b1 s1 where h: "parseMdpPacketHeader ?c ?f b st = Some (r, c1, f1, b1, s1)" "r \<in> {-1, 0, HEADER_PROCESS, HEADER_FORWARD, HEADER_PROCESS OR HEADER_FORWARD}"
        "state_ok s1" "grows st s1" "ctx_ok s1 c1" "ob_inv b1" "frame_ok s1 f1" "r \<ge> HEADER_FORWARD \<longrightarrow> 0 < frame_ttl f1 \<and> frame_ttl f1 \<le> 30"
        "ctx_header c1 = ctx_header ?c"
        by (rule disjE[OF header_total[OF less(3) c0(1) less(7) c0(2)]], (elim exE conjE, rule that, assumption+), simp add: Some)
      have v: "ctx_packet_version c1 = v" using less(5) h(9) by (auto simp: ctx_header_def)
      show ?thesis
      proof (cases "r < 0")
        case neg: True
        then have "packet_loop env now interface c f b es st = Some (-1, c1, es, s1)" unfolding loop using True h(1) by simp
        then show ?thesis using h(3-5) less(11) by auto
      next
        case pos: False
        have lt: "later b b1 \<and> position b < position b1" using header_consumes[OF h(1)] pos by simp
        have lim: "sizeLimit b1 = sizeLimit b" "allocSize b1 = allocSize b" using lt later_fields[of b b1] by auto
        obtain ok n b2 where p: "payload_length c1 b1 = Some (ok, n, b2)" "ob_inv b2" "ok \<longrightarrow> 0 \<le> n \<and> position b2 + n \<le> sizeLimit b2"
          using payload_length_total[OF h(6), of c1] lim less(8-10) by auto
        have lim2: "sizeLimit b2 = sizeLimit b" "allocSize b2 = allocSize b" "position b1 \<le> position b2" using later_fields[of b1 b2] payload_length_later[OF p(1)] lim by auto
        show ?thesis
        proof (cases ok)
          case False
          then have "packet_loop env now interface c f b es st = Some (-1, c1, es, s1)" unfolding loop using True pos h(1) p(1) by simp
          then show ?thesis using h(3-5) less(11) by auto
        next
          case ok: True
          then have n: "0 \<le> n" "position b2 + n \<le> sizeLimit b2" using p(3) by simp_all
          obtain t es1 s2 where d: "(if r \<noteq> 0 then deliver env now interface r n c1 f1 b2 (length es) s1 else Some (True, [], s1)) = Some (t, es1, s2)"
            "state_ok s2" "grows s1 s2" "\<forall>q. Forwarded q \<in> set es1 \<longrightarrow> r AND HEADER_FORWARD \<noteq> 0 \<and> frame_ttl q = frame_ttl f1"
            by (rule delivered[OF less(2) h(3,7) p(2) n(1)])
          have ev: "events_ok (es @ es1)" using less(11) d(4) header_codes[OF h(2)] h(8) pos unfolding events_ok_def by auto
          have g: "grows st s2" by (rule grows_trans[OF h(4) d(3)])
          have c2: "ctx_ok s2 c1" "frame_ok s2 f1" by (rule grows_ctx[OF d(3) h(5)], rule grows_frame[OF d(3) h(7)])
          let ?b = "b2\<lparr>position := position b2 + n\<rparr>"
          have e: "packet_loop env now interface c f b es st = (if t then packet_loop env now interface c1 f1 ?b (es @ es1) s2 else Some (0, c1, es @ es1, s2))"
            unfolding loop using True pos h(1) p(1) ok d(1) by simp
          show ?thesis
          proof (cases t)
            case False
            then show ?thesis unfolding e using d(2) g c2 ev by auto
          next
            case t: True
            have b: "ob_inv ?b" "0 \<le> sizeLimit ?b" "sizeLimit ?b \<le> allocSize ?b" "sizeLimit ?b < 2 ^ 31"
              using p(2) n lim2 less(8-10) by (auto simp: ob_inv_def ob_mem_def)
            have dec: "nat (ob_remaining ?b) < nat (ob_remaining b)" using True n lim2 lt by (simp add: ob_remaining_def)
            show ?thesis unfolding e using less(1)[OF dec less(2) d(2) c2(1) v c2(2) b ev] t grows_trans[OF g] by auto
          qed
        qed
      qed
    qed
  qed
qed

lemma state_ok_subscriber:
  assumes "state_ok st" "deref st p = Some s" "sub_sid s' = sub_sid s" "abbreviate_len s' = abbreviate_len s"
  shows "state_ok (set_subscriber st p s')" "grows st (set_subscriber st p s')"
proof -
  have t: "table_ok (sub_table (set_subscriber st p s'))" "sids (set_subscriber st p s') = sids st"
    using set_subscriber_ok[of st p s s'] assms by (simp_all add: state_ok_def)
  show g: "grows st (set_subscriber st p s')" using t(2) by (simp add: grows_def)
  show "state_ok (set_subscriber st p s')" using assms(1) t(1) grows_valid[OF g] by (simp add: state_ok_def set_subscriber_def)
qed

lemma set_reachable_total:
  assumes "daemon_ok env" "state_ok st" "p < length (sids st)"
  shows "\<exists>st'. set_reachable env p v st = Some st' \<and> state_ok st' \<and> grows st st'"
proof -
  obtain s where s: "deref st p = Some s" using deref_known[OF assms(3)] by blast
  note u = state_ok_subscriber[OF assms(2) s, of "s\<lparr>reachable := v\<rparr>", simplified]
  have "keeps (reachable_changed env p (reachable s) v)" using assms(1) by (simp add: daemon_ok_def)
  then show ?thesis using keepsD[OF _ u(1)] grows_trans[OF u(2)] assms(2) s grows_refl by (auto simp: set_reachable_def)
qed

lemma note_sender_total:
  assumes env: "daemon_ok env" and ok: "state_ok st" "p < length (sids st)"
  shows "\<exists>st'. note_sender env now interface addr flags seq c p st = Some st' \<and> state_ok st' \<and> grows st st'"
proof -
  obtain s where s: "deref st p = Some s" using deref_known[OF ok(2)] by blast
  define s1 where "s1 = (if max_packet_version s < ctx_packet_version c then s\<lparr>max_packet_version := ctx_packet_version c\<rparr> else s)"
  define s2 where "s2 = (if reachable s1 = REACHABLE_NONE
    then s1\<lparr>sub_interface := Some (if_index interface), sub_address := (case addr of Some a \<Rightarrow> a | None \<Rightarrow> replicate 16 0), last_probe := 0\<rparr> else s1)"
  have "sub_sid s2 = sub_sid s" "abbreviate_len s2 = abbreviate_len s" by (simp_all add: s1_def s2_def)
  note u = state_ok_subscriber[OF ok(1) s this]
  have p: "p < length (sids (set_subscriber st p s2))" using grows_valid[OF u(2), of "Some p"] ok(2) by (simp add: valid_ptr_def)
  define R where "R = (if reachable s1 = REACHABLE_NONE
    then set_reachable env p ((if flags AND PACKET_UNICAST \<noteq> 0 then REACHABLE_UNICAST else REACHABLE_BROADCAST) OR REACHABLE_ASSUMED) (set_subscriber st p s2)
    else Some (set_subscriber st p s2))"
  obtain s3 where r: "R = Some s3" "state_ok s3" "grows (set_subscriber st p s2) s3"
    using set_reachable_total[OF env u(1) p] u(1) grows_refl unfolding R_def by (cases "reachable s1 = REACHABLE_NONE") auto
  have p3: "p < length (sids s3)" using grows_valid[OF r(3), of "Some p"] p by (simp add: valid_ptr_def)
  obtain x where x: "deref s3 p = Some x" using deref_known[OF p3] by blast
  define s4 where "s4 = (case addr of Some a \<Rightarrow> (if last_probe x = 0 \<or> now - last_probe x > tick_ms interface * 10 mod 2 ^ 32
      then send_probe env (Some p) a (if_index interface) OQ_MESH_MANAGEMENT s3 else s3) | None \<Rightarrow> s3)"
  have k: "keeps (send_probe env q a i z)" "keeps (received_packet env n i j t y)" for q a i z n j t y using env by (simp_all add: daemon_ok_def)
  have 4: "state_ok s4" "grows s3 s4" using keepsD[OF k(1) r(2)] r(2) grows_refl by (simp_all add: s4_def split: option.split)
  have "note_sender env now interface addr flags seq c p st = Some (received_packet env p (if_index interface) (ctx_sender_interface c) seq (flags AND PACKET_UNICAST) s4)"
    unfolding note_sender_def s4_def using s x r(1) unfolding R_def s2_def s1_def by (simp add: Let_def cong: if_cong option.case_cong)
  then show ?thesis using keepsD[OF k(2) 4(1)] grows_trans[OF u(2) grows_trans[OF r(3) grows_trans[OF 4(2)]]] by blast
qed

lemma ob_get_later:
  assumes "ob_inv b" obtains v b' where "ob_get b = Some (v, b')" "ob_inv b'" "later b b'"
  using ob_get_total[OF assms] later_get by blast

text \<open>What follows the address of the sender in the header of a packet.\<close>

lemma envelope_rest:
  assumes env: "daemon_ok env" and ok: "state_ok st" "ctx_ok st c" "ob_inv b"
  shows "\<exists>r c' b' st'. envelope_fields env now interface addr c b st = Some (r, c', b', st') \<and> r \<in> {0, 1} \<and> state_ok st' \<and> grows st st' \<and> ctx_ok st' c' \<and> ctx_packet_version c' = ctx_packet_version c \<and>
    ob_inv b' \<and> later b b'"
proof -
  obtain flags b1 where g1: "ob_get b = Some (flags, b1)" "ob_inv b1" "later b b1" by (rule ob_get_later[OF ok(3)])
  obtain si b2 where g2: "(if flags AND PACKET_INTERFACE \<noteq> 0 then ob_get b1 else Some (0, b1)) = Some (si, b2)" "ob_inv b2" "later b1 b2"
  proof (cases "flags AND PACKET_INTERFACE \<noteq> 0")
    case True
    obtain v b' where "ob_get b1 = Some (v, b')" "ob_inv b'" "later b1 b'" by (rule ob_get_later[OF g1(2)])
    then show thesis using that[of v b'] True by simp
  next
    case False
    then show thesis using that[of 0 b1] g1(2) later_refl by simp
  qed
  obtain sq b3 where g3: "(if flags AND PACKET_SEQ \<noteq> 0 then do { (v, buffer) \<leftarrow> ob_get b2; Some (v AND 0xFF, buffer) } else Some (-1, b2)) = Some (sq, b3)" "ob_inv b3" "later b2 b3"
  proof (cases "flags AND PACKET_SEQ \<noteq> 0")
    case True
    obtain v b' where "ob_get b2 = Some (v, b')" "ob_inv b'" "later b2 b'" by (rule ob_get_later[OF g2(2)])
    then show thesis using that[of "v AND 0xFF" b'] True by simp
  next
    case False
    then show thesis using that[of "-1" b2] g2(2) later_refl by simp
  qed
  have l: "later b b3" by (rule later_trans[OF g1(3) later_trans[OF g2(3) g3(3)]])
  let ?c = "c\<lparr>ctx_sender_interface := si, ctx_interface := Some (if_index interface)\<rparr>"
  have v: "valid_ptr st (ctx_sender c)" using ok(2) by (simp add: ctx_ok_def)
  have c: "ctx_ok st ?c" using ok(2) by (simp add: ctx_ok_def explain_ok_def)
  obtain self where s: "is_self st (ctx_sender c) = Some self" using is_self_total[OF v] by blast
  define N where "N = (case ctx_sender c of Some p \<Rightarrow> note_sender env now interface addr flags sq ?c p st
            | None \<Rightarrow> Some (case addr of Some a \<Rightarrow> send_probe env None a (if_index interface) OQ_MESH_MANAGEMENT st | None \<Rightarrow> st))"
  define C where "C = (case addr of Some a \<Rightarrow> ?c\<lparr>ctx_addr := (if flags AND PACKET_UNICAST \<noteq> 0 then a else broadcast_address interface)\<rparr> | None \<Rightarrow> ?c)"
  have k: "keeps (send_probe env q a i z)" for q a i z using env by (simp add: daemon_ok_def)
  obtain s1 where n: "N = Some s1" "state_ok s1" "grows st s1"
  proof (cases "ctx_sender c")
    case None
    then show thesis using that[of "case addr of Some a \<Rightarrow> send_probe env None a (if_index interface) OQ_MESH_MANAGEMENT st | None \<Rightarrow> st"] keepsD[OF k ok(1)] ok(1) grows_refl
      by (simp add: N_def split: option.splits)
  next
    case (Some p)
    then have "p < length (sids st)" using v by (simp add: valid_ptr_def)
    then show thesis using that Some note_sender_total[OF env ok(1)] by (simp add: N_def) blast
  qed
  have C: "ctx_ok s1 C" "ctx_packet_version C = ctx_packet_version c" using grows_ctx[OF n(3) c] by (simp_all add: C_def ctx_ok_def explain_ok_def split: option.split)
  have e: "envelope_fields env now interface addr c b st = (if self then Some (1, ?c, b3, st) else Some (0, C, b3, s1))"
    unfolding envelope_fields_def using g1(1) g2(1) g3(1) s n(1) unfolding N_def C_def by (simp add: Let_def cong: if_cong option.case_cong)
  show ?thesis
  proof (cases self)
    case True
    then show ?thesis using e c ok(1) grows_refl g3(2) l by simp
  next
    case False
    then show ?thesis using e n C g3(2) l by simp
  qed
qed

lemma envelope_total:
  assumes env: "daemon_ok env" and ok: "state_ok st" "ctx_ok st c" "ob_inv b" "ob_get b = Some (v, b1)"
  shows "\<exists>r c' b' st'. parseEnvelopeHeader env interface addr c b st = Some (r, c', b', st') \<and> r \<in> {-1, 0, 1} \<and> state_ok st' \<and> grows st st' \<and> ctx_ok st' c' \<and>
    ob_inv b' \<and> (r = 0 \<longrightarrow> later b b' \<and> ctx_packet_version c' = v \<and> v \<le> 1)"
proof -
  define s0 where "s0 = snd (gettime_ms st)"
  define c1 where "c1 = c\<lparr>ctx_packet_version := v\<rparr>"
  have s0: "state_ok s0" "grows st s0" using ok(1) by (simp_all add: s0_def gettime_ms_def state_ok_def valid_ptr_def grows_table)
  have c1: "ctx_ok s0 c1" using grows_ctx[OF s0(2) ok(2)] by (simp add: c1_def ctx_ok_def explain_ok_def)
  have i1: "ob_inv b1" using ob_get_total[OF ok(3)] ok(4) by auto
  obtain en b2 where g2: "ob_get b1 = Some (en, b2)" "ob_inv b2" "later b1 b2" by (rule ob_get_later[OF i1])
  define c2 where "c2 = c1\<lparr>ctx_encapsulation := en\<rparr>"
  have c2: "ctx_ok s0 c2" using c1 by (simp add: c2_def ctx_ok_def explain_ok_def)
  obtain r x c3 b3 s3 where a: "overlay_address_parse (Some c2) b2 s0 = Some (r, x, Some c3, b3, s3)" "r = 0 \<or> r = -1" "state_ok s3" "grows s0 s3"
    "ctx_ok s3 c3" "ctx_header c3 = ctx_header c2" "ob_inv b3" "\<And>p. x = Some p \<Longrightarrow> valid_ptr s3 p"
    by (rule address_part[OF s0(1) c2 g2(2)], rule that, assumption+)
  define c4 where "c4 = (case x of None \<Rightarrow> c3 | Some p \<Rightarrow> c3\<lparr>ctx_sender := p\<rparr>)"
  have c4: "ctx_ok s3 c4" "ctx_packet_version c4 = v" using a(5,6,8) by (simp_all add: c4_def ctx_ok_def explain_ok_def c2_def c1_def ctx_header_def split: option.split)
  have l: "later b b3" by (rule later_trans[OF later_get[OF ok(4)] later_trans[OF g2(3) later_address_parse[OF a(1)]]])
  have g: "grows st s3" by (rule grows_trans[OF s0(2) a(4)])
  note rest = envelope_rest[OF env a(3) c4(1) a(7), of "fst (gettime_ms st)" interface addr]
  show ?thesis
  proof (cases "v < 0 \<or> v > SUPPORTED_PACKET_VERSION")
    case True
    then have "parseEnvelopeHeader env interface addr c b st = Some (-1, c1, b1, s0)"
      using ok(4) by (simp add: parseEnvelopeHeader_def Let_def s0_def c1_def gettime_ms_def)
    then show ?thesis using s0 c1 i1 by simp
  next
    case v: False
    show ?thesis
    proof (cases "en \<noteq> ENCAP_OVERLAY \<and> en \<noteq> ENCAP_SINGLE")
      case True
      then have "parseEnvelopeHeader env interface addr c b st = Some (-1, c2, b2, s0)"
        using ok(4) v g2(1) by (simp add: parseEnvelopeHeader_def Let_def s0_def c1_def c2_def gettime_ms_def)
      then show ?thesis using s0 c2 g2(2) by simp
    next
      case encap: False
      show ?thesis
      proof (cases "r = 0")
        case False
        then have "parseEnvelopeHeader env interface addr c b st = Some (-1, c4, b3, s3)"
          using ok(4) v g2(1) encap a(1) unfolding parseEnvelopeHeader_def s0_def c1_def c2_def c4_def gettime_ms_def Let_def by auto
        then show ?thesis using a(3,7) c4 g by simp
      next
        case True
        have e: "parseEnvelopeHeader env interface addr c b st = envelope_fields env (fst (gettime_ms st)) interface addr c4 b3 s3"
          using ok(4) v g2(1) encap a(1) True unfolding parseEnvelopeHeader_def s0_def c1_def c2_def c4_def gettime_ms_def Let_def by auto
        obtain r' c' b' st' where x: "parseEnvelopeHeader env interface addr c b st = Some (r', c', b', st')" "r' \<in> {0, 1}" "state_ok st'" "grows s3 st'" "ctx_ok st' c'"
          "ctx_packet_version c' = ctx_packet_version c4" "ob_inv b'" "later b3 b'"
          using rest[folded e] by (elim exE conjE) (rule that)
        then show ?thesis using later_trans[OF l x(8)] grows_trans[OF g x(4)] c4(2) v by auto
      qed
    qed
  qed
qed


definition idle_daemon :: daemon where
  "idle_daemon = \<lparr>payload_enqueue = (\<lambda>_. 0), random_id = (\<lambda>_ _. 0), legacy_ack = (\<lambda>_ _ st. st), saw_advertisements = (\<lambda>_ _ _ st. st), saw_mdp_frame = (\<lambda>_ _ st. st),
     send_probe = (\<lambda>_ _ _ _ st. st), received_packet = (\<lambda>_ _ _ _ _ st. st), reachable_changed = (\<lambda>_ _ _ st. st)\<rparr>"

definition example_interface :: overlay_interface where
  "example_interface = \<lparr>if_index = 0, tick_ms = 500, sequence_number = 0, broadcast_address = replicate 16 0\<rparr>"


end
