(* ===== verification/Spec2Isabelle.thy ===== *)
theory Spec2Isabelle
  imports Serval_Prelude Overlay_Buffer Rotbuf Dataformats Crc32 Slip_Link Sha2_Correct Overlay_Packet_Total
begin

text \<open>
  \<^bold>\<open>A verification of the packet core of serval-dna.\<close>

  The program is the mesh daemon \<open>servald\<close>, the native part of the batphone application, under
  \<open>src/jni/serval-dna\<close>. This development covers the code every packet passes through and the
  utilities it rests on: the buffer packets are built and read in, the table of subscribers,
  abbreviated addresses, frames and packets, the framing of serial links with its checksum, the hash
  functions, and the string and text conversions.

  \<^bold>\<open>How C is modelled.\<close> A C function is a HOL function into \<open>'a option\<close>. The value \<open>None\<close> is
  undefined behaviour or an abort: an access outside an object, a NULL dereference, a shift by the
  width or more, \<open>FATALF\<close>. Error codes are values, so \<open>Some (-1, ...)\<close> is a function that returned
  -1. A theorem that a function equals \<open>Some\<close> of something therefore says that it returns and that
  it does not fault. Integers are words where wrap-around matters and integers elsewhere, with the
  conversions of the C code written out. A memory object is a list of bytes, read and written by
  \<open>c_get\<close>, \<open>c_put\<close>, \<open>c_getn\<close> and \<open>c_putn\<close>, which check the bounds. A \<open>struct\<close> is a record. A
  pointer to a subscriber is an index into a list that only grows, a neighbour is its position in
  the list of neighbours. Global variables are the record \<open>overlay_state\<close>, passed and returned.

  \<^bold>\<open>The parts and their theories.\<close>

  \<^item> \<open>Serval_Prelude\<close>: memory, bytes and the lemmas on lists, words and options that all share.
  \<^item> \<open>Byte_Stream\<close>, \<open>Text_Sink\<close>: the interfaces of buffers, as locales. A byte sink and a byte
    source carry the packed integers; a text sink carries formatting. \<open>Overlay_Buffer\<close> and \<open>Strbuf\<close>
    interpret them.
  \<^item> \<open>Overlay_Buffer\<close> (\<open>overlay_buffer.c\<close>): growth, limits, checkpoints, slices, appending, reading.
    Any sequence of operations stays inside the buffer; appending refines a bounded list; what is
    written is read back, with the exact range where the 64-bit reader fails.
  \<^item> \<open>Rotbuf\<close> (\<open>rotbuf.h\<close>, \<open>rotbuf.c\<close>): the rotated view of a buffer, its cursor and its chunks.
  \<^item> \<open>Strbuf\<close> (\<open>strbuf.c\<close>, \<open>strbuf.h\<close>, \<open>strbuf_helpers.c\<close>), \<open>Str\<close> (\<open>str.c\<close>, \<open>str.h\<close>),
    \<open>Dataformats\<close> (\<open>dataformats.c\<close>): text that is built, quoted, printed and parsed. Buffers refine
    texts; printing and parsing, hexadecimal, scaled integers and shell quoting are round trips.
  \<^item> \<open>Crc32\<close> (\<open>crc32.c\<close>): the table-driven checksum is the polynomial division and detects bursts.
  \<^item> \<open>Slip\<close>, \<open>Slip_Link\<close> (\<open>slip.c\<close> and the stream part of \<open>overlay_interface.c\<close>): both encoders and
    decoders, and a link of sender, wire and receiver. The locale \<open>framing\<close> is what a link needs of a
    pair of encoder and decoder; it is interpreted for UPPER7 and for SLIP.
  \<^item> \<open>Sha2\<close>, \<open>Sha2_Compress\<close>, \<open>Sha2_Correct\<close> (\<open>sha2.c\<close>, \<open>sha2.h\<close>): SHA-256, SHA-384 and SHA-512
    compute the digests of FIPS 180-4 for a message given in any pieces. The locales \<open>sha_family\<close> and
    \<open>hash_context\<close> carry the proof once for both word sizes.
  \<^item> \<open>Subscriber_Tree\<close>, \<open>Subscriber_Tree_Correct\<close> (\<open>overlay_address.c\<close>): the sixteen-way tree of
    subscribers refines the list of known ids, for look-up, insertion, abbreviation and enumeration.
  \<^item> \<open>Link_Neighbour\<close> (\<open>route_link.c\<close>): the list of neighbours and the window in which duplicate
    payloads are recognised.
  \<^item> \<open>Overlay_Address\<close>, \<open>Overlay_Address_Correct\<close> (\<open>overlay_address.c\<close>): broadcast identifiers,
    addresses and explanations. Parsing is safe on arbitrary bytes.
  \<^item> \<open>Overlay_Frame\<close>, \<open>Overlay_Frame_Correct\<close> (\<open>overlay_payload.c\<close>, \<open>overlay_packetformats.c\<close>):
    building and reading frames and packets. A frame on the wire is read back by a receiver whose
    table agrees with the sender's.
  \<^item> \<open>Overlay_Packet_Safe\<close>, \<open>Overlay_Packet_Total\<close> (the same sources): what holds for every frame and
    every packet, whoever sent it.

  \<^bold>\<open>How they interact.\<close> A stream interface feeds bytes to a decoder of \<open>Slip\<close>, which checks them with
  \<open>Crc32\<close> and hands a packet to \<open>packetOkOverlay\<close>. It reads the sender, then frame after frame from
  the buffer: \<open>overlay_address_parse\<close> resolves addresses in the tree, unknown ones are collected in a
  request for explanation; \<open>parseMdpPacketHeader\<close> decides whether to process and to forward,
  with the broadcast table and the duplicate window; \<open>deliver\<close> queues a copy or calls the
  service. In the other direction \<open>overlay_frame_append_payload\<close> writes a frame into a buffer.

  \<^bold>\<open>Bounds and fuel.\<close> All loops are total functions with a termination proof, except two. The read
  loop of a stream interface is a \<open>partial_function\<close>, and the link theorems prove that it returns.
  The iteration of \<open>rotbuf_next_chunk\<close> in \<open>Rotbuf\<close> has fuel; three rounds are enough, since there
  are at most two chunks. A packet is shorter than 2 ^ 31 bytes, the range of \<open>int\<close>.

  \<^bold>\<open>Parameters.\<close> Code outside the model is an argument: the clock, \<open>random\<close>, what \<open>malloc\<close> leaves in
  new memory, \<open>overlay_payload_enqueue\<close>, and the services of the record \<open>daemon\<close>. Of the latter
  \<open>daemon_ok\<close> asks that they keep the state well-formed and forget no subscriber. \<open>malloc\<close> succeeds.

  \<^bold>\<open>Not modelled.\<close> The transmit queues, MDP sockets, rhizome, keyring, voice calls, configuration, the
  poll loop and the command line are calls of the operating system, sqlite, NaCl or audio devices
  around the modelled code; of \<open>route_link.c\<close> only what received frames use is here, without the
  exchange of link states; of \<open>overlay_interface.c\<close> only stream links; of \<open>overlay_link.c\<close> only
  \<open>set_reachable\<close>. Debug output is left out everywhere, and with it the code it runs. SHA-2 is
  the little-endian variant. The Java application and the vendored libraries are outside.
\<close>

end
